(* ===== verification/Nadir_Prelude.thy ===== *)
theory Nadir_Prelude
  imports Main "HOL-Library.Word"
begin

unbundle bit_operations_syntax

text \<open>
  Shared vocabulary of the Nadir kernel development: the C integer types as words, C arrays
  as total maps from an index, the C counting loop \<open>for (i = a; i < b; i++)\<close> as one
  recursive combinator with its termination proof and its invariant rule, and the word
  lemmas the components share.  The collections \<open>unat_ops\<close> (unsigned values of word
  operations that do not wrap) and \<open>frame_ops\<close> (what an operation leaves alone) are
  extended by the component theories.
\<close>

section \<open>C types\<close>

type_synonym u8 = "8 word"
type_synonym u16 = "16 word"
type_synonym u32 = "32 word"
type_synonym u64 = "64 word"

text \<open>
  A C array \<open>T x[N]\<close> is a total map from the element index.  Nothing is forgotten about
  an access out of bounds: it reads or writes the cell with that index, and the in-bounds
  theorems of the components say that no such access happens.
\<close>

type_synonym 'a carray = "nat \<Rightarrow> 'a"

text \<open>A string literal as the bytes of its characters; the terminating NUL is the list's end.\<close>

definition cstr :: "string \<Rightarrow> u8 list" where
  "cstr s = map of_char s"

lemma of_char_word_eq_0: "of_char c = (0 :: u8) \<longleftrightarrow> c = CHR 0x00"
proof -
  have "(of_char c :: u8) = of_nat (of_char c)" by (rule of_nat_of_char [symmetric])
  then have "unat (of_char c :: u8) = of_char c" by (simp add: unat_of_nat)
  moreover have "of_char (CHR 0x00) = (0 :: nat)" by (simp add: of_char_def)
  ultimately show ?thesis by (metis of_char_eq_iff unat_eq_0)
qed

text \<open>A literal without the character 0 is printed to its end.\<close>

lemma cstr_no_nul [simp]: "0 \<in> set (cstr s) \<longleftrightarrow> CHR 0x00 \<in> set s"
  by (auto simp: cstr_def of_char_word_eq_0 image_iff)

lemma cstr_append: "cstr (s @ t) = cstr s @ cstr t"
  by (simp add: cstr_def)

named_theorems unat_ops "unsigned values of word operations that do not wrap"
named_theorems frame_ops "parts of the state an operation leaves unchanged"

section \<open>The counting loop\<close>

text \<open>
  \<open>for_range i n body s\<close> is \<open>for (; i < n; i++) s = body (i, s)\<close> at the width of the
  loop variable.  The guard keeps \<open>i + 1\<close> from wrapping, so the distance \<open>n - i\<close>
  decreases.
\<close>

lemma unat_suc_less [unat_ops]:
  fixes i n :: "'w::len word"
  assumes "i < n"
  shows "unat (i + 1) = Suc (unat i)"
proof -
  have "Suc (unat i) < 2 ^ LENGTH('w)"
    using assms unsigned_less [of n, where 'a = nat] by (unfold word_less_nat_alt) linarith
  then show ?thesis by (simp add: unat_word_ariths)
qed

lemma unat_of_nat_less [unat_ops]:
  fixes n :: "'w::len word"
  assumes "k < unat n"
  shows "unat (of_nat k :: 'w word) = k"
proof -
  have "k < 2 ^ LENGTH('w)"
    using assms unsigned_less [of n, where 'a = nat] by linarith
  then show ?thesis by (simp add: unat_of_nat)
qed

lemma unat_add_small [unat_ops]:
  fixes a b :: "'w::len word"
  assumes "unat a + unat b < 2 ^ LENGTH('w)"
  shows "unat (a + b) = unat a + unat b"
  using assms by (simp add: unat_word_ariths)

lemma unat_sub_small [unat_ops]:
  fixes a b :: "'w::len word"
  assumes "b \<le> a"
  shows "unat (a - b) = unat a - unat b"
  using assms by (simp add: unat_sub_if' word_le_nat_alt)

lemma word_bit_eq_iff: "a = b \<longleftrightarrow> (\<forall>n < LENGTH('w). bit a n = bit b n)"
  for a b :: "'w::len word"
  by (auto intro: bit_word_eqI)

lemma unat_ucast_up:
  fixes w :: "'a::len word"
  assumes "LENGTH('a) \<le> LENGTH('b)"
  shows "unat (ucast w :: 'b::len word) = unat w"
proof -
  have "unat w < 2 ^ LENGTH('a)" by (rule unsigned_less)
  also have "\<dots> \<le> 2 ^ LENGTH('b)" using assms by simp
  finally show ?thesis by (simp add: unsigned_ucast_eq take_bit_nat_eq_self_iff)
qed

function for_range ::
  "'w::len word \<Rightarrow> 'w word \<Rightarrow> ('w word \<Rightarrow> 's \<Rightarrow> 's) \<Rightarrow> 's \<Rightarrow> 's" where
  "for_range i n body s = (if i < n then for_range (i + 1) n body (body i s) else s)"
  by pat_completeness auto
termination
proof (relation "measure (\<lambda>(i, n, body, s). unat n - unat i)")
  show "wf (measure (\<lambda>(i, n, body, s). unat n - unat i))" by simp
next
  fix i n :: "'w::len word" and body :: "'w word \<Rightarrow> 's \<Rightarrow> 's" and s :: 's
  assume "i < n"
  moreover from this have "unat (i + 1) = Suc (unat i)"
    by (rule unat_suc_less)
  ultimately show
    "((i + 1, n, body, body i s), i, n, body, s) \<in> measure (\<lambda>(i, n, body, s). unat n - unat i)"
    by (simp add: word_less_nat_alt)
qed

declare for_range.simps [simp del]

lemma for_range_done [simp]: "n \<le> i \<Longrightarrow> for_range i n body s = s"
  by (subst for_range.simps) auto

lemma for_range_step: "i < n \<Longrightarrow> for_range i n body s = for_range (i + 1) n body (body i s)"
  by (subst for_range.simps) simp

text \<open>The loop is a fold over the index values, and so obeys the usual invariant rule.\<close>

lemma for_range_fold:
  "for_range i n body s = fold (\<lambda>k. body (of_nat k)) [unat i..<unat n] s"
proof (induction i n body s rule: for_range.induct)
  case (1 i n body s)
  show ?case
  proof (cases "i < n")
    case True
    with 1 have "for_range i n body s
        = fold (\<lambda>k. body (of_nat k)) [Suc (unat i)..<unat n] (body i s)"
      by (simp add: for_range_step unat_suc_less)
    moreover from True have "[unat i..<unat n] = unat i # [Suc (unat i)..<unat n]"
      by (simp add: word_less_nat_alt upt_conv_Cons)
    ultimately show ?thesis by simp
  next
    case False
    then show ?thesis by (simp add: not_less word_le_nat_alt)
  qed
qed

lemma for_range_invariant:
  assumes "P (unat i) s" and "i \<le> n"
    and step: "\<And>k s. unat i \<le> k \<Longrightarrow> k < unat n \<Longrightarrow> P k s \<Longrightarrow> P (Suc k) (body (of_nat k) s)"
  shows "P (unat n) (for_range i n body s)"
proof -
  have "P (unat i + m) (fold (\<lambda>k. body (of_nat k)) [unat i..<unat i + m] s)"
    if "unat i + m \<le> unat n" for m
    using that
  proof (induction m)
    case 0
    with assms(1) show ?case by simp
  next
    case (Suc m)
    then show ?case using step [of "unat i + m"] by simp
  qed
  from this [of "unat n - unat i"] \<open>i \<le> n\<close> show ?thesis
    by (simp add: for_range_fold word_le_nat_alt)
qed

text \<open>The same rule with the bounds as numbers.\<close>

lemma for_range_rule:
  fixes i n :: "'w::len word"
  assumes "unat i = a" "unat n = b" "a \<le> b" "P a s"
    and "\<And>k s. a \<le> k \<Longrightarrow> k < b \<Longrightarrow> unat (of_nat k :: 'w word) = k \<Longrightarrow> P k s \<Longrightarrow> P (Suc k) (body (of_nat k) s)"
  shows "P b (for_range i n body s)"
proof -
  have "P (unat n) (for_range i n body s)"
  proof (rule for_range_invariant)
    fix k s
    assume "unat i \<le> k" "k < unat n" "P k s"
    with assms(1,2) show "P (Suc k) (body (of_nat k) s)"
      by (intro assms(5)) (auto intro: unat_of_nat_less)
  qed (use assms in \<open>simp_all add: word_le_nat_alt\<close>)
  with assms(2) show ?thesis by simp
qed

text \<open>A property every iteration keeps holds after the loop, whatever its bounds.\<close>

lemma for_range_keeps:
  assumes "P s" and "\<And>k s. P s \<Longrightarrow> P (body k s)"
  shows "P (for_range i n body s)"
proof -
  have "P (fold (\<lambda>k. body (of_nat k)) ks s)" for ks
    using assms(1) by (induction ks arbitrary: s) (auto intro: assms(2))
  then show ?thesis by (simp add: for_range_fold)
qed

end
