(* ===== verification/Pmm.thy ===== *)
theory Pmm
  imports Nadir_Prelude
begin

unbundle bit_operations_syntax

text \<open>
  The physical memory manager, \<^verbatim>\<open>kernel/mm/pmm.c\<close> with \<^verbatim>\<open>include/pmm.h\<close> and
  \<^verbatim>\<open>include/e820.h\<close>: a bitmap of one bit per 4KB frame over the first 1GB (bit set means
  used or reserved) and two counters.  The abstract state of the allocator is
  \<open>free_frames\<close>, the set of frame numbers whose bit is clear; the lemmas say what every
  operation does to that set and that the counter \<open>g_free\<close> is its cardinality.  The
  locale \<open>frame_allocator\<close> is the contract the heap relies on, interpreted here on the
  operations of \<^verbatim>\<open>pmm.c\<close>.
\<close>

section \<open>Data\<close>

definition E820_MAX :: u32 where "E820_MAX = 64"
definition E820_USABLE :: u32 where "E820_USABLE = 1"

record e820_entry =
  e_base :: u64
  e_length :: u64
  e_type :: u32
  e_acpi_attr :: u32

definition PMM_FRAME_SIZE :: u64 where "PMM_FRAME_SIZE = 4096"
definition PMM_MAX_BYTES :: u64 where "PMM_MAX_BYTES = 0x40000000"
definition PMM_MAX_FRAMES :: u64 where "PMM_MAX_FRAMES = PMM_MAX_BYTES div PMM_FRAME_SIZE"

lemma PMM_MAX_FRAMES_value: "PMM_MAX_FRAMES = 262144"
  by (simp add: PMM_MAX_FRAMES_def PMM_MAX_BYTES_def PMM_FRAME_SIZE_def)

lemmas pmm_consts = PMM_FRAME_SIZE_def PMM_MAX_BYTES_def PMM_MAX_FRAMES_value
  E820_MAX_def E820_USABLE_def

text \<open>The static variables of \<^verbatim>\<open>pmm.c\<close>.\<close>

record pmm =
  bitmap :: "u8 carray"
  g_usable :: u64
  g_free :: u64

section \<open>Operations\<close>

definition pmm_set_bit :: "u64 \<Rightarrow> pmm \<Rightarrow> pmm" where
  "pmm_set_bit frame p = p\<lparr>bitmap := (bitmap p)(unat (frame div 8) :=
     bitmap p (unat (frame div 8)) OR ucast (push_bit (unat (frame mod 8)) (1 :: u32)))\<rparr>"

definition pmm_clear_bit :: "u64 \<Rightarrow> pmm \<Rightarrow> pmm" where
  "pmm_clear_bit frame p = p\<lparr>bitmap := (bitmap p)(unat (frame div 8) :=
     bitmap p (unat (frame div 8)) AND ucast (NOT (push_bit (unat (frame mod 8)) (1 :: u32))))\<rparr>"

definition pmm_test_bit :: "u64 \<Rightarrow> pmm \<Rightarrow> bool" where
  "pmm_test_bit frame p \<longleftrightarrow>
     bitmap p (unat (frame div 8)) AND ucast (push_bit (unat (frame mod 8)) (1 :: u32)) \<noteq> 0"

text \<open>The loop bodies of \<open>reserve_range\<close> and of the first pass of \<open>pmm_init\<close>.\<close>

definition reserve_frame :: "u64 \<Rightarrow> pmm \<Rightarrow> pmm" where
  "reserve_frame frame p =
     (if \<not> pmm_test_bit frame p
      then (pmm_set_bit frame p)\<lparr>g_free := g_free p - 1\<rparr>
      else p)"

definition release_frame :: "u64 \<Rightarrow> pmm \<Rightarrow> pmm" where
  "release_frame frame p =
     (if pmm_test_bit frame p
      then (pmm_clear_bit frame p)\<lparr>g_usable := g_usable p + 1, g_free := g_free p + 1\<rparr>
      else p)"

definition reserve_range :: "u64 \<Rightarrow> u64 \<Rightarrow> pmm \<Rightarrow> pmm" where
  "reserve_range base len p =
     (if len = 0 then p
      else let e = base + len; e = (if e < base then - 1 else e)
      in if PMM_MAX_BYTES \<le> base then p
      else let e = (if PMM_MAX_BYTES < e then PMM_MAX_BYTES else e)
      in for_range (base div PMM_FRAME_SIZE) (e div PMM_FRAME_SIZE) reserve_frame p)"

definition mark_usable :: "e820_entry \<Rightarrow> pmm \<Rightarrow> pmm" where
  "mark_usable en p =
     (if e_type en \<noteq> E820_USABLE then p
      else if e_length en = 0 then p
      else let start = e_base en; e = start + e_length en; e = (if e < start then - 1 else e)
      in if PMM_MAX_BYTES \<le> start then p
      else let e = (if PMM_MAX_BYTES < e then PMM_MAX_BYTES else e);
               start = (start + PMM_FRAME_SIZE - 1) div PMM_FRAME_SIZE;
               e = e div PMM_FRAME_SIZE
      in for_range start e release_frame p)"

definition carve_reserved :: "e820_entry \<Rightarrow> pmm \<Rightarrow> pmm" where
  "carve_reserved en p =
     (if e_type en \<noteq> E820_USABLE then reserve_range (e_base en) (e_length en) p else p)"

definition bitmap_bytes :: u64 where
  "bitmap_bytes = PMM_MAX_FRAMES div 8"

definition reserve_all :: "pmm \<Rightarrow> pmm" where
  "reserve_all p =
     p\<lparr>bitmap := for_range 0 bitmap_bytes (\<lambda>i b. b(unat i := 0xFF)) (bitmap p),
       g_usable := 0, g_free := 0\<rparr>"

definition clamp_count :: "u32 \<Rightarrow> e820_entry carray option \<Rightarrow> u32" where
  "clamp_count count entries =
     (let count = (if entries = None then 0 else count)
      in if E820_MAX < count then E820_MAX else count)"

definition for_entries ::
  "u32 \<Rightarrow> e820_entry carray option \<Rightarrow> (e820_entry \<Rightarrow> pmm \<Rightarrow> pmm) \<Rightarrow> pmm \<Rightarrow> pmm" where
  "for_entries count entries body p =
     (case entries of
        None \<Rightarrow> p
      | Some es \<Rightarrow> for_range (0 :: u64) (ucast count) (\<lambda>i. body (es (unat i))) p)"

text \<open>
  \<open>pmm_init\<close>.  The bounds of the kernel image come from the linker script, so they are
  arguments; \<open>entries = None\<close> is the NULL pointer, for which the count is 0 and the
  loops do nothing.
\<close>

definition pmm_init :: "u64 \<Rightarrow> u64 \<Rightarrow> u32 \<Rightarrow> e820_entry carray option \<Rightarrow> pmm \<Rightarrow> pmm" where
  "pmm_init kernel_start kernel_end count entries p =
     (let p = reserve_all p;
          count = clamp_count count entries;
          p = for_entries count entries mark_usable p;
          p = for_entries count entries carve_reserved p;
          p = reserve_range 0x00000000 0x00100000 p;
          p = reserve_range kernel_start (kernel_end - kernel_start) p;
          p = reserve_range 0x00070000 0x00004000 p;
          p = reserve_range 0x00005000 0x00000620 p;
          p = reserve_range 0x0008C000 0x00004000 p
      in reserve_range 0x000B8000 0x00001000 p)"

function pmm_alloc_scan :: "u64 \<Rightarrow> pmm \<Rightarrow> u64 \<times> pmm" where
  "pmm_alloc_scan frame p =
     (if frame < PMM_MAX_FRAMES
      then if \<not> pmm_test_bit frame p
           then (frame * PMM_FRAME_SIZE, (pmm_set_bit frame p)\<lparr>g_free := g_free p - 1\<rparr>)
           else pmm_alloc_scan (frame + 1) p
      else (0, p))"
  by pat_completeness auto
termination
  by (relation "measure (\<lambda>(frame, p). unat PMM_MAX_FRAMES - unat frame)")
    (auto simp: unat_suc_less word_less_nat_alt)

declare pmm_alloc_scan.simps [simp del]

definition pmm_alloc_frame :: "pmm \<Rightarrow> u64 \<times> pmm" where
  "pmm_alloc_frame p = pmm_alloc_scan 0 p"

definition pmm_free_frame :: "u64 \<Rightarrow> pmm \<Rightarrow> pmm" where
  "pmm_free_frame addr p =
     (if addr mod PMM_FRAME_SIZE \<noteq> 0 then p
      else if PMM_MAX_BYTES \<le> addr then p
      else let frame = addr div PMM_FRAME_SIZE
      in if pmm_test_bit frame p
         then (pmm_clear_bit frame p)\<lparr>g_free := g_free p + 1\<rparr>
         else p)"

definition pmm_total_count :: u64 where "pmm_total_count = PMM_MAX_FRAMES"
definition pmm_free_count :: "pmm \<Rightarrow> u64" where "pmm_free_count p = g_free p"
definition pmm_usable_count :: "pmm \<Rightarrow> u64" where "pmm_usable_count p = g_usable p"

section \<open>The abstract state: the set of free frames\<close>

definition frame_free :: "pmm \<Rightarrow> nat \<Rightarrow> bool" where
  "frame_free p f \<longleftrightarrow> f < 262144 \<and> \<not> bit (bitmap p (f div 8)) (f mod 8)"

definition free_frames :: "pmm \<Rightarrow> nat set" where
  "free_frames p = {f. frame_free p f}"

text \<open>The frames a usable entry makes free: those that lie wholly inside it.\<close>

definition usable_frames :: "e820_entry \<Rightarrow> nat set" where
  "usable_frames en = {f. f < 262144 \<and> e_type en = E820_USABLE \<and>
     unat (e_base en) \<le> f * 4096 \<and> (f + 1) * 4096 \<le> unat (e_base en) + unat (e_length en)}"

text \<open>
  The frames \<open>reserve_range\<close> takes out: from the frame that holds the first byte, up to
  but not including the frame that holds the end address.
\<close>

definition range_frames :: "u64 \<Rightarrow> u64 \<Rightarrow> nat set" where
  "range_frames base len = {f. f < 262144 \<and> unat base div 4096 \<le> f \<and>
     f < (unat base + unat len) div 4096}"

text \<open>The physical address of a frame.\<close>

definition frame_addr :: "nat \<Rightarrow> u64" where
  "frame_addr f = of_nat f * 4096"

definition pmm_counts :: "pmm \<Rightarrow> bool" where
  "pmm_counts p \<longleftrightarrow> unat (g_free p) = card (free_frames p)"

definition pmm_inv :: "pmm \<Rightarrow> bool" where
  "pmm_inv p \<longleftrightarrow> pmm_counts p \<and> 0 \<notin> free_frames p"

subsection \<open>Bits and frames\<close>

lemma bit_mask_u8 [simp]: "k < 8 \<Longrightarrow> bit (ucast (2 ^ k :: u32) :: u8) j \<longleftrightarrow> j = k"
  by (auto simp: bit_simps)

lemma bit_not_mask_u8 [simp]:
  "k < 8 \<Longrightarrow> bit (ucast (NOT (2 ^ k :: u32)) :: u8) j \<longleftrightarrow> j < 8 \<and> j \<noteq> k"
  by (auto simp: bit_simps)

lemma unat_div8 [simp]: "unat (frame div 8 :: u64) = unat frame div 8"
  by (simp add: unat_div_distrib)

lemma unat_mod8 [simp]: "unat (frame mod 8 :: u64) = unat frame mod 8"
  by (simp add: unat_mod_distrib)

lemma pmm_test_bit_iff:
  "pmm_test_bit frame p \<longleftrightarrow> bit (bitmap p (unat frame div 8)) (unat frame mod 8)"
proof -
  have "bitmap p (unat frame div 8) AND ucast (push_bit (unat frame mod 8) (1 :: u32)) = 0
      \<longleftrightarrow> \<not> bit (bitmap p (unat frame div 8)) (unat frame mod 8)"
    by (simp add: word_bit_eq_iff bit_and_iff) (metis mod_less_divisor zero_less_numeral)
  then show ?thesis by (simp add: pmm_test_bit_def)
qed

lemma div_mod_8_eq: "(a :: nat) div 8 = b div 8 \<Longrightarrow> a mod 8 = b mod 8 \<Longrightarrow> a = b"
  by (metis div_mult_mod_eq)

lemma frame_free_set_bit:
  "frame_free (pmm_set_bit frame p) f \<longleftrightarrow> frame_free p f \<and> f \<noteq> unat frame"
  by (auto simp: frame_free_def pmm_set_bit_def bit_or_iff dest: div_mod_8_eq)

lemma frame_free_clear_bit:
  "frame_free (pmm_clear_bit frame p) f \<longleftrightarrow>
     frame_free p f \<or> (f = unat frame \<and> f < 262144)"
  by (auto simp: frame_free_def pmm_clear_bit_def bit_and_iff
      dest: div_mod_8_eq)

lemma free_frames_bound: "f \<in> free_frames p \<Longrightarrow> f < 262144"
  by (simp add: free_frames_def frame_free_def)

lemma finite_free_frames [simp]: "finite (free_frames p)"
  by (rule finite_subset [of _ "{..<262144}"]) (auto dest: free_frames_bound)

lemma card_free_frames_le: "card (free_frames p) \<le> 262144"
  using card_mono [of "{..<262144}" "free_frames p"] by (auto dest: free_frames_bound)

lemma free_frames_set_bit [simp]:
  "free_frames (pmm_set_bit frame p) = free_frames p - {unat frame}"
  by (auto simp: free_frames_def frame_free_set_bit)

lemma free_frames_clear_bit [simp]:
  "unat frame < 262144 \<Longrightarrow> free_frames (pmm_clear_bit frame p) = insert (unat frame) (free_frames p)"
  by (auto simp: free_frames_def frame_free_clear_bit)

lemma free_frames_counters [simp]:
  "free_frames (p\<lparr>g_free := a\<rparr>) = free_frames p"
  "free_frames (p\<lparr>g_usable := b\<rparr>) = free_frames p"
  by (simp_all add: free_frames_def frame_free_def)

lemma bit_ops_counters [simp]:
  "g_free (pmm_set_bit frame p) = g_free p" "g_usable (pmm_set_bit frame p) = g_usable p"
  "g_free (pmm_clear_bit frame p) = g_free p" "g_usable (pmm_clear_bit frame p) = g_usable p"
  by (simp_all add: pmm_set_bit_def pmm_clear_bit_def)

lemma test_bit_free:
  "unat frame < 262144 \<Longrightarrow> \<not> pmm_test_bit frame p \<longleftrightarrow> unat frame \<in> free_frames p"
  by (simp add: pmm_test_bit_iff free_frames_def frame_free_def)

lemma free_frames_reserve_frame [simp]:
  "unat frame < 262144 \<Longrightarrow> free_frames (reserve_frame frame p) = free_frames p - {unat frame}"
  using test_bit_free [of frame p] by (auto simp: reserve_frame_def)

lemma free_frames_release_frame [simp]:
  "unat frame < 262144 \<Longrightarrow> free_frames (release_frame frame p) = insert (unat frame) (free_frames p)"
  using test_bit_free [of frame p] by (auto simp: release_frame_def)

subsection \<open>The counters follow the set\<close>

lemma unat_dec: "0 < unat w \<Longrightarrow> unat (w - 1) = unat w - 1" for w :: u64
  by (simp add: unat_sub_small word_le_nat_alt Suc_leI)

lemma unat_inc: "unat w \<le> 262144 \<Longrightarrow> unat (w + 1) = unat w + 1" for w :: u64
  by (simp add: unat_add_small)

text \<open>Taking a free frame and returning a used one keep \<open>g_free\<close> equal to the number of free frames.\<close>

lemma pmm_counts_take:
  assumes "pmm_counts p" and "unat frame \<in> free_frames p"
  shows "pmm_counts ((pmm_set_bit frame p)\<lparr>g_free := g_free p - 1\<rparr>)"
proof -
  have "0 < card (free_frames p)"
    using assms(2) by (auto simp: card_gt_0_iff)
  with assms show ?thesis by (simp add: pmm_counts_def unat_dec)
qed

lemma pmm_counts_give:
  assumes "pmm_counts p" and "unat frame < 262144" and "unat frame \<notin> free_frames p"
  shows "pmm_counts ((pmm_clear_bit frame p)\<lparr>g_free := g_free p + 1\<rparr>)"
  using assms card_free_frames_le [of p] by (simp add: pmm_counts_def unat_inc)

lemma pmm_counts_reserve_frame:
  "pmm_counts p \<Longrightarrow> unat frame < 262144 \<Longrightarrow> pmm_counts (reserve_frame frame p)"
  by (auto simp: reserve_frame_def test_bit_free intro: pmm_counts_take)

lemma g_usable_reserve_frame [simp]: "g_usable (reserve_frame frame p) = g_usable p"
  by (simp add: reserve_frame_def)

lemma reserve_frames_loop:
  assumes "lo \<le> hi" and "unat hi \<le> 262144" and "pmm_counts p"
  shows "free_frames (for_range lo hi reserve_frame p) = free_frames p - {unat lo..<unat hi}
    \<and> pmm_counts (for_range lo hi reserve_frame p)"
proof (rule for_range_invariant [where P = "\<lambda>k q. free_frames q = free_frames p - {unat lo..<k}
      \<and> pmm_counts q"])
  fix k q
  assume k: "unat lo \<le> k" "k < unat hi"
    and q: "free_frames q = free_frames p - {unat lo..<k} \<and> pmm_counts q"
  have fr: "unat (of_nat k :: u64) = k" using k(2) by (rule unat_of_nat_less)
  with k assms(2) have lt: "unat (of_nat k :: u64) < 262144" by linarith
  have "{unat lo..<Suc k} = insert k {unat lo..<k}" using k(1) by auto
  then show "free_frames (reserve_frame (of_nat k) q) = free_frames p - {unat lo..<Suc k}
      \<and> pmm_counts (reserve_frame (of_nat k) q)"
    using free_frames_reserve_frame [OF lt, of q] pmm_counts_reserve_frame [OF _ lt, of q] q
    by (auto simp only: fr)
qed (use assms in auto)

subsection \<open>Byte ranges to frame ranges\<close>

text \<open>
  The end address of a range as the code computes it: saturated when \<open>base + len\<close>
  wraps, then cut at the 1GB window.
\<close>

definition clipped_end :: "u64 \<Rightarrow> u64 \<Rightarrow> u64" where
  "clipped_end base len =
     (let e = base + len; e = (if e < base then - 1 else e)
      in if PMM_MAX_BYTES < e then PMM_MAX_BYTES else e)"

lemma less_div_frame: "f < x div 4096 \<longleftrightarrow> f * 4096 + 4096 \<le> (x :: nat)"
  using less_eq_div_iff_mult_less_eq [of 4096 "Suc f" x] by (simp add: Suc_le_eq add.commute)

lemma unat_div_frame [simp]: "unat (a div 4096 :: u64) = unat a div 4096"
  by (simp add: unat_div_distrib)

lemma unat_clipped_end:
  "unat (clipped_end base len) = min (unat base + unat len) 0x40000000"
proof (cases "unat base + unat len < 2 ^ 64")
  case True
  then have "unat (base + len) = unat base + unat len" by (simp add: unat_add_small)
  then show ?thesis
    by (simp add: clipped_end_def PMM_MAX_BYTES_def word_less_nat_alt Let_def)
next
  case False
  then have ov: "unat (base + len) = unat base + unat len - 2 ^ 64"
    using unsigned_less [of base, where 'a = nat] unsigned_less [of len, where 'a = nat]
    by (simp add: unat_plus_if')
  then have "base + len < base"
    using False unsigned_less [of len, where 'a = nat] by (simp add: word_less_nat_alt)
  moreover have "unat (- 1 :: u64) = 2 ^ 64 - 1"
    by (simp add: unsigned_minus_1_eq_mask mask_eq_exp_minus_1)
  ultimately show ?thesis using False
    by (simp add: clipped_end_def PMM_MAX_BYTES_def word_less_nat_alt Let_def)
qed

lemma range_frames_empty [simp]: "range_frames base 0 = {}"
  by (auto simp: range_frames_def)

lemma range_frames_outside: "PMM_MAX_BYTES \<le> base \<Longrightarrow> range_frames base len = {}"
  by (auto simp: range_frames_def pmm_consts word_le_nat_alt)

lemma range_frames_clipped:
  "range_frames base len = {unat base div 4096..<unat (clipped_end base len) div 4096}"
proof -
  have "f < min (unat base + unat len) 0x40000000 div 4096 \<longleftrightarrow>
      f < (unat base + unat len) div 4096 \<and> f < 262144" for f
    by (simp add: less_div_frame) linarith
  then show ?thesis
    unfolding range_frames_def unat_clipped_end by (intro set_eqI) (simp only: mem_Collect_eq
        atLeastLessThan_iff, blast)
qed

lemma reserve_range_unfold:
  "reserve_range base len p =
     (if len = 0 \<or> PMM_MAX_BYTES \<le> base then p
      else for_range (base div 4096) (clipped_end base len div 4096) reserve_frame p)"
  by (simp add: reserve_range_def clipped_end_def Let_def PMM_FRAME_SIZE_def)

lemma g_usable_reserve_range [simp]: "g_usable (reserve_range base len p) = g_usable p"
  unfolding reserve_range_unfold by (auto intro: for_range_keeps)

text \<open>What \<open>reserve_range\<close> does: it takes exactly \<open>range_frames\<close> out of the free set.\<close>

lemma reserve_range_spec:
  assumes "pmm_counts p"
  shows "free_frames (reserve_range base len p) = free_frames p - range_frames base len
    \<and> pmm_counts (reserve_range base len p)"
proof (cases "len = 0 \<or> PMM_MAX_BYTES \<le> base")
  case True
  with assms show ?thesis by (auto simp: reserve_range_unfold range_frames_outside)
next
  case False
  then have "unat base < 0x40000000" by (simp add: PMM_MAX_BYTES_def word_le_nat_alt)
  then have "unat base div 4096 \<le> unat (clipped_end base len) div 4096"
    by (simp add: unat_clipped_end div_le_mono)
  moreover have "unat (clipped_end base len div 4096) \<le> 262144"
    using div_le_mono [where m = "unat (clipped_end base len)" and n = "0x40000000" and k = "4096"]
    by (simp add: unat_clipped_end)
  ultimately show ?thesis
    using False reserve_frames_loop [of "base div 4096" "clipped_end base len div 4096" p] assms
    by (simp add: reserve_range_unfold range_frames_clipped word_le_nat_alt)
qed

lemmas free_frames_reserve_range = reserve_range_spec [THEN conjunct1]
lemmas pmm_counts_reserve_range = reserve_range_spec [THEN conjunct2]

subsection \<open>Building the bitmap\<close>

text \<open>While usable entries are being marked, both counters equal the number of free frames.\<close>

definition marking :: "pmm \<Rightarrow> bool" where
  "marking p \<longleftrightarrow> pmm_counts p \<and> unat (g_usable p) = card (free_frames p)"

lemma marking_release_frame:
  assumes "marking p" and "unat frame < 262144"
  shows "marking (release_frame frame p)"
proof (cases "unat frame \<in> free_frames p")
  case True
  with assms show ?thesis using test_bit_free [of frame p] by (simp add: release_frame_def)
next
  case False
  with assms card_free_frames_le [of p] show ?thesis
    using test_bit_free [of frame p]
    by (simp add: release_frame_def marking_def pmm_counts_def unat_inc)
qed

lemma release_frames_loop:
  assumes "unat hi \<le> 262144" and "marking p"
  shows "free_frames (for_range lo hi release_frame p) = free_frames p \<union> {unat lo..<unat hi}
    \<and> marking (for_range lo hi release_frame p)"
proof (cases "lo \<le> hi")
  case True
  show ?thesis
  proof (rule for_range_invariant [where P = "\<lambda>k q. free_frames q = free_frames p \<union> {unat lo..<k}
        \<and> marking q", OF _ True])
    fix k q
    assume k: "unat lo \<le> k" "k < unat hi"
      and q: "free_frames q = free_frames p \<union> {unat lo..<k} \<and> marking q"
    have fr: "unat (of_nat k :: u64) = k" using k(2) by (rule unat_of_nat_less)
    with k assms(1) have lt: "unat (of_nat k :: u64) < 262144" by linarith
    have "{unat lo..<Suc k} = insert k {unat lo..<k}" using k(1) by auto
    then show "free_frames (release_frame (of_nat k) q) = free_frames p \<union> {unat lo..<Suc k}
        \<and> marking (release_frame (of_nat k) q)"
      using free_frames_release_frame [OF lt, of q] marking_release_frame [OF _ lt, of q] q
      by (auto simp only: fr)
  qed (use assms in auto)
next
  case False
  with assms show ?thesis by (simp add: word_le_nat_alt not_le)
qed

lemma ceil_frame_le: "(x + 4095) div 4096 \<le> f \<longleftrightarrow> x \<le> f * (4096 :: nat)"
  using div_less_iff_less_mult [of 4096 "x + 4095" "Suc f"] by (simp add: less_Suc_eq_le)

lemma unat_ceil_frame:
  fixes a :: u64
  assumes "unat a < 0x40000000"
  shows "unat ((a + 4096 - 1) div 4096) = (unat a + 4095) div 4096"
proof -
  have "a + 4096 - 1 = a + 4095" by simp
  moreover have "unat (a + 4095) = unat a + 4095"
    using assms by (simp add: unat_add_small)
  ultimately show ?thesis by (simp only: unat_div_frame)
qed

lemma usable_frames_clipped:
  assumes "e_type en = E820_USABLE"
  shows "usable_frames en =
    {(unat (e_base en) + 4095) div 4096..<unat (clipped_end (e_base en) (e_length en)) div 4096}"
proof -
  have "f \<in> usable_frames en \<longleftrightarrow> (unat (e_base en) + 4095) div 4096 \<le> f
      \<and> f < unat (clipped_end (e_base en) (e_length en)) div 4096" for f
    by (simp add: usable_frames_def assms ceil_frame_le less_div_frame unat_clipped_end) linarith
  then show ?thesis by (intro set_eqI) (simp only: atLeastLessThan_iff)
qed

lemma mark_usable_unfold:
  "mark_usable en p =
     (if e_type en \<noteq> E820_USABLE \<or> e_length en = 0 \<or> PMM_MAX_BYTES \<le> e_base en then p
      else for_range ((e_base en + 4096 - 1) div 4096)
        (clipped_end (e_base en) (e_length en) div 4096) release_frame p)"
  by (simp add: mark_usable_def clipped_end_def Let_def PMM_FRAME_SIZE_def)

lemma usable_frames_none:
  "e_type en \<noteq> E820_USABLE \<or> e_length en = 0 \<or> PMM_MAX_BYTES \<le> e_base en \<Longrightarrow> usable_frames en = {}"
  by (auto simp: usable_frames_def PMM_MAX_BYTES_def word_le_nat_alt)

lemma mark_usable_spec:
  assumes "marking p"
  shows "free_frames (mark_usable en p) = free_frames p \<union> usable_frames en
    \<and> marking (mark_usable en p)"
proof (cases "e_type en \<noteq> E820_USABLE \<or> e_length en = 0 \<or> PMM_MAX_BYTES \<le> e_base en")
  case True
  with assms show ?thesis by (simp add: mark_usable_unfold usable_frames_none)
next
  case False
  then have "unat (e_base en) < 0x40000000" by (simp add: PMM_MAX_BYTES_def word_le_nat_alt)
  note lo = unat_ceil_frame [OF this]
  have "unat (clipped_end (e_base en) (e_length en) div 4096) \<le> 262144"
    using div_le_mono [where m = "unat (clipped_end (e_base en) (e_length en))"
        and n = "0x40000000" and k = "4096"] by (simp add: unat_clipped_end)
  from release_frames_loop [OF this assms] lo False show ?thesis
    by (simp add: mark_usable_unfold usable_frames_clipped)
qed

lemma reserve_all_spec: "free_frames (reserve_all p) = {} \<and> marking (reserve_all p)"
proof -
  define b where "b = for_range 0 bitmap_bytes (\<lambda>i b. b(unat i := 0xFF)) (bitmap p)"
  have bytes: "unat bitmap_bytes = 32768" by (simp add: bitmap_bytes_def PMM_MAX_FRAMES_value)
  have "\<forall>j < unat bitmap_bytes. b j = 0xFF"
    unfolding b_def
  proof (rule for_range_invariant [where P = "\<lambda>k c. \<forall>j < k. c j = 0xFF"])
    fix k :: nat and c :: "u8 carray"
    assume "k < unat bitmap_bytes" and "\<forall>j < k. c j = 0xFF"
    then show "\<forall>j < Suc k. (c(unat (of_nat k :: u64) := 0xFF)) j = 0xFF"
      by (simp add: unat_of_nat_less less_Suc_eq)
  qed simp_all
  then have all: "b (f div 8) = 0xFF" if "f < 262144" for f
    using that by (simp add: bytes)
  have ff: "bit (0xFF :: u8) j" if "j < 8" for j
  proof -
    have "(0xFF :: u8) = - 1" by simp
    with that show ?thesis by (simp only: bit_minus_1_iff) simp
  qed
  have "free_frames (reserve_all p) = {}"
    using all ff by (auto simp: free_frames_def frame_free_def reserve_all_def b_def [symmetric])
  then show ?thesis
    by (simp add: marking_def pmm_counts_def) (simp add: reserve_all_def)
qed

text \<open>The entries of the memory map \<open>pmm_init\<close> looks at, in order.\<close>

definition e820_map :: "u32 \<Rightarrow> e820_entry carray option \<Rightarrow> e820_entry list" where
  "e820_map count entries =
     (case entries of None \<Rightarrow> [] | Some es \<Rightarrow> map es [0..<min (unat count) 64])"

lemma for_entries_fold:
  "for_entries (clamp_count count entries) entries body p = fold body (e820_map count entries) p"
proof (cases entries)
  case None
  then show ?thesis by (simp add: for_entries_def e820_map_def)
next
  case (Some es)
  let ?n = "min (unat count) 64"
  have cnt: "unat (clamp_count count entries) = ?n"
    using Some by (simp add: clamp_count_def E820_MAX_def word_less_nat_alt)
  have "unat (ucast (clamp_count count entries) :: u64) = ?n"
    using cnt by (simp add: unat_ucast_up)
  then have "for_entries (clamp_count count entries) entries body p
      = fold (\<lambda>k. body (es (unat (of_nat k :: u64)))) [0..<?n] p"
    using Some by (simp add: for_entries_def for_range_fold)
  also have "\<dots> = fold (\<lambda>k. body (es k)) [0..<?n] p"
    by (rule fold_cong) (auto simp: unat_of_nat)
  finally show ?thesis using Some by (simp add: e820_map_def fold_map comp_def)
qed

lemma fold_mark_usable:
  assumes "marking p"
  shows "free_frames (fold mark_usable ens p) = free_frames p \<union> (\<Union>en\<in>set ens. usable_frames en)
    \<and> marking (fold mark_usable ens p)"
  using assms
  by (induction ens arbitrary: p) (auto simp: mark_usable_spec)

definition carved_frames :: "e820_entry list \<Rightarrow> nat set" where
  "carved_frames ens =
     (\<Union>en\<in>set (filter (\<lambda>en. e_type en \<noteq> E820_USABLE) ens). range_frames (e_base en) (e_length en))"

lemma fold_carve_reserved:
  assumes "pmm_counts p"
  shows "free_frames (fold carve_reserved ens p) = free_frames p - carved_frames ens
    \<and> pmm_counts (fold carve_reserved ens p)
    \<and> g_usable (fold carve_reserved ens p) = g_usable p"
  using assms
  by (induction ens arbitrary: p)
    (auto simp: carve_reserved_def carved_frames_def free_frames_reserve_range
      pmm_counts_reserve_range)

lemma range_frames_low: "range_frames 0 0x100000 = {..<256}"
  by (auto simp: range_frames_def)

lemma range_frames_fixed:
  "range_frames 0x70000 0x4000 \<subseteq> {..<256}" "range_frames 0x5000 0x620 \<subseteq> {..<256}"
  "range_frames 0x8C000 0x4000 \<subseteq> {..<256}" "range_frames 0xB8000 0x1000 \<subseteq> {..<256}"
  by (auto simp: range_frames_def)

lemma pmm_init_spec:
  defines "usable \<equiv> \<lambda>count entries. \<Union>en\<in>set (e820_map count entries). usable_frames en"
  shows "free_frames (pmm_init ks ke count entries p) =
      usable count entries - carved_frames (e820_map count entries) - {..<256} - range_frames ks (ke - ks)
    \<and> pmm_counts (pmm_init ks ke count entries p)
    \<and> unat (g_usable (pmm_init ks ke count entries p)) = card (usable count entries)"
proof -
  define p1 where "p1 = fold mark_usable (e820_map count entries) (reserve_all p)"
  define p2 where "p2 = fold carve_reserved (e820_map count entries) p1"
  have p1: "free_frames p1 = usable count entries" "marking p1"
    using fold_mark_usable [of "reserve_all p" "e820_map count entries"] reserve_all_spec [of p]
    by (simp_all add: p1_def usable_def)
  then have p2: "free_frames p2 = usable count entries - carved_frames (e820_map count entries)"
      "pmm_counts p2" "unat (g_usable p2) = card (usable count entries)"
    using fold_carve_reserved [of p1 "e820_map count entries"] by (auto simp: p2_def marking_def)
  have "pmm_init ks ke count entries p =
      reserve_range 0xB8000 0x1000 (reserve_range 0x8C000 0x4000 (reserve_range 0x5000 0x620
        (reserve_range 0x70000 0x4000 (reserve_range ks (ke - ks) (reserve_range 0 0x100000 p2)))))"
    by (simp add: pmm_init_def Let_def for_entries_fold p1_def p2_def)
  then show ?thesis
    using p2 range_frames_fixed
    by (auto simp: free_frames_reserve_range pmm_counts_reserve_range range_frames_low)
qed

subsection \<open>Allocation and release\<close>

lemma pmm_alloc_scan_found:
  assumes "unat frame \<le> f" and "f \<in> free_frames p" and "\<And>g. g \<in> free_frames p \<Longrightarrow> f \<le> g"
  shows "pmm_alloc_scan frame p =
    (frame_addr f, (pmm_set_bit (of_nat f) p)\<lparr>g_free := g_free p - 1\<rparr>)"
  using assms
proof (induction frame p rule: pmm_alloc_scan.induct)
  case (1 frame p)
  have lt: "unat frame < 262144" using 1(2,3) free_frames_bound [of f p] by simp
  show ?case
  proof (cases "unat frame = f")
    case True
    then have "frame = of_nat f" by auto
    with True 1(3) lt show ?thesis
      by (subst pmm_alloc_scan.simps) (simp add: pmm_consts word_less_nat_alt test_bit_free frame_addr_def)
  next
    case False
    then have "unat frame \<notin> free_frames p" using 1(2,4) by fastforce
    then have set: "pmm_test_bit frame p" using test_bit_free [OF lt] by blast
    moreover have "frame < PMM_MAX_FRAMES" using lt by (simp add: pmm_consts word_less_nat_alt)
    moreover from this have "unat (frame + 1) \<le> f"
      using False 1(2) by (simp add: unat_suc_less)
    ultimately show ?thesis using 1 by (subst pmm_alloc_scan.simps) auto
  qed
qed

lemma pmm_alloc_scan_none:
  assumes "free_frames p = {}"
  shows "pmm_alloc_scan frame p = (0, p)"
  using assms
proof (induction frame p rule: pmm_alloc_scan.induct)
  case (1 frame p)
  then show ?case
    using test_bit_free [of frame p]
    by (subst pmm_alloc_scan.simps) (auto simp: pmm_consts word_less_nat_alt)
qed

lemma unat_of_frame: "f < 262144 \<Longrightarrow> unat (of_nat f :: u64) = f"
  by (simp add: unat_of_nat)

lemma unat_frame_addr: "f < 262144 \<Longrightarrow> unat (frame_addr f) = f * 4096"
  by (simp add: frame_addr_def unat_word_ariths unat_of_frame)

lemma frame_addr_nonzero: "f < 262144 \<Longrightarrow> 0 < f \<Longrightarrow> frame_addr f \<noteq> 0"
  using unat_frame_addr [of f] by auto

lemma frame_addr_div: "f < 262144 \<Longrightarrow> frame_addr f div 4096 = of_nat f"
  by (rule unsigned_word_eqI [where 'a = nat]) (simp add: unat_frame_addr unat_of_frame)

lemma frame_addr_mod: "f < 262144 \<Longrightarrow> frame_addr f mod 4096 = 0"
  by (rule unsigned_word_eqI [where 'a = nat]) (simp add: unat_frame_addr unat_mod_distrib)

lemma frame_addr_in_window: "f < 262144 \<Longrightarrow> \<not> PMM_MAX_BYTES \<le> frame_addr f"
  by (simp add: PMM_MAX_BYTES_def word_le_nat_alt unat_frame_addr)

lemma pmm_alloc_frame_eq:
  "pmm_alloc_frame p =
     (if free_frames p = {} then (0, p)
      else (frame_addr (Min (free_frames p)),
        (pmm_set_bit (of_nat (Min (free_frames p))) p)\<lparr>g_free := g_free p - 1\<rparr>))"
  by (simp add: pmm_alloc_frame_def pmm_alloc_scan_none pmm_alloc_scan_found)

lemma pmm_alloc_frame_some:
  assumes "pmm_counts p" and "free_frames p \<noteq> {}"
  shows "\<exists>q. pmm_alloc_frame p = (frame_addr (Min (free_frames p)), q)
    \<and> free_frames q = free_frames p - {Min (free_frames p)} \<and> pmm_counts q"
proof -
  have m: "Min (free_frames p) \<in> free_frames p" using assms(2) by simp
  note fr = unat_of_frame [OF free_frames_bound [OF m]]
  show ?thesis
    using assms m pmm_counts_take [of p "of_nat (Min (free_frames p))"] fr
    by (simp add: pmm_alloc_frame_eq)
qed

lemma pmm_free_frame_eq:
  assumes "f < 262144"
  shows "pmm_free_frame (frame_addr f) p =
    (if f \<in> free_frames p then p
     else (pmm_clear_bit (of_nat f) p)\<lparr>g_free := g_free p + 1\<rparr>)"
  using assms test_bit_free [of "of_nat f" p]
  by (auto simp: pmm_free_frame_def PMM_FRAME_SIZE_def frame_addr_mod frame_addr_in_window
      frame_addr_div unat_of_frame)

lemma pmm_free_frame_some:
  assumes "pmm_counts p" and "f < 262144"
  shows "free_frames (pmm_free_frame (frame_addr f) p) = insert f (free_frames p)
    \<and> pmm_counts (pmm_free_frame (frame_addr f) p)"
  using assms pmm_counts_give [of p "of_nat f"]
  by (auto simp: pmm_free_frame_eq unat_of_frame)

section \<open>The contract of a frame allocator\<close>

text \<open>
  What a client of the PMM relies on: frames are numbered, frame 0 is never free, allocation
  takes the lowest free frame or reports 0, and releasing a frame other than frame 0 makes it
  free again.
\<close>

text \<open>
  The ownership protocol of a client: \<open>held\<close> are the frames it has been given and not
  returned.  It may allocate at any time, and returns only frames it holds.
\<close>

inductive owner_step ::
  "('p \<Rightarrow> u64 \<times> 'p) \<Rightarrow> (u64 \<Rightarrow> 'p \<Rightarrow> 'p) \<Rightarrow> nat set \<times> 'p \<Rightarrow> nat set \<times> 'p \<Rightarrow> bool"
  for alloc release where
  take_frame: "alloc p = (a, q) \<Longrightarrow> a \<noteq> 0 \<Longrightarrow>
    owner_step alloc release (held, p) (insert (unat a div 4096) held, q)"
| out_of_memory: "alloc p = (0, q) \<Longrightarrow> owner_step alloc release (held, p) (held, q)"
| give_frame: "f \<in> held \<Longrightarrow>
    owner_step alloc release (held, p) (held - {f}, release (frame_addr f) p)"

inductive_cases owner_stepE [elim!]: "owner_step alloc release (held, p) (held', q)"

locale frame_allocator =
  fixes alloc :: "'p \<Rightarrow> u64 \<times> 'p"
    and release :: "u64 \<Rightarrow> 'p \<Rightarrow> 'p"
    and free_set :: "'p \<Rightarrow> nat set"
    and invar :: "'p \<Rightarrow> bool"
  assumes finite_free: "invar p \<Longrightarrow> finite (free_set p)"
    and free_bounds: "invar p \<Longrightarrow> f \<in> free_set p \<Longrightarrow> 0 < f \<and> f < 262144"
    and alloc_oom: "invar p \<Longrightarrow> free_set p = {} \<Longrightarrow> alloc p = (0, p)"
    and alloc_lowest: "invar p \<Longrightarrow> free_set p \<noteq> {} \<Longrightarrow>
      \<exists>q. alloc p = (frame_addr (Min (free_set p)), q)
        \<and> free_set q = free_set p - {Min (free_set p)} \<and> invar q"
    and release_adds: "invar p \<Longrightarrow> 0 < f \<Longrightarrow> f < 262144 \<Longrightarrow>
      free_set (release (frame_addr f) p) = insert f (free_set p)
        \<and> invar (release (frame_addr f) p)"
begin

text \<open>A nonzero result is the address of a frame that was free and no longer is.\<close>

lemma alloc_result:
  assumes "invar p" and "alloc p = (a, q)" and "a \<noteq> 0"
  obtains f where "a = frame_addr f" "f \<in> free_set p" "f < 262144"
    "free_set q = free_set p - {f}" "invar q"
proof -
  have ne: "free_set p \<noteq> {}" using assms alloc_oom by fastforce
  with assms(1) have m: "Min (free_set p) \<in> free_set p" by (simp add: finite_free)
  from alloc_lowest [OF assms(1) ne] assms(2) have
    "a = frame_addr (Min (free_set p))" "free_set q = free_set p - {Min (free_set p)}" "invar q"
    by auto
  with m free_bounds [OF assms(1) m] that show thesis by blast
qed

lemma alloc_zero:
  assumes "invar p" and "alloc p = (0, q)"
  shows "free_set p = {} \<and> q = p"
proof (cases "free_set p = {}")
  case True
  with assms alloc_oom show ?thesis by fastforce
next
  case False
  with assms(1) have "Min (free_set p) \<in> free_set p" by (simp add: finite_free)
  from free_bounds [OF assms(1) this] have "frame_addr (Min (free_set p)) \<noteq> 0"
    by (auto simp: frame_addr_nonzero)
  with alloc_lowest [OF assms(1) False] assms(2) show ?thesis by auto
qed

text \<open>
  Between client and allocator no frame is lost and none is shared: the held frames and the
  free frames are disjoint and together always make up the same set.
\<close>

lemma owner_step_keeps:
  assumes "owner_step alloc release (held, p) (held', q)"
    and "invar p" "held \<inter> free_set p = {}" "\<forall>f\<in>held. 0 < f \<and> f < 262144"
  shows "invar q \<and> held' \<inter> free_set q = {} \<and> (\<forall>f\<in>held'. 0 < f \<and> f < 262144)
    \<and> held' \<union> free_set q = held \<union> free_set p"
  using assms(1)
proof (rule owner_stepE)
  fix a
  assume a: "alloc p = (a, q)" "a \<noteq> 0" "held' = insert (unat a div 4096) held"
  obtain f where f: "a = frame_addr f" "f \<in> free_set p" "f < 262144"
    "free_set q = free_set p - {f}" "invar q"
    using alloc_result [OF assms(2) a(1,2)] by metis
  then have "unat a div 4096 = f" by (simp add: unat_frame_addr)
  with a(3) f assms(3,4) free_bounds [OF assms(2) f(2)] show ?thesis by auto
next
  assume "held' = held" "alloc p = (0, q)"
  with alloc_zero [OF assms(2)] assms show ?thesis by blast
next
  fix f
  assume f: "held' = held - {f}" "q = release (frame_addr f) p" "f \<in> held"
  with assms(4) have "0 < f" "f < 262144" by auto
  from release_adds [OF assms(2) this] f assms(3,4) show ?thesis by auto
qed

lemma owner_run_keeps:
  assumes "(owner_step alloc release)\<^sup>*\<^sup>* s t"
    and "invar (snd s)" "fst s \<inter> free_set (snd s) = {}" "\<forall>f\<in>fst s. 0 < f \<and> f < 262144"
  shows "invar (snd t) \<and> fst t \<inter> free_set (snd t) = {} \<and> (\<forall>f\<in>fst t. 0 < f \<and> f < 262144)
    \<and> fst t \<union> free_set (snd t) = fst s \<union> free_set (snd s)"
  using assms
proof (induction rule: rtranclp_induct)
  case base
  then show ?case by simp
next
  case (step t u)
  then show ?case
    using owner_step_keeps [of "fst t" "snd t" "fst u" "snd u"] by simp
qed

end

interpretation frames: frame_allocator pmm_alloc_frame pmm_free_frame free_frames pmm_inv
proof unfold_locales
  fix p f
  assume inv: "pmm_inv p"
  show "finite (free_frames p)" by simp
  show "f \<in> free_frames p \<Longrightarrow> 0 < f \<and> f < 262144"
    using inv by (auto simp: pmm_inv_def dest: free_frames_bound intro: gr0I)
  show "free_frames p = {} \<Longrightarrow> pmm_alloc_frame p = (0, p)"
    by (simp add: pmm_alloc_frame_eq)
  show "\<exists>q. pmm_alloc_frame p = (frame_addr (Min (free_frames p)), q)
      \<and> free_frames q = free_frames p - {Min (free_frames p)} \<and> pmm_inv q"
    if "free_frames p \<noteq> {}"
    using pmm_alloc_frame_some [OF _ that] inv by (auto simp: pmm_inv_def)
  show "free_frames (pmm_free_frame (frame_addr f) p) = insert f (free_frames p)
      \<and> pmm_inv (pmm_free_frame (frame_addr f) p)" if "0 < f" "f < 262144"
    using pmm_free_frame_some [OF _ that(2), of p] inv that by (auto simp: pmm_inv_def)
qed

section \<open>In-bounds accesses to the bitmap\<close>

text \<open>Every index the code computes is below \<open>sizeof(bitmap)\<close> = 32768.\<close>

lemma bitmap_set_clear_outside [frame_ops]:
  "unat frame < 262144 \<Longrightarrow> 32768 \<le> j \<Longrightarrow> bitmap (pmm_set_bit frame p) j = bitmap p j"
  "unat frame < 262144 \<Longrightarrow> 32768 \<le> j \<Longrightarrow> bitmap (pmm_clear_bit frame p) j = bitmap p j"
  by (auto simp: pmm_set_bit_def pmm_clear_bit_def)

lemma for_frames_outside:
  fixes body :: "u64 \<Rightarrow> pmm \<Rightarrow> pmm"
  assumes "unat hi \<le> 262144"
    and "\<And>frame q. unat frame < 262144 \<Longrightarrow> bitmap (body frame q) j = bitmap q j"
  shows "bitmap (for_range (lo :: u64) hi body p) j = bitmap p j"
proof (cases "lo \<le> hi")
  case True
  show ?thesis
  proof (rule for_range_invariant [where P = "\<lambda>k q. bitmap q j = bitmap p j", OF _ True])
    fix k :: nat and q :: pmm
    assume k: "k < unat hi" and q: "bitmap q j = bitmap p j"
    have "unat (of_nat k :: u64) < 262144" using k assms(1) by (simp add: unat_of_nat_less [OF k])
    with q show "bitmap (body (of_nat k) q) j = bitmap p j" by (simp add: assms(2))
  qed simp
next
  case False
  then show ?thesis by simp
qed

lemma clipped_end_frames: "unat (clipped_end base len div 4096) \<le> 262144"
  using div_le_mono [where m = "unat (clipped_end base len)" and n = "0x40000000" and k = "4096"]
  by (simp add: unat_clipped_end)

lemma bitmap_reserve_range [frame_ops]:
  "32768 \<le> j \<Longrightarrow> bitmap (reserve_range base len p) j = bitmap p j"
  by (auto simp: reserve_range_unfold reserve_frame_def frame_ops
      intro!: for_frames_outside clipped_end_frames simp del: unat_div_frame)

lemma bitmap_mark_usable [frame_ops]:
  "32768 \<le> j \<Longrightarrow> bitmap (mark_usable en p) j = bitmap p j"
  by (auto simp: mark_usable_unfold release_frame_def frame_ops
      intro!: for_frames_outside clipped_end_frames simp del: unat_div_frame)

lemma bitmap_reserve_all [frame_ops]:
  "32768 \<le> j \<Longrightarrow> bitmap (reserve_all p) j = bitmap p j"
proof -
  assume j: "32768 \<le> j"
  have b: "unat bitmap_bytes = 32768" by (simp add: bitmap_bytes_def PMM_MAX_FRAMES_value)
  have "for_range 0 bitmap_bytes (\<lambda>i b. b(unat i := 0xFF)) (bitmap p) j = bitmap p j"
    by (rule for_range_invariant [where P = "\<lambda>k c. c j = bitmap p j"])
      (use j in \<open>simp_all add: unat_of_frame b\<close>)
  then show ?thesis by (simp add: reserve_all_def)
qed

lemma bitmap_fold_outside:
  "(\<And>en q. bitmap (body en q) j = bitmap q j) \<Longrightarrow> bitmap (fold body ens p) j = bitmap p j"
  by (induction ens arbitrary: p) simp_all

lemma bitmap_pmm_init [frame_ops]:
  "32768 \<le> j \<Longrightarrow> bitmap (pmm_init ks ke count entries p) j = bitmap p j"
  by (simp add: pmm_init_def Let_def for_entries_fold bitmap_fold_outside carve_reserved_def frame_ops)

lemma bitmap_pmm_alloc_frame [frame_ops]:
  "32768 \<le> j \<Longrightarrow> bitmap (snd (pmm_alloc_frame p)) j = bitmap p j"
  using free_frames_bound [of "Min (free_frames p)" p]
  by (simp add: pmm_alloc_frame_eq frame_ops unat_of_frame)

lemma bitmap_pmm_free_frame [frame_ops]:
  "32768 \<le> j \<Longrightarrow> bitmap (pmm_free_frame addr p) j = bitmap p j"
  by (auto simp: pmm_free_frame_def Let_def pmm_consts word_le_nat_alt
      intro!: bitmap_set_clear_outside)

section \<open>Properties\<close>

text \<open>
  C1: after \<open>pmm_init\<close> the free frames are exactly the frames that lie wholly inside some
  usable entry of the (clamped) memory map, less the frames of its non-usable entries, less the
  low 1MB, less the kernel image.  Nothing else is ever free, whatever the firmware lists, in
  whatever order, and whatever the bitmap held before.
\<close>

theorem pmm_init_free_frames:
  "free_frames (pmm_init ks ke count entries p) =
     (\<Union>en\<in>set (e820_map count entries). usable_frames en)
       - carved_frames (e820_map count entries) - {..<256} - range_frames ks (ke - ks)"
  using pmm_init_spec [of ks ke count entries p] by blast

text \<open>
  C31: \<open>pmm_init\<close> establishes the allocator's invariant: the free counter is the number of
  free frames, frame 0 is not free, the usable counter is the number of frames the map makes
  usable, and the free counter does not exceed it (so the reserved count \<open>kmain\<close> prints,
  \<open>usable - free\<close>, does not wrap).
\<close>

theorem pmm_init_establishes_inv:
  "pmm_inv (pmm_init ks ke count entries p)
   \<and> unat (pmm_free_count (pmm_init ks ke count entries p))
       = card (free_frames (pmm_init ks ke count entries p))
   \<and> unat (pmm_usable_count (pmm_init ks ke count entries p))
       = card (\<Union>en\<in>set (e820_map count entries). usable_frames en)
   \<and> pmm_free_count (pmm_init ks ke count entries p)
       \<le> pmm_usable_count (pmm_init ks ke count entries p)"
proof -
  let ?U = "\<Union>en\<in>set (e820_map count entries). usable_frames en"
  have "finite ?U" by (auto simp: usable_frames_def)
  then have "card (free_frames (pmm_init ks ke count entries p)) \<le> card ?U"
    using pmm_init_spec [of ks ke count entries p] by (intro card_mono) auto
  with pmm_init_spec [of ks ke count entries p] show ?thesis
    by (auto simp: pmm_inv_def pmm_counts_def pmm_free_count_def pmm_usable_count_def
        word_le_nat_alt)
qed

text \<open>
  C2: the ownership guarantee.  Start from \<open>pmm_init\<close> and let a client allocate at will and
  return frames it holds: at every point the held frames are disjoint from the free ones (no frame
  is handed out twice), held and free frames together are the initially free ones (none is lost and
  none outside the map is ever handed out), frame 0 is never handed out, and the free counter is
  exact.
\<close>

theorem pmm_ownership:
  assumes "(owner_step pmm_alloc_frame pmm_free_frame)\<^sup>*\<^sup>*
    ({}, pmm_init ks ke count entries p0) (held, p)"
  shows "held \<inter> free_frames p = {}
    \<and> held \<union> free_frames p = free_frames (pmm_init ks ke count entries p0)
    \<and> 0 \<notin> held
    \<and> unat (pmm_free_count p) = card (free_frames p)"
proof -
  have "pmm_inv (pmm_init ks ke count entries p0)"
    using pmm_init_spec [of ks ke count entries p0] by (simp add: pmm_inv_def)
  with frames.owner_run_keeps [OF assms] show ?thesis
    by (auto simp: pmm_inv_def pmm_counts_def pmm_free_count_def)
qed

text \<open>A machine with 8KB of usable memory at 1MB, for the witnesses.\<close>

definition sample_map :: "e820_entry carray" where
  "sample_map = (\<lambda>_. \<lparr>e_base = 0x100000, e_length = 0x2000, e_type = 1, e_acpi_attr = 0\<rparr>)"

definition blank_pmm :: pmm where
  "blank_pmm = \<lparr>bitmap = (\<lambda>_. 0), g_usable = 0, g_free = 0\<rparr>"

definition sample_pmm :: pmm where
  "sample_pmm = pmm_init 0x10000 0x20000 1 (Some sample_map) blank_pmm"

lemma sample_pmm_free: "free_frames sample_pmm = {256, 257}"
proof -
  have "usable_frames (sample_map 0) = {256, 257}"
    by (auto simp: usable_frames_def sample_map_def E820_USABLE_def)
  moreover have "range_frames 0x10000 0x10000 \<subseteq> {..<256}" by (auto simp: range_frames_def)
  ultimately show ?thesis
    using pmm_init_spec [of "0x10000" "0x20000" 1 "Some sample_map" blank_pmm]
    by (auto simp: sample_pmm_def e820_map_def carved_frames_def sample_map_def E820_USABLE_def)
qed

lemma sample_pmm_inv: "pmm_inv sample_pmm"
  using pmm_init_spec [of "0x10000" "0x20000" 1 "Some sample_map" blank_pmm]
  by (simp add: pmm_inv_def sample_pmm_def)

theorem pmm_ownership_witness:
  "\<exists>q. pmm_alloc_frame sample_pmm = (0x100000, q) \<and> {256} \<inter> free_frames q = {}
     \<and> {256} \<union> free_frames q = free_frames sample_pmm \<and> unat (pmm_free_count q) = card (free_frames q)"
proof -
  obtain q where q: "pmm_alloc_frame sample_pmm = (0x100000, q)"
    using pmm_alloc_frame_some [of sample_pmm] sample_pmm_inv
    by (auto simp: sample_pmm_free pmm_inv_def frame_addr_def)
  then have "owner_step pmm_alloc_frame pmm_free_frame ({}, sample_pmm) ({256}, q)"
    using owner_step.take_frame [of pmm_alloc_frame sample_pmm _ q pmm_free_frame "{}"] by fastforce
  then have "(owner_step pmm_alloc_frame pmm_free_frame)\<^sup>*\<^sup>* ({}, sample_pmm) ({256}, q)"
    by (rule r_into_rtranclp)
  from pmm_ownership [OF this [unfolded sample_pmm_def]] q show ?thesis
    by (auto simp: sample_pmm_def)
qed

text \<open>
  C30: \<open>pmm_alloc_frame\<close> refines "take the least element of the free set": with no free frame it
  returns 0 and changes nothing, otherwise it returns the (nonzero, page-aligned, in-window) address
  of the lowest free frame, removes exactly that frame, decrements the free counter and keeps the
  invariant.
\<close>

theorem pmm_alloc_refines_min:
  assumes "pmm_inv p" and "pmm_alloc_frame p = (a, q)"
  shows "if free_frames p = {} then a = 0 \<and> q = p
    else a = frame_addr (Min (free_frames p)) \<and> a \<noteq> 0 \<and> unat a mod 4096 = 0 \<and> unat a < 0x40000000
      \<and> free_frames q = free_frames p - {Min (free_frames p)}
      \<and> pmm_free_count q = pmm_free_count p - 1 \<and> pmm_inv q"
proof (cases "free_frames p = {}")
  case True
  with assms show ?thesis by (simp add: pmm_alloc_frame_eq)
next
  case False
  then have m: "Min (free_frames p) \<in> free_frames p" by simp
  note bounds = frames.free_bounds [OF assms(1) m]
  from False assms(2) have "g_free q = g_free p - 1" by (auto simp: pmm_alloc_frame_eq)
  moreover from frames.alloc_lowest [OF assms(1) False] assms(2)
  have "a = frame_addr (Min (free_frames p))" "pmm_inv q"
    "free_frames q = free_frames p - {Min (free_frames p)}" by auto
  ultimately show ?thesis
    using False bounds by (simp add: frame_addr_nonzero unat_frame_addr pmm_free_count_def)
qed

theorem pmm_alloc_refines_min_witness:
  "pmm_inv sample_pmm \<and> (\<exists>q. pmm_alloc_frame sample_pmm = (0x100000, q) \<and> free_frames q = {257})"
proof -
  obtain a q where q: "pmm_alloc_frame sample_pmm = (a, q)" by fastforce
  with pmm_alloc_refines_min [OF sample_pmm_inv q] sample_pmm_inv show ?thesis
    by (auto simp: sample_pmm_free frame_addr_def)
qed

text \<open>
  A frame that was just allocated and is given back leaves the allocator exactly as it was,
  bitmap and counters included.
\<close>

theorem pmm_alloc_free_roundtrip:
  assumes "pmm_inv p" and "pmm_alloc_frame p = (a, q)" and "a \<noteq> 0"
  shows "pmm_free_frame a q = p"
proof -
  have ne: "free_frames p \<noteq> {}" using assms by (auto simp: pmm_alloc_frame_eq)
  define m where "m = Min (free_frames p)"
  have m: "m \<in> free_frames p" using ne by (simp add: m_def)
  note lt = free_frames_bound [OF m]
  have a: "a = frame_addr m" and q: "q = (pmm_set_bit (of_nat m) p)\<lparr>g_free := g_free p - 1\<rparr>"
    using assms(2) ne by (simp_all add: pmm_alloc_frame_eq m_def)
  have "m \<notin> free_frames q" using lt by (simp add: q unat_of_frame)
  then have "pmm_free_frame a q = (pmm_clear_bit (of_nat m) q)\<lparr>g_free := g_free q + 1\<rparr>"
    using pmm_free_frame_eq [OF lt, of q] by (simp add: a)
  moreover have "bitmap (pmm_clear_bit (of_nat m) q) = bitmap p"
  proof -
    have clear: "\<not> bit (bitmap p (m div 8)) (m mod 8)"
      using m by (simp add: free_frames_def frame_free_def)
    have "(bitmap p (m div 8) OR ucast (2 ^ (m mod 8) :: u32))
        AND ucast (NOT (2 ^ (m mod 8)) :: u32) = bitmap p (m div 8)"
      using clear by (auto simp: word_bit_eq_iff bit_and_iff bit_or_iff)
    then show ?thesis using lt by (auto simp: q pmm_clear_bit_def pmm_set_bit_def unat_of_frame)
  qed
  ultimately show ?thesis by (simp add: q pmm_clear_bit_def pmm_set_bit_def)
qed

theorem pmm_alloc_free_roundtrip_witness:
  "\<exists>q. pmm_alloc_frame sample_pmm = (0x100000, q) \<and> pmm_free_frame 0x100000 q = sample_pmm"
proof -
  obtain q where q: "pmm_alloc_frame sample_pmm = (0x100000, q)"
    using pmm_alloc_frame_some [of sample_pmm] sample_pmm_inv
    by (auto simp: sample_pmm_free pmm_inv_def frame_addr_def)
  with pmm_alloc_free_roundtrip [OF sample_pmm_inv q] show ?thesis by simp
qed

text \<open>
  \<open>pmm_free_frame\<close> silently ignores an address that is not page-aligned, lies outside the
  1GB window, or names a frame that is already free.
\<close>

theorem pmm_free_ignores_bad_addresses:
  assumes "unat addr mod 4096 \<noteq> 0 \<or> 0x40000000 \<le> unat addr
    \<or> unat addr div 4096 \<in> free_frames p"
  shows "pmm_free_frame addr p = p"
proof -
  have "addr mod 4096 \<noteq> 0 \<longleftrightarrow> unat addr mod 4096 \<noteq> 0"
    by (simp add: word_eq_iff_unsigned [where 'a = nat] unat_mod_distrib)
  moreover have "pmm_test_bit (addr div 4096) p \<longleftrightarrow> unat addr div 4096 \<notin> free_frames p"
    if "unat addr < 0x40000000"
    using test_bit_free [of "addr div 4096" p] less_mult_imp_div_less [of "unat addr" 262144 4096] that
    by auto
  ultimately show ?thesis
    using assms by (auto simp: pmm_free_frame_def pmm_consts word_le_nat_alt Let_def)
qed

theorem pmm_free_ignores_bad_addresses_witness:
  "pmm_free_frame 0x100001 sample_pmm = sample_pmm
   \<and> pmm_free_frame 0x40000000 sample_pmm = sample_pmm
   \<and> pmm_free_frame 0x100000 sample_pmm = sample_pmm"
  using pmm_free_ignores_bad_addresses [of "0x100001" sample_pmm]
    pmm_free_ignores_bad_addresses [of "0x40000000" sample_pmm]
    pmm_free_ignores_bad_addresses [of "0x100000" sample_pmm]
  by (simp add: sample_pmm_free)

text \<open>
  No operation writes the bitmap out of bounds: cells from index 32768 on,
  past the end of the array, are the same before and after.
\<close>

theorem pmm_bitmap_in_bounds:
  assumes "32768 \<le> j"
  shows "bitmap (pmm_init ks ke count entries p) j = bitmap p j
    \<and> bitmap (snd (pmm_alloc_frame p)) j = bitmap p j
    \<and> bitmap (pmm_free_frame addr p) j = bitmap p j"
  using assms by (simp add: frame_ops)

theorem pmm_bitmap_in_bounds_witness:
  "bitmap (pmm_init 0x10000 0x20000 1 (Some sample_map) blank_pmm) 32768 = 0"
  using pmm_bitmap_in_bounds [of 32768 "0x10000" "0x20000" 1 "Some sample_map" blank_pmm]
  by (simp add: blank_pmm_def)

text \<open>
  \<open>reserve_range\<close> is documented to reserve every frame of \<open>[base, base+len)\<close>, but it
  rounds the end address down: a frame whose last byte lies beyond the range stays free, even when
  the range reaches into it.
\<close>

theorem reserve_range_leaves_tail_frame:
  assumes "pmm_counts p" and "f \<in> free_frames p"
    and "f * 4096 < unat base + unat len" and "unat base + unat len < (f + 1) * 4096"
  shows "f \<in> free_frames (reserve_range base len p)"
  using assms by (simp add: free_frames_reserve_range range_frames_def less_div_frame)

theorem reserve_range_leaves_tail_frame_witness:
  "257 \<in> free_frames (reserve_range 0x100000 0x1800 sample_pmm)
   \<and> 256 \<notin> free_frames (reserve_range 0x100000 0x1800 sample_pmm)"
proof -
  have c: "pmm_counts sample_pmm" using sample_pmm_inv by (simp add: pmm_inv_def)
  show ?thesis
    using reserve_range_leaves_tail_frame [OF c, of 257 "0x100000" "0x1800"]
      free_frames_reserve_range [OF c, of "0x100000" "0x1800"]
    by (simp add: sample_pmm_free range_frames_def)
qed

text \<open>
  C36: the claim "frame 0 is always reserved: 0 unambiguously means out of memory" depends on the
  caller: \<open>pmm_free_frame\<close> accepts address 0, and the next \<open>pmm_alloc_frame\<close> then hands
  frame 0 out, returning 0 although memory is available.
\<close>

theorem pmm_free_of_zero_breaks_oom:
  "0 \<in> free_frames (pmm_free_frame 0 p)
   \<and> fst (pmm_alloc_frame (pmm_free_frame 0 p)) = 0
   \<and> 0 \<notin> free_frames (snd (pmm_alloc_frame (pmm_free_frame 0 p)))"
proof -
  have "frame_addr 0 = 0" by (simp add: frame_addr_def)
  then have z: "0 \<in> free_frames (pmm_free_frame 0 p)"
    using pmm_free_frame_eq [of 0 p] by (auto split: if_splits)
  then have "Min (free_frames (pmm_free_frame 0 p)) = 0"
    using Min_le [OF finite_free_frames z] by simp
  with z show ?thesis by (auto simp: pmm_alloc_frame_eq frame_addr_def)
qed

end
