(* ===== verification/Phys_Memory.thy ===== *)
theory Phys_Memory
  imports Nadir_Prelude
begin

unbundle bit_operations_syntax

text \<open>
  Physical memory as the kernel sees it: bytes at 64-bit addresses, little-endian 64-bit
  loads and stores, and the identity map of the first 1GB that \<^verbatim>\<open>entry.asm\<close> builds.  An
  access outside the map is a fault, the value \<open>Inl\<close> of the sum type; \<open>bindE\<close>
  sequences accesses and stops at the first fault.
\<close>

section \<open>Bytes and 64-bit cells\<close>

type_synonym memory = "u64 \<Rightarrow> u8"

definition get64 :: "memory \<Rightarrow> u64 \<Rightarrow> u64" where
  "get64 m a = foldr (\<lambda>i acc. acc OR push_bit (8 * i) (ucast (m (a + of_nat i)))) [0..<8] 0"

definition put64 :: "u64 \<Rightarrow> u64 \<Rightarrow> memory \<Rightarrow> memory" where
  "put64 a v m = (\<lambda>x. if unat a \<le> unat x \<and> unat x < unat a + 8
     then ucast (drop_bit (8 * (unat x - unat a)) v) else m x)"

section \<open>The identity map and its faults\<close>

text \<open>
  An access outside the map is vector 14; a non-canonical address (bits 47 to 63 not all
  equal) never reaches the page walk and is vector 13.
\<close>

datatype fault = Page_fault u64 | General_protection u64

definition access_fault :: "u64 \<Rightarrow> fault" where
  "access_fault a = (if unat a < 2 ^ 47 \<or> 2 ^ 64 - 2 ^ 47 \<le> unat a
     then Page_fault a else General_protection a)"

text \<open>The 512 two-megabyte pages of the page directory map \<open>[0, 1GB)\<close>.\<close>

definition mapped :: "u64 \<Rightarrow> nat \<Rightarrow> bool" where
  "mapped a n \<longleftrightarrow> unat a + n \<le> 512 * 0x200000"

text \<open>
  An access of several bytes reports the first one outside the map: the address right behind the map
  when the access runs over its end.
\<close>

definition wide_fault :: "u64 \<Rightarrow> fault" where
  "wide_fault a = (if mapped a 1 then Page_fault (512 * 0x200000) else access_fault a)"

definition load64 :: "memory \<Rightarrow> u64 \<Rightarrow> fault + u64" where
  "load64 m a = (if mapped a 8 then Inr (get64 m a) else Inl (wide_fault a))"

definition store64 :: "u64 \<Rightarrow> u64 \<Rightarrow> memory \<Rightarrow> fault + memory" where
  "store64 a v m = (if mapped a 8 then Inr (put64 a v m) else Inl (wide_fault a))"

definition load8 :: "memory \<Rightarrow> u64 \<Rightarrow> fault + u8" where
  "load8 m a = (if mapped a 1 then Inr (m a) else Inl (access_fault a))"

definition store8 :: "u64 \<Rightarrow> u8 \<Rightarrow> memory \<Rightarrow> fault + memory" where
  "store8 a v m = (if mapped a 1 then Inr (m(a := v)) else Inl (access_fault a))"

definition bindE :: "'e + 'a \<Rightarrow> ('a \<Rightarrow> 'e + 'b) \<Rightarrow> 'e + 'b" where
  "bindE r f = (case r of Inl e \<Rightarrow> Inl e | Inr x \<Rightarrow> f x)"

lemma bindE_simps [simp]: "bindE (Inl e) f = Inl e" "bindE (Inr x) f = f x"
  by (simp_all add: bindE_def)

lemma bindE_Inr_iff: "bindE r f = Inr y \<longleftrightarrow> (\<exists>x. r = Inr x \<and> f x = Inr y)"
  by (cases r) simp_all

lemma bindE_Inl_iff: "bindE r f = Inl e \<longleftrightarrow> r = Inl e \<or> (\<exists>x. r = Inr x \<and> f x = Inl e)"
  by (cases r) auto

text \<open>
  What the definitions of loads and stores ask of the page walk: every address of the map translates to
  itself, every other one to its fault.  The laws are discharged for the tables that \<^verbatim>\<open>entry.asm\<close> builds
  in theory \<open>Entry\<close> (interpretation \<open>boot_paging\<close>).
\<close>

lemma unat_add_of_nat:
  "unat a + i < 2 ^ 64 \<Longrightarrow> unat (a + of_nat i :: u64) = unat a + i"
  by (simp add: unat_word_ariths unat_of_nat)

locale identity_paging =
  fixes walk :: "u64 \<Rightarrow> fault + u64"
  assumes walk_inside: "mapped a 1 \<Longrightarrow> walk a = Inr a"
    and walk_outside: "\<not> mapped a 1 \<Longrightarrow> walk a = Inl (access_fault a)"
begin

lemma walk_ok_iff: "walk a = Inr a \<longleftrightarrow> mapped a 1"
  using walk_inside walk_outside by fastforce

text \<open>An access of \<open>n\<close> bytes is inside the map exactly if the walk takes each of them to itself.\<close>

lemma access_ok_iff:
  assumes "0 < n"
  shows "list_all (\<lambda>i. walk (a + of_nat i) = Inr (a + of_nat i)) [0..<n] \<longleftrightarrow> mapped a n"
proof
  assume "list_all (\<lambda>i. walk (a + of_nat i) = Inr (a + of_nat i)) [0..<n]"
  then have m: "mapped (a + of_nat i) 1" if "i < n" for i using that by (simp add: list_all_iff walk_ok_iff)
  show "mapped a n"
  proof (rule ccontr)
    assume "\<not> mapped a n"
    then have "2 ^ 30 - unat a < n" using assms by (auto simp: mapped_def)
    moreover have "unat a < 2 ^ 30" using m [of 0] assms by (simp add: mapped_def)
    moreover from this have "unat (a + of_nat (2 ^ 30 - unat a)) = 2 ^ 30" by (subst unat_add_of_nat) simp_all
    ultimately show False using m [of "2 ^ 30 - unat a"] by (simp add: mapped_def)
  qed
next
  assume n: "mapped a n"
  have "mapped (a + of_nat i) 1" if "i < n" for i
    using n that unat_add_of_nat [of a i] by (simp add: mapped_def)
  then show "list_all (\<lambda>i. walk (a + of_nat i) = Inr (a + of_nat i)) [0..<n]" by (simp add: list_all_iff walk_ok_iff)
qed

end

section \<open>Loads after stores\<close>

lemma bit_foldr_or:
  "bit (foldr (\<lambda>i acc. acc OR g i) xs 0 :: u64) n \<longleftrightarrow> (\<exists>i\<in>set xs. bit (g i) n)"
  by (induction xs) (auto simp: bit_or_iff)

lemma bit_get64:
  "bit (get64 m a) n \<longleftrightarrow> n < 64 \<and> bit (m (a + of_nat (n div 8))) (n mod 8)"
proof
  assume "bit (get64 m a) n"
  then obtain i where i: "i < 8" "8 * i \<le> n" "n < 64" "bit (m (a + of_nat i)) (n - 8 * i)"
    by (auto simp: get64_def bit_foldr_or bit_simps)
  have "n - 8 * i < 8" using i(4) bit_imp_le_length by fastforce
  then have "n div 8 = i" "n mod 8 = n - 8 * i"
    using i(2) by (auto simp: modulo_nat_def div_nat_eqI)
  with i show "n < 64 \<and> bit (m (a + of_nat (n div 8))) (n mod 8)" by simp
next
  assume n: "n < 64 \<and> bit (m (a + of_nat (n div 8))) (n mod 8)"
  then have "n div 8 < 8" "8 * (n div 8) \<le> n" "n - 8 * (n div 8) = n mod 8"
    by (auto simp: modulo_nat_def)
  with n have "\<exists>i\<in>set [0..<8]. bit (push_bit (8 * i) (ucast (m (a + of_nat i))) :: u64) n"
    by (intro bexI [of _ "n div 8"]) (auto simp: bit_simps dest: bit_imp_le_length)
  then show "bit (get64 m a) n" unfolding get64_def bit_foldr_or .
qed

lemma get64_cong:
  "(\<And>i. i < 8 \<Longrightarrow> m (a + of_nat i) = m' (a + of_nat i)) \<Longrightarrow> get64 m a = get64 m' a"
  by (rule bit_word_eqI) (simp add: bit_get64)

lemma get64_put64_same:
  assumes "unat a + 8 \<le> 2 ^ 64"
  shows "get64 (put64 a v m) a = v"
proof (rule bit_word_eqI)
  fix n
  assume "n < LENGTH(64)"
  then have n: "n < 64" by simp
  have x: "unat (a + of_nat (n div 8)) = unat a + n div 8"
    using assms n by (intro unat_add_of_nat) linarith
  have "bit (v) (8 * (n div 8) + n mod 8) \<longleftrightarrow> bit v n" by (simp only: mult_div_mod_eq)
  moreover have "n div 8 < 8" using n by (simp add: less_mult_imp_div_less)
  ultimately show "bit (get64 (put64 a v m) a) n \<longleftrightarrow> bit v n" using n x
    by (simp add: bit_get64 put64_def bit_simps)
qed

lemma get64_put64_other:
  assumes "unat a + 8 \<le> 2 ^ 64" "unat b + 8 \<le> 2 ^ 64"
    and "unat a + 8 \<le> unat b \<or> unat b + 8 \<le> unat a"
  shows "get64 (put64 a v m) b = get64 m b"
proof (rule get64_cong)
  fix i :: nat
  assume i: "i < 8"
  have "unat (b + of_nat i) = unat b + i" using assms(2) i by (intro unat_add_of_nat) linarith
  with assms(3) i show "put64 a v m (b + of_nat i) = m (b + of_nat i)" by (auto simp: put64_def)
qed

lemma put64_outside: "\<not> (unat a \<le> unat x \<and> unat x < unat a + 8) \<Longrightarrow> put64 a v m x = m x"
  by (auto simp: put64_def)

end
