(* ===== verification/Heap_Client.thy ===== *)
theory Heap_Client
  imports Phys_Memory
begin

text \<open>
  What a client of the kernel heap relies on.  A block is the pointer and the size of a
  request; the contract \<open>heap_allocator\<close> says that on a well-formed heap an allocation
  always returns (a fresh block or NULL), that releasing a live block always succeeds, and that
  neither disturbs the bytes of the other live blocks.  From that alone the locale derives that
  every client that stays inside its blocks keeps the heap well formed, and that a block keeps its
  contents until its owner writes or releases it.
\<close>

type_synonym block = "u64 \<times> u64"

definition block_bytes :: "block \<Rightarrow> nat set" where
  "block_bytes b = {unat (fst b)..<unat (fst b) + unat (snd b)}"

definition agree_on :: "block list \<Rightarrow> memory \<Rightarrow> memory \<Rightarrow> bool" where
  "agree_on L m m' \<longleftrightarrow> (\<forall>b \<in> set L. \<forall>x. unat x \<in> block_bytes b \<longrightarrow> m' x = m x)"

datatype heap_event = Malloc u64 u64 | Free block | Write u64 u8

text \<open>
  One step of a client that frees only what it holds and writes only inside its blocks; the
  state is the heap and the list of live blocks.
\<close>

inductive heap_step ::
  "(u64 \<Rightarrow> 'h \<Rightarrow> (fault + u64 \<times> 'h) option) \<Rightarrow> (u64 \<Rightarrow> 'h \<Rightarrow> fault + 'h) \<Rightarrow> (u64 \<Rightarrow> u8 \<Rightarrow> 'h \<Rightarrow> 'h)
    \<Rightarrow> (u64 \<Rightarrow> bool) \<Rightarrow> 'h \<times> block list \<Rightarrow> heap_event \<Rightarrow> 'h \<times> block list \<Rightarrow> bool"
  for malloc release poke ok_size where
  got_block: "ok_size sz \<Longrightarrow> malloc sz h = Some (Inr (p, h')) \<Longrightarrow> p \<noteq> 0 \<Longrightarrow>
    heap_step malloc release poke ok_size (h, L) (Malloc sz p) (h', (p, sz) # L)"
| got_null: "ok_size sz \<Longrightarrow> malloc sz h = Some (Inr (0, h')) \<Longrightarrow>
    heap_step malloc release poke ok_size (h, L) (Malloc sz 0) (h', L)"
| released: "b \<in> set L \<Longrightarrow> release (fst b) h = Inr h' \<Longrightarrow>
    heap_step malloc release poke ok_size (h, L) (Free b) (h', remove1 b L)"
| written: "b \<in> set L \<Longrightarrow> unat x \<in> block_bytes b \<Longrightarrow>
    heap_step malloc release poke ok_size (h, L) (Write x v) (poke x v h, L)"

inductive_cases heap_step_mallocE: "heap_step malloc release poke ok_size s (Malloc sz p) t"
inductive_cases heap_step_freeE: "heap_step malloc release poke ok_size s (Free b) t"
inductive_cases heap_step_writeE: "heap_step malloc release poke ok_size s (Write x v) t"

inductive heap_run ::
  "(u64 \<Rightarrow> 'h \<Rightarrow> (fault + u64 \<times> 'h) option) \<Rightarrow> (u64 \<Rightarrow> 'h \<Rightarrow> fault + 'h) \<Rightarrow> (u64 \<Rightarrow> u8 \<Rightarrow> 'h \<Rightarrow> 'h)
    \<Rightarrow> (u64 \<Rightarrow> bool) \<Rightarrow> 'h \<times> block list \<Rightarrow> heap_event list \<Rightarrow> 'h \<times> block list \<Rightarrow> bool"
  for malloc release poke ok_size where
  run_nil: "heap_run malloc release poke ok_size s [] s"
| run_snoc: "heap_run malloc release poke ok_size s evs t \<Longrightarrow>
    heap_step malloc release poke ok_size t ev u \<Longrightarrow>
    heap_run malloc release poke ok_size s (evs @ [ev]) u"

text \<open>The events that leave a block alone.\<close>

fun spares :: "block \<Rightarrow> heap_event \<Rightarrow> bool" where
  "spares b (Malloc sz p) = True"
| "spares b (Free b') = (b' \<noteq> b)"
| "spares b (Write x v) = (unat x \<notin> block_bytes b)"

locale heap_allocator =
  fixes malloc :: "u64 \<Rightarrow> 'h \<Rightarrow> (fault + u64 \<times> 'h) option"
    and release :: "u64 \<Rightarrow> 'h \<Rightarrow> fault + 'h"
    and peek :: "'h \<Rightarrow> memory"
    and poke :: "u64 \<Rightarrow> u8 \<Rightarrow> 'h \<Rightarrow> 'h"
    and ok_size :: "u64 \<Rightarrow> bool"
    and invar :: "'h \<Rightarrow> block list \<Rightarrow> bool"
  assumes malloc_returns: "invar h L \<Longrightarrow> ok_size sz \<Longrightarrow>
      malloc sz h = Some (Inr (0, h)) \<or>
      (\<exists>p h'. malloc sz h = Some (Inr (p, h')) \<and> p \<noteq> 0 \<and> invar h' ((p, sz) # L)
         \<and> agree_on L (peek h) (peek h'))"
    and release_returns: "invar h L \<Longrightarrow> b \<in> set L \<Longrightarrow>
      \<exists>h'. release (fst b) h = Inr h' \<and> invar h' (remove1 b L)
         \<and> agree_on (remove1 b L) (peek h) (peek h')"
    and poke_keeps: "invar h L \<Longrightarrow> b \<in> set L \<Longrightarrow> unat x \<in> block_bytes b \<Longrightarrow> invar (poke x v h) L"
    and peek_poke: "peek (poke x v h) = (peek h)(x := v)"
    and blocks_distinct: "invar h L \<Longrightarrow> distinct L"
    and blocks_apart: "invar h L \<Longrightarrow> b \<in> set L \<Longrightarrow> b' \<in> set L \<Longrightarrow> b \<noteq> b' \<Longrightarrow>
      block_bytes b \<inter> block_bytes b' = {}"
begin

lemma step_keeps:
  assumes "heap_step malloc release poke ok_size (h, L) ev (h', L')" "invar h L"
  shows "invar h' L'"
proof (cases ev)
  case (Malloc sz p)
  with assms malloc_returns [OF assms(2), of sz] show ?thesis by (auto elim: heap_step_mallocE)
next
  case (Free b)
  with assms release_returns [OF assms(2), of b] show ?thesis by (auto elim: heap_step_freeE)
next
  case (Write x v)
  with assms show ?thesis by (auto elim!: heap_step_writeE intro: poke_keeps)
qed

lemma step_spares:
  assumes "heap_step malloc release poke ok_size (h, L) ev (h', L')" "invar h L"
    and "b \<in> set L" "spares b ev"
  shows "b \<in> set L' \<and> agree_on [b] (peek h) (peek h')"
proof (cases ev)
  case (Malloc sz p)
  with assms malloc_returns [OF assms(2), of sz] show ?thesis
    by (auto elim!: heap_step_mallocE simp: agree_on_def)
next
  case (Free c)
  with assms release_returns [OF assms(2), of c] blocks_distinct [OF assms(2)] show ?thesis
    by (auto elim!: heap_step_freeE simp: agree_on_def) blast
next
  case (Write x v)
  with assms show ?thesis by (auto elim!: heap_step_writeE simp: agree_on_def peek_poke)
qed

lemma run_keeps:
  assumes "heap_run malloc release poke ok_size s evs t" "invar (fst s) (snd s)"
  shows "invar (fst t) (snd t)"
  using assms
proof (induction rule: heap_run.induct)
  case (run_snoc s evs t ev u)
  then show ?case using step_keeps [of "fst t" "snd t" ev "fst u" "snd u"] by simp
qed simp

text \<open>A block keeps its contents through any run in which its owner leaves it alone.\<close>

lemma run_spares:
  assumes "heap_run malloc release poke ok_size s evs t" "invar (fst s) (snd s)"
    and "b \<in> set (snd s)" "list_all (spares b) evs"
  shows "b \<in> set (snd t) \<and> agree_on [b] (peek (fst s)) (peek (fst t))"
  using assms
proof (induction rule: heap_run.induct)
  case (run_nil s)
  then show ?case by (simp add: agree_on_def)
next
  case (run_snoc s evs t ev u)
  then have "b \<in> set (snd t)" "agree_on [b] (peek (fst s)) (peek (fst t))" by auto
  moreover have "invar (fst t) (snd t)" using run_keeps run_snoc by blast
  ultimately have "b \<in> set (snd u)" "agree_on [b] (peek (fst t)) (peek (fst u))"
    using run_snoc step_spares [of "fst t" "snd t" ev "fst u" "snd u" b] by auto
  with \<open>agree_on [b] (peek (fst s)) (peek (fst t))\<close> show ?case by (simp add: agree_on_def)
qed

end

end
