(* ===== verification/Kmalloc.thy ===== *)
theory Kmalloc
  imports Pmm Heap_Client "HOL-Library.Multiset"
begin

unbundle bit_operations_syntax

text \<open>
  The kernel heap, \<^verbatim>\<open>kernel/mm/kmalloc.c\<close> with \<^verbatim>\<open>include/kmalloc.h\<close>: a first-fit
  allocator of whole-frame runs whose free list lives in the free memory itself.  The model
  reads and writes the list nodes and the headers in byte memory, through the same addresses
  as the code, so the aliasing of a node's \<open>next\<close> with a header's \<open>magic\<close> is the real
  one.  The abstract state is a list of free runs and a list of allocated runs of frames;
  \<open>heap_inv\<close> relates the two, and the operations are shown to refine first-fit on the
  lists.
\<close>

section \<open>Data\<close>

definition KMALLOC_MAGIC :: u64 where "KMALLOC_MAGIC = 0x4E414449524D4148"
definition KMALLOC_INIT_FRAMES :: u64 where "KMALLOC_INIT_FRAMES = 64"

text \<open>
  Both \<open>struct kmalloc_header\<close> (\<open>magic\<close>, \<open>frames\<close>) and \<open>struct kmalloc_free\<close>
  (\<open>next\<close>, \<open>frames\<close>) are two 64-bit cells, at offsets 0 and 8 of the first frame of a run.
\<close>

definition sizeof_kmalloc_header :: u64 where "sizeof_kmalloc_header = 16"

record heap =
  mem :: memory
  g_free_list :: u64
  g_free_frames :: u64
  g_used_frames :: u64

text \<open>The value of the variable \<open>link\<close>: \<open>&g_free_list\<close> or \<open>&run->next\<close>.\<close>

datatype link = Link_head | Link_next u64

fun read_link :: "link \<Rightarrow> heap \<Rightarrow> fault + u64" where
  "read_link Link_head h = Inr (g_free_list h)"
| "read_link (Link_next run) h = load64 (mem h) run"

fun write_link :: "link \<Rightarrow> u64 \<Rightarrow> heap \<Rightarrow> fault + heap" where
  "write_link Link_head v h = Inr (h\<lparr>g_free_list := v\<rparr>)"
| "write_link (Link_next run) v h = bindE (store64 run v (mem h)) (\<lambda>m. Inr (h\<lparr>mem := m\<rparr>))"

text \<open>A field access through a pointer into the heap.\<close>

definition ld :: "u64 \<Rightarrow> heap \<Rightarrow> fault + u64" where
  "ld a h = load64 (mem h) a"

definition st :: "u64 \<Rightarrow> u64 \<Rightarrow> heap \<Rightarrow> fault + heap" where
  "st a v h = bindE (store64 a v (mem h)) (\<lambda>m. Inr (h\<lparr>mem := m\<rparr>))"

section \<open>Operations\<close>

definition frames_for :: "u64 \<Rightarrow> u64" where
  "frames_for sz =
     (let sz = (if sz = 0 then 1 else sz);
          bytes = sz + sizeof_kmalloc_header
      in (bytes + PMM_FRAME_SIZE - 1) div PMM_FRAME_SIZE)"

text \<open>The loop of \<open>kmalloc_init\<close>; the result is \<open>i\<close>, \<open>addr\<close> and the PMM when it ends.\<close>

function kmalloc_pull :: "u64 \<Rightarrow> u64 \<Rightarrow> pmm \<Rightarrow> u64 \<times> u64 \<times> pmm" where
  "kmalloc_pull i addr p =
     (if i < KMALLOC_INIT_FRAMES
      then let (nxt, q) = pmm_alloc_frame p
        in if nxt = 0 then (i, addr, q)
        else if addr \<noteq> 0 \<and> nxt \<noteq> addr + i * PMM_FRAME_SIZE then (i, addr, q)
        else kmalloc_pull (i + 1) (if addr = 0 then nxt else addr) q
      else (i, addr, p))"
  by pat_completeness auto
termination
  by (relation "measure (\<lambda>(i, addr, p). unat KMALLOC_INIT_FRAMES - unat i)")
    (auto simp: unat_suc_less word_less_nat_alt)

declare kmalloc_pull.simps [simp del]

definition kmalloc_init :: "pmm \<Rightarrow> heap \<Rightarrow> fault + pmm \<times> heap" where
  "kmalloc_init p h =
     (let h = h\<lparr>g_free_list := 0, g_free_frames := 0, g_used_frames := 0\<rparr>;
          (i, addr, q) = kmalloc_pull 0 0 p
      in if addr \<noteq> 0
         then bindE (st addr 0 h) (\<lambda>h.
              bindE (st (addr + 8) i h) (\<lambda>h.
              Inr (q, h\<lparr>g_free_list := addr, g_free_frames := i\<rparr>)))
         else Inr (q, h))"

text \<open>
  The body of \<open>kmalloc\<close>'s loop once \<open>run->frames >= need\<close>: split or unlink, stamp the
  header, count.  Every field the code reads again is read again here.
\<close>

definition kmalloc_take :: "u64 \<Rightarrow> link \<Rightarrow> u64 \<Rightarrow> heap \<Rightarrow> fault + u64 \<times> heap" where
  "kmalloc_take need link run h =
     bindE (ld (run + 8) h) (\<lambda>frames.
     bindE (if need < frames
        then let tail = run + need * PMM_FRAME_SIZE
          in bindE (ld run h) (\<lambda>next.
             bindE (st tail next h) (\<lambda>h.
             bindE (ld (run + 8) h) (\<lambda>frames.
             bindE (st (tail + 8) (frames - need) h) (\<lambda>h.
             bindE (write_link link tail h) (\<lambda>h.
             Inr (need, h))))))
        else bindE (ld run h) (\<lambda>next.
             bindE (write_link link next h) (\<lambda>h.
             Inr (frames, h))))
     (\<lambda>(run_frames, h).
       let h = h\<lparr>g_free_frames := g_free_frames h - run_frames\<rparr>; hdr = run
       in bindE (st hdr KMALLOC_MAGIC h) (\<lambda>h.
          bindE (st (hdr + 8) run_frames h) (\<lambda>h.
          Inr (hdr + sizeof_kmalloc_header,
               h\<lparr>g_used_frames := g_used_frames h + run_frames\<rparr>)))))"

text \<open>
  The walk over the free list.  On a corrupted (cyclic) list it need not end, so the result is
  an option: \<open>None\<close> is a call that does not return, \<open>Some (Inl _)\<close> one that faults.
\<close>

partial_function (option) kmalloc_walk :: "u64 \<Rightarrow> link \<Rightarrow> heap \<Rightarrow> (fault + u64 \<times> heap) option" where
  "kmalloc_walk need link h =
     (case read_link link h of
        Inl e \<Rightarrow> Some (Inl e)
      | Inr run \<Rightarrow>
          if run = 0 then Some (Inr (0, h))
          else (case ld (run + 8) h of
             Inl e \<Rightarrow> Some (Inl e)
           | Inr frames \<Rightarrow>
               if need \<le> frames then Some (kmalloc_take need link run h)
               else kmalloc_walk need (Link_next run) h))"

definition kmalloc :: "u64 \<Rightarrow> heap \<Rightarrow> (fault + u64 \<times> heap) option" where
  "kmalloc sz h = kmalloc_walk (frames_for sz) Link_head h"

definition kfree :: "u64 \<Rightarrow> heap \<Rightarrow> fault + heap" where
  "kfree ptr h =
     (if ptr = 0 then Inr h
      else let hdr = ptr - sizeof_kmalloc_header
      in bindE (ld hdr h) (\<lambda>magic.
         if magic \<noteq> KMALLOC_MAGIC then Inr h
         else bindE (ld (hdr + 8) h) (\<lambda>frames.
         if frames = 0 then Inr h
         else bindE (st hdr 0 h) (\<lambda>h.
         let node = hdr
         in bindE (st node (g_free_list h) h) (\<lambda>h.
         bindE (ld (hdr + 8) h) (\<lambda>frames.
         bindE (st (node + 8) frames h) (\<lambda>h.
         bindE (ld (hdr + 8) (h\<lparr>g_free_list := node\<rparr>)) (\<lambda>frames.
         Inr (h\<lparr>g_free_list := node,
                g_free_frames := g_free_frames h + frames,
                g_used_frames := g_used_frames h - frames\<rparr>)))))))))"

definition kmalloc_free_frames :: "heap \<Rightarrow> u64" where
  "kmalloc_free_frames h = g_free_frames h"

definition kmalloc_used_frames :: "heap \<Rightarrow> u64" where
  "kmalloc_used_frames h = g_used_frames h"

section \<open>The abstract heap: lists of runs\<close>

text \<open>A run is its first frame and its length in frames.\<close>

type_synonym run = "nat \<times> nat"

definition run_list :: "run \<Rightarrow> nat list" where
  "run_list r = [fst r..<fst r + snd r]"

definition all_frames :: "run list \<Rightarrow> nat list" where
  "all_frames rs = concat (map run_list rs)"

definition run_ok :: "run \<Rightarrow> bool" where
  "run_ok r \<longleftrightarrow> 0 < snd r \<and> 0 < fst r \<and> fst r + snd r \<le> 262144"

text \<open>First fit with split, the policy the code's comment names.\<close>

fun first_fit :: "nat \<Rightarrow> run list \<Rightarrow> (nat \<times> run list) option" where
  "first_fit k [] = None"
| "first_fit k ((f, n) # rs) =
     (if k \<le> n then Some (f, if k < n then (f + k, n - k) # rs else rs)
      else map_option (\<lambda>(g, rs'). (g, (f, n) # rs')) (first_fit k rs))"

text \<open>The nodes of a list segment from \<open>p\<close> to \<open>q\<close> in memory.\<close>

fun free_path :: "memory \<Rightarrow> u64 \<Rightarrow> run list \<Rightarrow> u64 \<Rightarrow> bool" where
  "free_path m p [] q \<longleftrightarrow> p = q"
| "free_path m p ((f, n) # rs) q \<longleftrightarrow> p = frame_addr f \<and> get64 m (frame_addr f + 8) = of_nat n
     \<and> free_path m (get64 m (frame_addr f)) rs q"

definition header_ok :: "memory \<Rightarrow> run \<Rightarrow> bool" where
  "header_ok m r \<longleftrightarrow> get64 m (frame_addr (fst r)) = KMALLOC_MAGIC
     \<and> get64 m (frame_addr (fst r) + 8) = of_nat (snd r)"

definition heap_inv :: "heap \<Rightarrow> run list \<Rightarrow> run list \<Rightarrow> bool" where
  "heap_inv h fl al \<longleftrightarrow>
     free_path (mem h) (g_free_list h) fl 0
   \<and> list_all run_ok (fl @ al)
   \<and> distinct (all_frames (fl @ al))
   \<and> list_all (header_ok (mem h)) al
   \<and> unat (g_free_frames h) = length (all_frames fl)
   \<and> unat (g_used_frames h) = length (all_frames al)"

section \<open>Cells of distinct frames do not interfere\<close>

lemma frame_addr_eq_iff [simp]:
  "f < 262144 \<Longrightarrow> g < 262144 \<Longrightarrow> frame_addr f = frame_addr g \<longleftrightarrow> f = g"
  by (metis unat_frame_addr mult_cancel2 zero_neq_numeral)

lemma unat_frame_cell8: "f < 262144 \<Longrightarrow> unat (frame_addr f + 8) = f * 4096 + 8"
  by (simp add: unat_add_small unat_frame_addr)

lemma frame_cells_apart: "f \<noteq> g \<Longrightarrow> f * 4096 + 4096 \<le> g * 4096 \<or> g * 4096 + 4096 \<le> f * (4096 :: nat)"
  by (cases "f < g") linarith+

lemma get64_put64_frames [simp]:
  assumes "f < 262144" "g < 262144"
  shows "get64 (put64 (frame_addr f) v m) (frame_addr g) = (if f = g then v else get64 m (frame_addr g))"
    and "get64 (put64 (frame_addr f + 8) v m) (frame_addr g + 8) = (if f = g then v else get64 m (frame_addr g + 8))"
    and "get64 (put64 (frame_addr f + 8) v m) (frame_addr g) = get64 m (frame_addr g)"
    and "get64 (put64 (frame_addr f) v m) (frame_addr g + 8) = get64 m (frame_addr g + 8)"
  by (insert assms frame_cells_apart [of f g], (cases "f = g"; auto simp: get64_put64_same
        get64_put64_other unat_frame_addr unat_frame_cell8)+)

lemma mapped_frame_cells [simp]:
  "f < 262144 \<Longrightarrow> mapped (frame_addr f) 8" "f < 262144 \<Longrightarrow> mapped (frame_addr f + 8) 8"
  by (simp_all add: mapped_def unat_frame_addr unat_frame_cell8)

lemma ld_st_frames [simp]:
  assumes "f < 262144"
  shows "ld (frame_addr f) h = Inr (get64 (mem h) (frame_addr f))"
    and "ld (frame_addr f + 8) h = Inr (get64 (mem h) (frame_addr f + 8))"
    and "st (frame_addr f) v h = Inr (h\<lparr>mem := put64 (frame_addr f) v (mem h)\<rparr>)"
    and "st (frame_addr f + 8) v h = Inr (h\<lparr>mem := put64 (frame_addr f + 8) v (mem h)\<rparr>)"
  using assms by (simp_all add: ld_def st_def load64_def store64_def)

section \<open>Runs and list segments\<close>

lemma run_ok_bounds: "run_ok r \<Longrightarrow> 0 < fst r \<and> fst r < 262144"
  by (auto simp: run_ok_def)

lemma all_frames_simps [simp]:
  "all_frames [] = []" "all_frames (r # rs) = run_list r @ all_frames rs"
  "all_frames (rs @ rs') = all_frames rs @ all_frames rs'"
  by (simp_all add: all_frames_def)

lemma length_run_list [simp]: "length (run_list r) = snd r"
  by (simp add: run_list_def)

lemma start_in_run: "run_ok r \<Longrightarrow> fst r \<in> set (run_list r)"
  by (simp add: run_ok_def run_list_def)

lemma all_frames_bound: "list_all run_ok rs \<Longrightarrow> f \<in> set (all_frames rs) \<Longrightarrow> 0 < f \<and> f < 262144"
  by (induction rs) (auto simp: run_ok_def run_list_def)

lemma set_all_frames: "set (all_frames rs) = (\<Union>r\<in>set rs. set (run_list r))"
  by (simp add: all_frames_def)

lemma start_in_all_frames: "list_all run_ok rs \<Longrightarrow> r \<in> set rs \<Longrightarrow> fst r \<in> set (all_frames rs)"
  by (auto simp: set_all_frames list_all_iff intro: start_in_run)

lemma all_frames_length_bound:
  "list_all run_ok rs \<Longrightarrow> distinct (all_frames rs) \<Longrightarrow> length (all_frames rs) < 262144"
proof -
  assume ok: "list_all run_ok rs" and d: "distinct (all_frames rs)"
  have "set (all_frames rs) \<subseteq> {0<..<262144}" using all_frames_bound [OF ok] by auto
  then have "card (set (all_frames rs)) \<le> card {0<..<262144::nat}" by (intro card_mono) auto
  then show ?thesis using d by (simp add: distinct_card)
qed

lemma free_path_append:
  "free_path m p (rs @ rs') q \<longleftrightarrow> (\<exists>r. free_path m p rs r \<and> free_path m r rs' q)"
  by (induction rs arbitrary: p) auto

text \<open>A store into a frame that starts none of the nodes leaves the segment alone.\<close>

lemma free_path_cong:
  assumes "\<And>g. g \<in> fst ` set rs \<Longrightarrow> get64 m' (frame_addr g) = get64 m (frame_addr g)
      \<and> get64 m' (frame_addr g + 8) = get64 m (frame_addr g + 8)"
  shows "free_path m' p rs q \<longleftrightarrow> free_path m p rs q"
  using assms by (induction rs arbitrary: p) auto

text \<open>
  The link that precedes the rest of the list after the nodes \<open>pre\<close>, and the effect of a
  store through it.
\<close>

definition link_of :: "run list \<Rightarrow> link" where
  "link_of pre = (if pre = [] then Link_head else Link_next (frame_addr (fst (last pre))))"

definition after_link :: "run list \<Rightarrow> u64 \<Rightarrow> heap \<Rightarrow> heap" where
  "after_link pre v h =
     (if pre = [] then h\<lparr>g_free_list := v\<rparr>
      else h\<lparr>mem := put64 (frame_addr (fst (last pre))) v (mem h)\<rparr>)"

lemma last_run_bound: "list_all run_ok pre \<Longrightarrow> pre \<noteq> [] \<Longrightarrow> fst (last pre) < 262144"
  using last_in_set [of pre] by (auto simp: list_all_iff dest: run_ok_bounds)

lemma write_link_of:
  "list_all run_ok pre \<Longrightarrow> write_link (link_of pre) v h = Inr (after_link pre v h)"
  using last_run_bound [of pre] by (auto simp: link_of_def after_link_def store64_def)

lemma read_link_of:
  assumes "list_all run_ok pre" "free_path (mem h) (g_free_list h) pre q"
  shows "read_link (link_of pre) h = Inr q"
proof (cases pre rule: rev_cases)
  case Nil
  with assms show ?thesis by (simp add: link_of_def)
next
  case (snoc pre' r)
  with assms show ?thesis
    using last_run_bound [OF assms(1)]
    by (cases r) (auto simp: link_of_def load64_def free_path_append)
qed

lemma get64_after_link:
  assumes "list_all run_ok pre" "g < 262144"
  shows "g \<notin> fst ` set pre \<Longrightarrow>
      get64 (mem (after_link pre v h)) (frame_addr g) = get64 (mem h) (frame_addr g)"
    and "get64 (mem (after_link pre v h)) (frame_addr g + 8) = get64 (mem h) (frame_addr g + 8)"
  using assms last_run_bound [OF assms(1)] last_in_set [of pre]
  by (auto simp: after_link_def)

lemma after_link_fields [simp]:
  "g_free_frames (after_link pre v h) = g_free_frames h"
  "g_used_frames (after_link pre v h) = g_used_frames h"
  by (simp_all add: after_link_def)

lemma free_path_after_link:
  assumes "list_all run_ok pre" "distinct (map fst pre)"
    and "free_path (mem h) (g_free_list h) pre q"
  shows "free_path (mem (after_link pre v h)) (g_free_list (after_link pre v h)) pre v"
proof (cases pre rule: rev_cases)
  case Nil
  then show ?thesis by (simp add: after_link_def)
next
  case (snoc pre' r)
  obtain g n where r: "r = (g, n)" by fastforce
  have g: "g < 262144" using assms(1) snoc r by (auto dest: run_ok_bounds)
  define m' where "m' = put64 (frame_addr g) v (mem h)"
  have "f < 262144 \<and> f \<noteq> g" if "f \<in> fst ` set pre'" for f
    using assms(1,2) that run_ok_bounds by (force simp: snoc r list_all_iff)
  then have "free_path m' (g_free_list h) pre' (frame_addr g)
      \<longleftrightarrow> free_path (mem h) (g_free_list h) pre' (frame_addr g)"
    using g by (intro free_path_cong) (auto simp: m'_def)
  with assms(3) g show ?thesis
    by (auto simp: snoc r after_link_def free_path_append m'_def)
qed

lemma distinct_starts:
  "list_all run_ok rs \<Longrightarrow> distinct (all_frames rs) \<Longrightarrow> distinct (map fst rs)"
proof (induction rs)
  case (Cons r rs)
  then have "fst r \<in> set (run_list r)" "fst ` set rs \<subseteq> set (all_frames rs)"
    by (auto intro: start_in_run start_in_all_frames)
  with Cons show ?case by auto
qed simp

lemma free_path_head: "free_path m p ((f, n) # rs) q \<Longrightarrow> p = frame_addr f"
  by simp

section \<open>Taking a run\<close>

text \<open>The heap after \<open>k\<close> frames of the run \<open>(f, n)\<close>, with successor \<open>q\<close>, are taken.\<close>

definition take_run :: "run list \<Rightarrow> nat \<Rightarrow> nat \<Rightarrow> nat \<Rightarrow> u64 \<Rightarrow> heap \<Rightarrow> heap" where
  "take_run pre f n k q h =
     (let h = (if k < n then h\<lparr>mem := put64 (frame_addr (f + k) + 8) (of_nat (n - k))
                                   (put64 (frame_addr (f + k)) q (mem h))\<rparr> else h);
          h = after_link pre (if k < n then frame_addr (f + k) else q) h
      in h\<lparr>mem := put64 (frame_addr f + 8) (of_nat k) (put64 (frame_addr f) KMALLOC_MAGIC (mem h)),
           g_free_frames := g_free_frames h - of_nat k,
           g_used_frames := g_used_frames h + of_nat k\<rparr>)"

lemma of_nat_less_frames: "k \<le> 262144 \<Longrightarrow> n \<le> 262144 \<Longrightarrow> (of_nat k :: u64) < of_nat n \<longleftrightarrow> k < n"
  by (simp add: word_less_nat_alt unat_of_nat)

lemma frame_addr_add: "frame_addr f + of_nat k * 4096 = frame_addr (f + k)"
  by (simp add: frame_addr_def algebra_simps)

lemma kmalloc_take_eq:
  assumes "list_all run_ok pre" and run: "run_ok (f, n)" and k: "0 < k" "k \<le> n"
    and n: "get64 (mem h) (frame_addr f + 8) = of_nat n"
    and q: "get64 (mem h) (frame_addr f) = q"
  shows "kmalloc_take (of_nat k) (link_of pre) (frame_addr f) h
    = Inr (frame_addr f + 16, take_run pre f n k q h)"
proof -
  have f: "f < 262144" and fk: "k < n \<Longrightarrow> f + k < 262144" and "n \<le> 262144"
    using run by (auto simp: run_ok_def)
  then have lt: "(of_nat k :: u64) < of_nat n \<longleftrightarrow> k < n" using k by (intro of_nat_less_frames) auto
  show ?thesis
  proof (cases "k < n")
    case True
    then show ?thesis
      using f fk k n q lt
      by (simp add: kmalloc_take_def PMM_FRAME_SIZE_def frame_addr_add write_link_of [OF assms(1)]
          take_run_def Let_def sizeof_kmalloc_header_def of_nat_diff)
  next
    case False
    with k have "k = n" by simp
    with f n q show ?thesis
      by (simp add: kmalloc_take_def write_link_of [OF assms(1)] take_run_def Let_def
          sizeof_kmalloc_header_def)
  qed
qed

text \<open>What taking a run leaves in the cells of the other frames.\<close>

lemma get64_take_run:
  assumes "list_all run_ok pre" "run_ok (f, n)" "k \<le> n" "0 < k" "g < 262144" "g \<noteq> f"
    and "k < n \<Longrightarrow> g \<noteq> f + k"
  shows "g \<notin> fst ` set pre \<Longrightarrow>
      get64 (mem (take_run pre f n k q h)) (frame_addr g) = get64 (mem h) (frame_addr g)"
    and "get64 (mem (take_run pre f n k q h)) (frame_addr g + 8) = get64 (mem h) (frame_addr g + 8)"
  using assms by (auto simp: take_run_def Let_def get64_after_link run_ok_def)

lemma mset_run_split: "k \<le> n \<Longrightarrow> run_list (f, k) @ run_list (f + k, n - k) = run_list (f, n)"
  using upt_add_eq_append [of f "f + k" "n - k"] by (simp add: run_list_def)

definition rest_run :: "nat \<Rightarrow> nat \<Rightarrow> nat \<Rightarrow> run list" where
  "rest_run f n k = (if k < n then [(f + k, n - k)] else [])"

lemma run_list_rest: "k \<le> n \<Longrightarrow> run_list (f, k) @ all_frames (rest_run f n k) = run_list (f, n)"
  using mset_run_split [of k n f] by (auto simp: rest_run_def run_list_def)

lemma take_run_frames:
  assumes "k \<le> n"
  shows "mset (all_frames ((pre @ rest_run f n k @ rs) @ (f, k) # al))
    = mset (all_frames ((pre @ (f, n) # rs) @ al))"
proof -
  have "mset (all_frames (rest_run f n k)) + mset (run_list (f, k)) = mset (run_list (f, n))"
    using run_list_rest [OF assms, of f] by (metis mset_append add.commute)
  then show ?thesis by (simp add: ac_simps)
qed

text \<open>The runs beside the one that is taken start in other frames.\<close>

lemma other_starts:
  assumes ok: "list_all run_ok (pre @ (f, n) # rs)"
    and d: "distinct (all_frames (pre @ (f, n) # rs))"
    and k: "0 < k" "k \<le> n" and mem: "g \<in> fst ` set pre \<union> fst ` set rs"
  shows "g < 262144" "g \<noteq> f" "k < n \<Longrightarrow> g \<noteq> f + k"
proof -
  have "f \<in> set (run_list (f, n))" "k < n \<Longrightarrow> f + k \<in> set (run_list (f, n))"
    using k by (auto simp: run_list_def)
  moreover have g: "g \<in> set (all_frames pre) \<union> set (all_frames rs)"
    using mem ok start_in_all_frames [of pre] start_in_all_frames [of rs] by auto
  moreover have "set (run_list (f, n)) \<inter> (set (all_frames pre) \<union> set (all_frames rs)) = {}"
    using d by auto
  ultimately show "g \<noteq> f" "k < n \<Longrightarrow> g \<noteq> f + k" by blast+
  show "g < 262144" using g ok all_frames_bound [of pre g] all_frames_bound [of rs g] by auto
qed

lemma take_run_path:
  assumes ok: "list_all run_ok (pre @ (f, n) # rs)"
    and d: "distinct (all_frames (pre @ (f, n) # rs))"
    and path: "free_path (mem h) (g_free_list h) (pre @ (f, n) # rs) 0"
    and k: "0 < k" "k \<le> n"
    and q: "q = get64 (mem h) (frame_addr f)"
  shows "free_path (mem (take_run pre f n k q h)) (g_free_list (take_run pre f n k q h))
    (pre @ rest_run f n k @ rs) 0"
proof -
  define h1 where "h1 = (if k < n then h\<lparr>mem := put64 (frame_addr (f + k) + 8) (of_nat (n - k))
      (put64 (frame_addr (f + k)) q (mem h))\<rparr> else h)"
  define v where "v = (if k < n then frame_addr (f + k) else q)"
  define h2 where "h2 = after_link pre v h1"
  let ?h' = "take_run pre f n k q h"
  have h': "mem ?h' = put64 (frame_addr f + 8) (of_nat k) (put64 (frame_addr f) KMALLOC_MAGIC (mem h2))"
    "g_free_list ?h' = g_free_list h2"
    by (simp_all add: take_run_def h1_def h2_def v_def Let_def)
  have okp: "list_all run_ok pre" and run: "run_ok (f, n)" using ok by auto
  have f: "f < 262144" "k < n \<Longrightarrow> f + k < 262144" using run by (auto simp: run_ok_def)
  note other = other_starts [OF ok d k]
  have starts: "distinct (map fst (pre @ (f, n) # rs))" using distinct_starts [OF ok d] .
  obtain r where pre: "free_path (mem h) (g_free_list h) pre r" and rs: "free_path (mem h) q rs 0"
    using path q by (auto simp: free_path_append)
  have "free_path (mem h1) (g_free_list h) pre r"
    by (rule free_path_cong [THEN iffD2, OF _ pre]) (use other f in \<open>auto simp: h1_def\<close>)
  moreover have "g_free_list h1 = g_free_list h" by (simp add: h1_def)
  ultimately have "free_path (mem h1) (g_free_list h1) pre r" by simp
  then have p1: "free_path (mem h2) (g_free_list h2) pre v"
    unfolding h2_def using starts by (intro free_path_after_link okp) auto
  have p1': "free_path (mem ?h') (g_free_list ?h') pre v"
    unfolding h' by (rule free_path_cong [THEN iffD2, OF _ p1]) (use other f in auto)
  have "g \<notin> fst ` set pre" if "g \<in> fst ` set rs" for g
    using starts that by (simp only: map_append distinct_append list.map set_append set_map) auto
  then have p2: "free_path (mem ?h') q rs 0"
    by (intro free_path_cong [THEN iffD2, OF _ rs])
      (simp add: other get64_take_run [OF okp run k(2,1)])
  have "free_path (mem ?h') v (rest_run f n k @ rs) 0"
  proof (cases "k < n")
    case True
    have "f + k \<notin> fst ` set pre" using other True by force
    then have "get64 (mem ?h') (frame_addr (f + k)) = q" "get64 (mem ?h') (frame_addr (f + k) + 8) = of_nat (n - k)"
      using True f k by (simp_all add: h' h2_def h1_def get64_after_link [OF okp])
    with True p2 show ?thesis by (simp add: v_def rest_run_def)
  qed (use p2 in \<open>simp add: v_def rest_run_def\<close>)
  with p1' show ?thesis by (auto simp: free_path_append)
qed

text \<open>
  Only the first sixteen bytes of frames of the given runs differ: the cells of list nodes
  and headers.
\<close>

definition touches_only :: "run list \<Rightarrow> heap \<Rightarrow> heap \<Rightarrow> bool" where
  "touches_only rs h h' \<longleftrightarrow>
     (\<forall>x. mem h' x \<noteq> mem h x \<longrightarrow>
        (\<exists>g \<in> set (all_frames rs). g * 4096 \<le> unat x \<and> unat x < g * 4096 + 16))"

lemma put64_touches:
  "g < 262144 \<Longrightarrow> put64 (frame_addr g) v m x \<noteq> m x \<Longrightarrow> g * 4096 \<le> unat x \<and> unat x < g * 4096 + 16"
  "g < 262144 \<Longrightarrow> put64 (frame_addr g + 8) v m x \<noteq> m x \<Longrightarrow> g * 4096 \<le> unat x \<and> unat x < g * 4096 + 16"
  by (auto simp: put64_def unat_frame_addr unat_frame_cell8 split: if_splits)

lemma touches_only_refl [simp]: "touches_only rs h h"
  by (simp add: touches_only_def)

lemma touches_only_put64:
  assumes "list_all run_ok rs" "g \<in> set (all_frames rs)" "touches_only rs h h'"
  shows "touches_only rs h (h'\<lparr>mem := put64 (frame_addr g) v (mem h')\<rparr>)"
    and "touches_only rs h (h'\<lparr>mem := put64 (frame_addr g + 8) v (mem h')\<rparr>)"
  using assms all_frames_bound [OF assms(1,2)] put64_touches [of g v "mem h'"]
  unfolding touches_only_def by (simp, metis)+

lemma touches_only_mem: "mem h'' = mem h' \<Longrightarrow> touches_only rs h h' \<Longrightarrow> touches_only rs h h''"
  by (simp add: touches_only_def)

lemma take_run_touches:
  assumes ok: "list_all run_ok (pre @ (f, n) # rs)" and k: "0 < k" "k \<le> n"
  shows "touches_only (pre @ (f, n) # rs) h (take_run pre f n k q h)"
proof -
  let ?fl = "pre @ (f, n) # rs"
  have f: "f \<in> set (all_frames ?fl)" "k < n \<Longrightarrow> f + k \<in> set (all_frames ?fl)"
    using k by (auto simp: run_list_def)
  have l: "fst (last pre) \<in> set (all_frames ?fl)" if "pre \<noteq> []"
    using that ok start_in_all_frames [of pre "last pre"] by auto
  define h1 where "h1 = (if k < n then h\<lparr>mem := put64 (frame_addr (f + k) + 8) (of_nat (n - k))
      (put64 (frame_addr (f + k)) q (mem h))\<rparr> else h)"
  have "touches_only ?fl h h1"
    using touches_only_put64(2) [OF ok _ touches_only_put64(1) [OF ok _ touches_only_refl]] f(2)
    by (auto simp: h1_def)
  then have "touches_only ?fl h (after_link pre v h1)" for v
    using touches_only_put64(1) [OF ok l] by (auto simp: after_link_def intro: touches_only_mem)
  from touches_only_put64(2) [OF ok f(1) touches_only_put64(1) [OF ok f(1) this]]
  show ?thesis by (rule touches_only_mem [rotated]) (simp add: take_run_def h1_def Let_def)
qed

lemma take_run_headers:
  assumes ok: "list_all run_ok ((pre @ (f, n) # rs) @ al)"
    and d: "distinct (all_frames ((pre @ (f, n) # rs) @ al))"
    and k: "0 < k" "k \<le> n" and hd: "list_all (header_ok (mem h)) al"
  shows "list_all (header_ok (mem (take_run pre f n k q h))) ((f, k) # al)"
proof -
  have okp: "list_all run_ok pre" and run: "run_ok (f, n)" using ok by auto
  have f: "f < 262144" using run by (simp add: run_ok_def)
  have "header_ok (mem (take_run pre f n k q h)) (f, k)"
    using f by (simp add: header_ok_def take_run_def Let_def)
  moreover have "header_ok (mem (take_run pre f n k q h)) r" if r: "r \<in> set al" for r
  proof -
    have al: "fst r \<in> set (all_frames al)" using r ok by (intro start_in_all_frames) auto
    have "f \<in> set (run_list (f, n))" "k < n \<Longrightarrow> f + k \<in> set (run_list (f, n))"
      using k by (auto simp: run_list_def)
    moreover have run_al: "set (run_list (f, n)) \<inter> set (all_frames al) = {}" using d by auto
    ultimately have "fst r \<noteq> f" "k < n \<Longrightarrow> fst r \<noteq> f + k" using al by (auto simp: disjoint_iff)
    moreover have "set (all_frames pre) \<inter> set (all_frames al) = {}" using d by auto
    then have "fst r \<notin> fst ` set pre"
      using al start_in_all_frames [OF okp] by (metis disjoint_iff imageE)
    moreover have "fst r < 262144" using r ok run_ok_bounds [of r] by (auto simp: list_all_iff)
    moreover have "header_ok (mem h) r" using hd r by (simp add: list_all_iff)
    ultimately show ?thesis by (simp add: header_ok_def get64_take_run [OF okp run k(2,1)])
  qed
  ultimately show ?thesis by (simp add: list_all_iff)
qed

lemma take_run_counters:
  "g_free_frames (take_run pre f n k q h) = g_free_frames h - of_nat k"
  "g_used_frames (take_run pre f n k q h) = g_used_frames h + of_nat k"
  by (simp_all add: take_run_def Let_def)

text \<open>Taking a run keeps the invariant, with the run moved to the allocated ones.\<close>

lemma take_run_inv:
  assumes inv: "heap_inv h (pre @ (f, n) # rs) al" and k: "0 < k" "k \<le> n"
    and q: "q = get64 (mem h) (frame_addr f)"
  shows "heap_inv (take_run pre f n k q h) (pre @ rest_run f n k @ rs) ((f, k) # al)"
proof -
  let ?h' = "take_run pre f n k q h"
  let ?fl = "pre @ (f, n) # rs"
  from inv have ok: "list_all run_ok (?fl @ al)" and d: "distinct (all_frames (?fl @ al))"
    and path: "free_path (mem h) (g_free_list h) ?fl 0"
    and hd: "list_all (header_ok (mem h)) al"
    and cf: "unat (g_free_frames h) = length (all_frames ?fl)"
    and cu: "unat (g_used_frames h) = length (all_frames al)"
    by (auto simp: heap_inv_def)
  have run: "run_ok (f, n)" using ok by simp
  have len: "length (all_frames (?fl @ al)) < 262144" by (rule all_frames_length_bound [OF ok d])
  have uk: "unat (of_nat k :: u64) = k" using k run by (simp add: run_ok_def unat_of_nat)
  have "length (all_frames (rest_run f n k)) = n - k" by (simp add: rest_run_def)
  moreover have "unat (g_free_frames h - of_nat k) = unat (g_free_frames h) - k"
    using cf k uk by (subst unat_sub_small) (simp_all add: word_le_nat_alt)
  ultimately have f': "unat (g_free_frames ?h') = length (all_frames (pre @ rest_run f n k @ rs))"
    using cf k by (simp add: take_run_counters)
  have u': "unat (g_used_frames ?h') = length (all_frames ((f, k) # al))"
    using cu uk k len unat_add_small [of "g_used_frames h" "of_nat k"]
    by (simp add: take_run_counters)
  have "distinct (all_frames ((pre @ rest_run f n k @ rs) @ (f, k) # al))"
    using d take_run_frames [OF k(2), of pre f rs al] mset_eq_imp_distinct_iff by blast
  moreover have "list_all run_ok ((pre @ rest_run f n k @ rs) @ (f, k) # al)"
    using ok k by (auto simp: rest_run_def run_ok_def)
  moreover have "free_path (mem ?h') (g_free_list ?h') (pre @ rest_run f n k @ rs) 0"
    using ok d by (intro take_run_path [OF _ _ path k q]) auto
  ultimately show ?thesis
    unfolding heap_inv_def using f' u' take_run_headers [OF ok d k hd, of q] by blast
qed

section \<open>The walk refines first fit\<close>

lemma first_fit_run: "first_fit k rs = Some (f, rs') \<Longrightarrow> 0 < k \<Longrightarrow>
  \<exists>pre n post. rs = pre @ (f, n) # post \<and> k \<le> n \<and> rs' = pre @ rest_run f n k @ post"
proof (induction rs arbitrary: rs')
  case (Cons r rs)
  obtain g n where r: "r = (g, n)" by fastforce
  show ?case
  proof (cases "k \<le> n")
    case True
    with Cons.prems r have "r # rs = [] @ (f, n) # rs" "rs' = [] @ rest_run f n k @ rs"
      by (auto simp: rest_run_def)
    with True show ?thesis by blast
  next
    case False
    with Cons.prems r obtain rs1 where "first_fit k rs = Some (f, rs1)" "rs' = r # rs1" by auto
    with Cons.IH [of rs1] Cons.prems show ?thesis by (metis append_Cons)
  qed
qed simp

lemma kmalloc_walk_none:
  assumes "heap_inv h (pre @ suf) al" "first_fit (unat need) suf = None"
  shows "kmalloc_walk need (link_of pre) h = Some (Inr (0, h))"
  using assms
proof (induction suf arbitrary: pre)
  case Nil
  then have "read_link (link_of pre) h = Inr 0"
    by (intro read_link_of) (auto simp: heap_inv_def)
  then show ?case by (simp add: kmalloc_walk.simps)
next
  case (Cons r suf)
  obtain f n where r: "r = (f, n)" by fastforce
  from Cons.prems r have ok: "list_all run_ok pre" "run_ok (f, n)"
    and path: "free_path (mem h) (g_free_list h) (pre @ (f, n) # suf) 0" by (auto simp: heap_inv_def)
  have lt: "n < unat need" and ff: "first_fit (unat need) suf = None"
    using Cons.prems(2) r by (auto split: if_splits)
  have f: "f < 262144" "frame_addr f \<noteq> 0" using ok by (auto simp: run_ok_def frame_addr_nonzero)
  from path have "read_link (link_of pre) h = Inr (frame_addr f)"
    and n: "get64 (mem h) (frame_addr f + 8) = of_nat n"
    using read_link_of [OF ok(1)] by (auto simp: free_path_append)
  moreover have "\<not> need \<le> of_nat n" using lt ok(2) by (simp add: word_le_nat_alt run_ok_def unat_of_nat)
  moreover have "kmalloc_walk need (link_of (pre @ [(f, n)])) h = Some (Inr (0, h))"
    using Cons.IH [OF _ ff, of "pre @ [(f, n)]"] Cons.prems(1) r by simp
  ultimately show ?case using f by (subst kmalloc_walk.simps) (simp add: link_of_def)
qed

lemma kmalloc_walk_some:
  assumes "heap_inv h (pre @ suf) al" "first_fit (unat need) suf = Some (f, suf')" "0 < unat need"
  shows "\<exists>h'. kmalloc_walk need (link_of pre) h = Some (Inr (frame_addr f + 16, h'))
    \<and> heap_inv h' (pre @ suf') ((f, unat need) # al) \<and> touches_only (pre @ suf) h h'"
  using assms(1,2)
proof (induction suf arbitrary: pre suf')
  case (Cons r suf)
  obtain g n where r: "r = (g, n)" by fastforce
  from Cons.prems r have ok: "list_all run_ok pre" "run_ok (g, n)" "list_all run_ok (pre @ (g, n) # suf)"
    and path: "free_path (mem h) (g_free_list h) (pre @ (g, n) # suf) 0" by (auto simp: heap_inv_def)
  have g: "g < 262144" "frame_addr g \<noteq> 0" using ok by (auto simp: run_ok_def frame_addr_nonzero)
  from path have rl: "read_link (link_of pre) h = Inr (frame_addr g)"
    and n: "get64 (mem h) (frame_addr g + 8) = of_nat n"
    using read_link_of [OF ok(1)] by (auto simp: free_path_append)
  have le: "need \<le> of_nat n \<longleftrightarrow> unat need \<le> n"
    using ok(2) by (simp add: word_le_nat_alt run_ok_def unat_of_nat)
  show ?case
  proof (cases "unat need \<le> n")
    case True
    let ?h' = "take_run pre g n (unat need) (get64 (mem h) (frame_addr g)) h"
    have "kmalloc_walk need (link_of pre) h = Some (Inr (frame_addr g + 16, ?h'))"
      using kmalloc_take_eq [OF ok(1,2) assms(3) True n refl] rl g n le True
      by (subst kmalloc_walk.simps) simp
    moreover have "f = g" "suf' = rest_run g n (unat need) @ suf"
      using Cons.prems(2) r True by (auto simp: rest_run_def)
    ultimately show ?thesis
      using take_run_inv [of h pre g n suf al "unat need"] take_run_touches [OF ok(3) assms(3) True]
        Cons.prems(1) r True assms(3) by auto
  next
    case False
    then obtain suf1 where s: "first_fit (unat need) suf = Some (f, suf1)" "suf' = (g, n) # suf1"
      using Cons.prems(2) r by auto
    have "kmalloc_walk need (link_of pre) h = kmalloc_walk need (link_of (pre @ [(g, n)])) h"
      using rl g n le False by (subst kmalloc_walk.simps) (simp add: link_of_def)
    with Cons.IH [OF _ s(1), of "pre @ [(g, n)]"] Cons.prems(1) r s(2) show ?thesis by simp
  qed
qed simp

section \<open>Request sizes\<close>

lemma frames_for_sum: "frames_for sz = ((if sz = 0 then 1 else sz) + 4111) div 4096"
  by (simp add: frames_for_def Let_def sizeof_kmalloc_header_def PMM_FRAME_SIZE_def add.commute)

lemma unat_frames_for:
  assumes "unat sz + 4111 < 2 ^ 64"
  shows "unat (frames_for sz) = (max 1 (unat sz) + 4111) div 4096"
proof (cases "sz = 0")
  case True
  then show ?thesis by (simp add: frames_for_sum)
next
  case False
  then have "1 \<le> unat sz" by (metis One_nat_def Suc_leI unat_gt_0)
  moreover have "unat (sz + 4111) = unat sz + 4111" using assms by (simp add: unat_add_small)
  ultimately show ?thesis using False by (simp add: frames_for_sum max_def)
qed

lemma frames_for_positive: "unat sz + 4111 < 2 ^ 64 \<Longrightarrow> 0 < unat (frames_for sz)"
  by (simp add: unat_frames_for div_greater_zero_iff)

section \<open>Releasing a run\<close>

lemma mset_all_frames_remove1:
  "r \<in> set al \<Longrightarrow> mset (run_list r) + mset (all_frames (remove1 r al)) = mset (all_frames al)"
  by (induction al) (auto simp: ac_simps)

definition free_run :: "run \<Rightarrow> heap \<Rightarrow> heap" where
  "free_run r h = h\<lparr>
     mem := put64 (frame_addr (fst r) + 8) (of_nat (snd r))
       (put64 (frame_addr (fst r)) (g_free_list h) (put64 (frame_addr (fst r)) 0 (mem h))),
     g_free_list := frame_addr (fst r),
     g_free_frames := g_free_frames h + of_nat (snd r),
     g_used_frames := g_used_frames h - of_nat (snd r)\<rparr>"

lemma block_ptr_nonzero: "f < 262144 \<Longrightarrow> frame_addr f + 16 \<noteq> 0"
proof
  assume f: "f < 262144" and z: "frame_addr f + 16 = 0"
  from f have "unat (frame_addr f + 16) = f * 4096 + 16"
    by (simp add: unat_add_small unat_frame_addr)
  with z show False by simp
qed

lemma kfree_eq:
  assumes "run_ok r" "header_ok (mem h) r"
  shows "kfree (frame_addr (fst r) + 16) h = Inr (free_run r h)"
proof -
  have f: "fst r < 262144" using assms(1) by (simp add: run_ok_def)
  have "(of_nat (snd r) :: u64) \<noteq> 0"
    using assms(1) unat_of_frame [of "snd r"] by (auto simp: run_ok_def)
  with f assms(2) block_ptr_nonzero [OF f] show ?thesis
    by (simp add: kfree_def sizeof_kmalloc_header_def header_ok_def free_run_def Let_def)
qed

lemma free_run_inv:
  assumes inv: "heap_inv h fl al" and r: "r \<in> set al"
  shows "heap_inv (free_run r h) (r # fl) (remove1 r al)"
proof -
  let ?h' = "free_run r h"
  obtain f n where fn: "r = (f, n)" by fastforce
  from inv have ok: "list_all run_ok (fl @ al)" and d: "distinct (all_frames (fl @ al))"
    and path: "free_path (mem h) (g_free_list h) fl 0" and hd: "list_all (header_ok (mem h)) al"
    and cf: "unat (g_free_frames h) = length (all_frames fl)"
    and cu: "unat (g_used_frames h) = length (all_frames al)"
    by (auto simp: heap_inv_def)
  have run: "run_ok (f, n)" using ok r fn by (auto simp: list_all_iff)
  then have f: "f < 262144" and n: "unat (of_nat n :: u64) = n"
    by (auto simp: run_ok_def unat_of_frame)
  have m: "mset (all_frames ((r # fl) @ remove1 r al)) = mset (all_frames (fl @ al))"
    using mset_all_frames_remove1 [OF r] by (simp add: ac_simps)
  have ok': "list_all run_ok ((r # fl) @ remove1 r al)"
    using ok r notin_set_remove1 by (fastforce simp: list_all_iff)
  have d': "distinct (all_frames ((r # fl) @ remove1 r al))"
    using d m mset_eq_imp_distinct_iff by blast
  have starts: "distinct (map fst ((r # fl) @ remove1 r al))" by (rule distinct_starts [OF ok' d'])
  have cell: "get64 (mem ?h') (frame_addr g) = get64 (mem h) (frame_addr g)
      \<and> get64 (mem ?h') (frame_addr g + 8) = get64 (mem h) (frame_addr g + 8)"
    if "g < 262144" "g \<noteq> f" for g
    using that f by (simp add: free_run_def fn)
  have other: "g < 262144 \<and> g \<noteq> f" if "g \<in> fst ` set (fl @ remove1 r al)" for g
  proof -
    from that obtain r' where "r' \<in> set (fl @ remove1 r al)" "g = fst r'" by blast
    moreover have "f \<notin> fst ` set (fl @ remove1 r al)" using starts by (simp add: fn image_Un)
    moreover have "list_all run_ok (fl @ remove1 r al)" using ok' by simp
    ultimately show ?thesis using that run_ok_bounds [of r'] unfolding list_all_iff by blast
  qed
  have "free_path (mem ?h') (g_free_list h) fl 0"
    by (rule free_path_cong [THEN iffD2, OF _ path]) (use cell other in auto)
  then have "free_path (mem ?h') (g_free_list ?h') (r # fl) 0"
    using f by (simp add: fn free_run_def)
  moreover have "header_ok (mem ?h') r'" if "r' \<in> set (remove1 r al)" for r'
    using that cell other [of "fst r'"] hd notin_set_remove1 [of r' al r]
    by (auto simp: header_ok_def list_all_iff)
  moreover have "unat (g_used_frames ?h') = length (all_frames (remove1 r al))"
    using cu n mset_all_frames_remove1 [OF r, THEN arg_cong [where f = size]]
    by (simp add: free_run_def fn unat_sub_small word_le_nat_alt)
  moreover have "unat (g_free_frames ?h') = length (all_frames (r # fl))"
    using cf n all_frames_length_bound [OF ok' d'] unat_add_small [of "g_free_frames h" "of_nat n"]
    by (simp add: free_run_def fn)
  ultimately show ?thesis using ok' d' by (auto simp: heap_inv_def list_all_iff)
qed

section \<open>Taking the pool from the PMM\<close>

text \<open>
  The frames \<open>f + lo\<close> up to \<open>f + hi\<close> were pulled from the free set \<open>F\<close> and \<open>F'\<close> is what
  is left.  A pull that stopped before the limit did so because the run could not go on; if any
  frame was free then, it has been taken and dropped.
\<close>

definition pulled :: "nat set \<Rightarrow> nat \<Rightarrow> nat \<Rightarrow> nat \<Rightarrow> nat set \<Rightarrow> bool" where
  "pulled F f lo hi F' \<longleftrightarrow>
     lo \<le> hi \<and> hi \<le> 64 \<and> {f + lo..<f + hi} \<subseteq> F \<and> (hi < 64 \<longrightarrow> f + hi \<notin> F)
   \<and> F' = (if hi < 64 then (F - {f + lo..<f + hi}) - {Min (F - {f + lo..<f + hi})}
           else F - {f + lo..<f + hi})"

lemma pulled_none: "lo < 64 \<Longrightarrow> f + lo \<notin> F \<Longrightarrow> F' = F - {Min F} \<Longrightarrow> pulled F f lo lo F'"
  by (simp add: pulled_def)

lemma pulled_sets:
  assumes "pulled F f lo hi F'"
  shows "{f + lo..<f + hi} \<subseteq> F \<and> {f + lo..<f + hi} \<inter> F' = {} \<and> F' \<subseteq> F"
proof -
  define R where "R = {f + lo..<f + hi}"
  have "R \<subseteq> F" "F' = (if hi < 64 then F - R - {Min (F - R)} else F - R)"
    using assms by (auto simp: pulled_def R_def)
  then show ?thesis unfolding R_def [symmetric] by auto
qed

lemma pulled_step:
  assumes "pulled (F - {f + lo}) f (Suc lo) hi F'" "f + lo \<in> F"
  shows "pulled F f lo hi F'"
proof -
  have "{f + lo..<f + hi} = insert (f + lo) {f + Suc lo..<f + hi}"
    using assms(1) by (auto simp: pulled_def)
  then have "F - {f + lo} - {f + Suc lo..<f + hi} = F - {f + lo..<f + hi}"
    and "{f + lo..<f + hi} \<subseteq> F \<longleftrightarrow> {f + Suc lo..<f + hi} \<subseteq> F"
    using assms(2) by auto
  moreover have "hi < 64 \<longrightarrow> f + hi \<notin> F" using assms(1) by (auto simp: pulled_def)
  ultimately show ?thesis using assms(1) unfolding pulled_def by auto
qed

lemma frame_addr_run:
  "frame_addr f + i * PMM_FRAME_SIZE = frame_addr (f + unat i)"
  using frame_addr_add [of f "unat i"] by (simp add: PMM_FRAME_SIZE_def)

lemma kmalloc_pull_unfold:
  assumes "0 < f" "f < 262144"
  shows "kmalloc_pull i (frame_addr f) p = (if i < 64 then case pmm_alloc_frame p of (nxt, p') \<Rightarrow>
      if nxt = 0 \<or> nxt \<noteq> frame_addr (f + unat i) then (i, frame_addr f, p')
      else kmalloc_pull (i + 1) (frame_addr f) p' else (i, frame_addr f, p))"
  using frame_addr_nonzero [OF assms(2,1)]
  by (subst kmalloc_pull.simps) (simp add: KMALLOC_INIT_FRAMES_def frame_addr_run split_beta)

text \<open>One more frame: the lowest free one, which is the next of the run or lies behind a gap.\<close>

lemma alloc_next:
  assumes "pmm_inv p" "pmm_alloc_frame p = (nxt, p')" "nxt \<noteq> 0" "\<And>g. g \<in> free_frames p \<Longrightarrow> n \<le> g"
  obtains g where "nxt = frame_addr g" "g \<in> free_frames p" "g = Min (free_frames p)" "free_frames p' = free_frames p - {g}"
    "pmm_inv p'" "n \<le> g" "g < 262144" "g = n \<longleftrightarrow> n \<in> free_frames p"
proof -
  let ?g = "Min (free_frames p)"
  have ne: "free_frames p \<noteq> {}" using assms(2,3) frames.alloc_oom [OF assms(1)] by auto
  then have m: "?g \<in> free_frames p" by simp
  have "?g = n \<longleftrightarrow> n \<in> free_frames p"
    using m assms(4) [OF m] Min_le [OF finite_free_frames, of n p] by (metis le_antisym)
  with that [of ?g] frames.alloc_lowest [OF assms(1) ne] assms(2) m assms(4) [OF m] free_frames_bound [OF m]
  show ?thesis by auto
qed

lemma kmalloc_pull_rest:
  assumes "kmalloc_pull i (frame_addr f) p = (i', addr, q)" and "pmm_inv p"
    and f: "0 < f" "f < 262144" and "i \<le> 64" and "\<And>g. g \<in> free_frames p \<Longrightarrow> f + unat i \<le> g"
  shows "addr = frame_addr f \<and> pmm_inv q
    \<and> pulled (free_frames p) f (unat i) (unat i') (free_frames q)"
  using assms(1,2,5,6)
proof (induction "64 - unat i" arbitrary: i p)
  case 0
  then have "i = 64" by (simp add: word_le_nat_alt word_unat_eq_iff)
  with 0 show ?case by (simp add: kmalloc_pull_unfold [OF f] pulled_def)
next
  case (Suc d)
  then have i: "i < 64" by (simp add: word_less_nat_alt)
  have i1: "unat (i + 1) = Suc (unat i)" using i by (rule unat_suc_less)
  obtain nxt p' where al: "pmm_alloc_frame p = (nxt, p')" by fastforce
  show ?case
  proof (cases "nxt = 0")
    case True
    with al frames.alloc_zero [OF Suc.prems(2)] have "free_frames p = {}" "p' = p" by auto
    with True al i Suc.prems(1,2) show ?thesis
      by (auto simp: kmalloc_pull_unfold [OF f] word_less_nat_alt intro!: pulled_none)
  next
    case False
    then obtain g where g: "nxt = frame_addr g" "g \<in> free_frames p" "g = Min (free_frames p)"
      "free_frames p' = free_frames p - {g}" "pmm_inv p'" "f + unat i \<le> g" "g < 262144" "g = f + unat i \<longleftrightarrow> f + unat i \<in> free_frames p"
      by (rule alloc_next [OF Suc.prems(2) al _ Suc.prems(4)])
    have nx: "nxt = frame_addr (f + unat i) \<longleftrightarrow> g = f + unat i" using g(1,6,7) by simp
    show ?thesis
    proof (cases "g = f + unat i")
      case gap: False
      with False al i g Suc.prems(1) show ?thesis
        by (auto simp: kmalloc_pull_unfold [OF f] nx word_less_nat_alt intro!: pulled_none)
    next
      case True
      have "kmalloc_pull (i + 1) (frame_addr f) p' = (i', addr, q)"
        using Suc.prems(1) True False al i nx by (simp add: kmalloc_pull_unfold [OF f, of i])
      moreover have "f + unat (i + 1) \<le> h" if "h \<in> free_frames p'" for h
        using that Suc.prems(4) [of h] by (simp add: g(4) True i1)
      ultimately have "addr = frame_addr f \<and> pmm_inv q
          \<and> pulled (free_frames p - {f + unat i}) f (Suc (unat i)) (unat i') (free_frames q)"
        using Suc.hyps(1) [of "i + 1" p'] Suc.hyps(2) g(5) i i1 by (simp add: g(4) True word_less_nat_alt word_le_nat_alt)
      then show ?thesis using g(2) True by (blast intro: pulled_step)
    qed
  qed
qed

lemma kmalloc_pull_start:
  assumes "pmm_inv p" "free_frames p \<noteq> {}" "kmalloc_pull 0 0 p = (i, addr, q)"
  shows "addr = frame_addr (Min (free_frames p)) \<and> 0 < unat i \<and> pmm_inv q
    \<and> pulled (free_frames p) (Min (free_frames p)) 0 (unat i) (free_frames q)"
proof -
  let ?f = "Min (free_frames p)"
  have mem: "?f \<in> free_frames p" using assms(2) by simp
  note b = frames.free_bounds [OF assms(1) mem]
  from frames.alloc_lowest [OF assms(1,2)] obtain p' where p': "pmm_alloc_frame p = (frame_addr ?f, p')"
    "free_frames p' = free_frames p - {?f}" "pmm_inv p'" by auto
  have "kmalloc_pull 1 (frame_addr ?f) p' = (i, addr, q)"
    using assms(3) p'(1) b
    by (subst (asm) kmalloc_pull.simps) (simp add: KMALLOC_INIT_FRAMES_def frame_addr_nonzero)
  moreover have "?f + unat (1 :: u64) \<le> g" if "g \<in> free_frames p'" for g
  proof -
    have "?f \<le> g" "g \<noteq> ?f" using that p'(2) by (auto intro: Min_le [OF finite_free_frames])
    then show ?thesis by simp
  qed
  ultimately have r: "addr = frame_addr ?f \<and> pmm_inv q
      \<and> pulled (free_frames p') ?f (unat (1 :: u64)) (unat i) (free_frames q)"
    using b p'(3) by (intro kmalloc_pull_rest) (auto simp: word_le_nat_alt)
  then have "pulled (free_frames p - {?f + 0}) ?f (Suc 0) (unat i) (free_frames q)"
    using p'(2) by simp
  from pulled_step [OF this] mem r show ?thesis by (auto simp: pulled_def)
qed

text \<open>The pool handed over by \<open>kmalloc_init\<close>: one free run, disjoint from what the PMM keeps.\<close>

lemma kmalloc_init_pool:
  assumes "pmm_inv p" "free_frames p \<noteq> {}"
  shows "\<exists>i q h'. kmalloc_init p h = Inr (q, h') \<and> 0 < i \<and> pmm_inv q
    \<and> pulled (free_frames p) (Min (free_frames p)) 0 i (free_frames q)
    \<and> heap_inv h' [(Min (free_frames p), i)] []"
proof -
  let ?f = "Min (free_frames p)"
  obtain i addr q where pull: "kmalloc_pull 0 0 p = (i, addr, q)" by (metis prod_cases3)
  note r = kmalloc_pull_start [OF assms pull]
  then have sub: "{?f..<?f + unat i} \<subseteq> free_frames p" by (auto simp: pulled_def)
  have b: "0 < ?f" "?f < 262144" using frames.free_bounds [OF assms(1), of ?f] assms(2) by auto
  have "?f + unat i - 1 \<in> free_frames p" using sub r by (auto simp: subset_iff)
  then have ok: "run_ok (?f, unat i)"
    using free_frames_bound [of "?f + unat i - 1" p] b r by (simp add: run_ok_def)
  define h' where "h' = h\<lparr>mem := put64 (frame_addr ?f + 8) i (put64 (frame_addr ?f) 0 (mem h)),
    g_free_list := frame_addr ?f, g_free_frames := i, g_used_frames := 0\<rparr>"
  have "kmalloc_init p h = Inr (q, h')"
    using pull r b by (simp add: kmalloc_init_def frame_addr_nonzero h'_def)
  moreover have "heap_inv h' [(?f, unat i)] []"
    using ok b by (simp add: heap_inv_def h'_def run_list_def)
  ultimately show ?thesis using r by blast
qed

lemma kmalloc_init_empty:
  assumes "free_frames p = {}"
  shows "\<exists>h'. kmalloc_init p h = Inr (p, h') \<and> heap_inv h' [] []"
proof -
  have "kmalloc_pull 0 0 p = (0, 0, p)"
    using assms by (subst kmalloc_pull.simps) (simp add: KMALLOC_INIT_FRAMES_def pmm_alloc_frame_eq)
  then show ?thesis by (simp add: kmalloc_init_def heap_inv_def)
qed

section \<open>The heap contract\<close>

text \<open>The run of frames behind a block, and the sizes whose frame count does not wrap.\<close>

definition run_of :: "block \<Rightarrow> run" where
  "run_of b = (unat (fst b) div 4096, unat (frames_for (snd b)))"

definition size_ok :: "u64 \<Rightarrow> bool" where
  "size_ok sz \<longleftrightarrow> unat sz + 4111 < 2 ^ 64"

definition block_ok :: "block \<Rightarrow> bool" where
  "block_ok b \<longleftrightarrow> fst b = frame_addr (fst (run_of b)) + 16 \<and> size_ok (snd b)"

text \<open>The heap with live blocks \<open>L\<close> over the pool \<open>P\<close> of frames.\<close>

definition heap_blocks :: "nat set \<Rightarrow> heap \<Rightarrow> block list \<Rightarrow> bool" where
  "heap_blocks P h L \<longleftrightarrow>
     (\<exists>fl. heap_inv h fl (map run_of L) \<and> set (all_frames (fl @ map run_of L)) = P)
   \<and> list_all block_ok L"

lemma heap_blocks_initial: "heap_inv h [(f, i)] [] \<Longrightarrow> heap_blocks {f..<f + i} h []"
  unfolding heap_blocks_def by (rule conjI, rule exI [of _ "[(f, i)]"]) (simp_all add: run_list_def)

text \<open>A client's store into the heap's memory.\<close>

definition poke :: "u64 \<Rightarrow> u8 \<Rightarrow> heap \<Rightarrow> heap" where
  "poke x v h = h\<lparr>mem := (mem h)(x := v)\<rparr>"

lemma unat_block_ptr: "f < 262144 \<Longrightarrow> unat (frame_addr f + 16) = f * 4096 + 16"
  by (simp add: unat_add_small unat_frame_addr)

lemma run_of_ptr: "f < 262144 \<Longrightarrow> run_of (frame_addr f + 16, sz) = (f, unat (frames_for sz))"
  by (simp add: run_of_def unat_block_ptr)

text \<open>A block's bytes lie in its run, behind the header.\<close>

lemma frames_for_enough:
  assumes "size_ok sz"
  shows "max 1 (unat sz) + 16 \<le> unat (frames_for sz) * 4096"
proof -
  have "unat (frames_for sz) = (max 1 (unat sz) + 4111) div 4096"
    using assms by (intro unat_frames_for) (simp add: size_ok_def)
  then show ?thesis by linarith
qed

lemma block_bytes_in_run:
  assumes "block_ok b" "run_ok (run_of b)" "x \<in> block_bytes b"
  shows "fst (run_of b) * 4096 + 16 \<le> x \<and> x < (fst (run_of b) + snd (run_of b)) * 4096"
proof -
  have "unat (fst b) = fst (run_of b) * 4096 + 16"
    using assms(1,2) unat_block_ptr [of "fst (run_of b)"] by (simp add: block_ok_def run_ok_def)
  moreover have "unat (snd b) + 16 \<le> snd (run_of b) * 4096"
    using frames_for_enough [of "snd b"] assms(1) by (simp add: block_ok_def run_of_def)
  ultimately show ?thesis using assms(3) by (auto simp: block_bytes_def algebra_simps)
qed

lemma frame_of_run_byte:
  "f * 4096 \<le> x \<Longrightarrow> x < (f + k) * 4096 \<Longrightarrow> x div 4096 \<in> set (run_list (f, k))"
  by (auto simp: run_list_def less_mult_imp_div_less)

lemma block_frame:
  assumes "block_ok b" "run_ok (run_of b)" "x \<in> block_bytes b"
  shows "x div 4096 \<in> set (run_list (run_of b))"
  using block_bytes_in_run [OF assms] frame_of_run_byte [of "fst (run_of b)" x "snd (run_of b)"] by simp

lemma disjoint_runs:
  assumes "distinct (all_frames rs)" "r \<in> set rs" "r' \<in> set rs" "r \<noteq> r'"
  shows "set (run_list r) \<inter> set (run_list r') = {}"
  using assms
proof (induction rs)
  case (Cons s rs)
  have "set (run_list t) \<subseteq> set (all_frames rs)" if "t \<in> set rs" for t
    using that by (auto simp: set_all_frames)
  with Cons show ?case by fastforce
qed simp

text \<open>Bytes outside the touched frames' first sixteen are the same.\<close>

lemma touches_only_agree:
  assumes t: "touches_only rs h h'" and d: "distinct (all_frames (rs @ map run_of L))"
    and ok: "list_all run_ok (map run_of L)" "list_all block_ok L"
  shows "agree_on L (mem h) (mem h')"
  unfolding agree_on_def
proof (intro ballI allI impI)
  fix b and x :: u64
  assume b: "b \<in> set L" and x: "unat x \<in> block_bytes b"
  then have bo: "block_ok b" "run_ok (run_of b)" using ok by (auto simp: list_all_iff)
  show "mem h' x = mem h x"
  proof (rule ccontr)
    assume "mem h' x \<noteq> mem h x"
    with t obtain g where g: "g \<in> set (all_frames rs)" "g * 4096 \<le> unat x" "unat x < g * 4096 + 16"
      unfolding touches_only_def by blast
    then have "unat x div 4096 = g" by (intro div_nat_eqI) auto
    with block_frame [OF bo x] b have "g \<in> set (all_frames (map run_of L))"
      by (auto simp: set_all_frames)
    with g(1) d show False by auto
  qed
qed

lemma heap_blocks_starts:
  assumes "heap_blocks P h L"
  shows "distinct L \<and> inj_on run_of (set L) \<and> list_all run_ok (map run_of L) \<and> distinct (all_frames (map run_of L))"
proof -
  from assms have "list_all run_ok (map run_of L)" "distinct (all_frames (map run_of L))"
    by (auto simp: heap_blocks_def heap_inv_def)
  moreover from this have "distinct (map run_of L)"
    using distinct_starts [of "map run_of L"] by (auto simp: distinct_map intro: inj_on_imageI2)
  ultimately show ?thesis by (simp add: distinct_map)
qed

lemma map_remove1_inj: "inj_on f (insert x (set xs)) \<Longrightarrow> map f (remove1 x xs) = remove1 (f x) (map f xs)"
  by (induction xs) (auto simp: inj_on_def)

text \<open>A store outside the first sixteen bytes of the frame keeps a node or header cell.\<close>

lemma get64_upd_outside:
  assumes "g < 262144" "\<not> (g * 4096 \<le> unat x \<and> unat x < g * 4096 + 16)"
  shows "get64 (m(x := v)) (frame_addr g) = get64 m (frame_addr g)"
    and "get64 (m(x := v)) (frame_addr g + 8) = get64 m (frame_addr g + 8)"
proof -
  have c0: "frame_addr g + of_nat i \<noteq> x" if "i < 8" for i
    using that assms unat_add_of_nat [of "frame_addr g" i] by (auto simp: unat_frame_addr)
  show "get64 (m(x := v)) (frame_addr g) = get64 m (frame_addr g)"
    using c0 by (intro get64_cong) simp
  have c8: "frame_addr g + 8 + of_nat i \<noteq> x" if "i < 8" for i
    using that assms unat_add_of_nat [of "frame_addr g + 8" i] by (auto simp: unat_frame_cell8)
  show "get64 (m(x := v)) (frame_addr g + 8) = get64 m (frame_addr g + 8)"
    using c8 by (intro get64_cong) simp
qed

lemma poke_inv:
  assumes inv: "heap_inv h fl al" and r: "r \<in> set al"
    and x: "fst r * 4096 + 16 \<le> unat x" "unat x < (fst r + snd r) * 4096"
  shows "heap_inv (poke x v h) fl al"
proof -
  from inv have ok: "list_all run_ok (fl @ al)" and d: "distinct (all_frames (fl @ al))"
    by (auto simp: heap_inv_def)
  have xr: "unat x div 4096 \<in> set (run_list r)"
    using x frame_of_run_byte [of "fst r" "unat x" "snd r"] by simp
  have cell: "get64 (mem (poke x v h)) (frame_addr (fst s)) = get64 (mem h) (frame_addr (fst s))
      \<and> get64 (mem (poke x v h)) (frame_addr (fst s) + 8) = get64 (mem h) (frame_addr (fst s) + 8)"
    if s: "s \<in> set (fl @ al)" for s
  proof -
    have "run_ok s" using ok s by (auto simp: list_all_iff)
    then have b: "fst s < 262144" and st: "fst s \<in> set (run_list s)"
      by (auto simp: run_ok_def run_list_def)
    have "\<not> (fst s * 4096 \<le> unat x \<and> unat x < fst s * 4096 + 16)"
    proof
      assume a: "fst s * 4096 \<le> unat x \<and> unat x < fst s * 4096 + 16"
      then have "unat x div 4096 = fst s" by (intro div_nat_eqI) auto
      with st xr disjoint_runs [OF d s, of r] r have "s = r" by auto
      with a x(1) show False by simp
    qed
    from get64_upd_outside [OF b this, of "mem h"] show ?thesis by (simp add: poke_def)
  qed
  have "free_path (mem (poke x v h)) (g_free_list h) fl 0 = free_path (mem h) (g_free_list h) fl 0"
    using cell by (intro free_path_cong) auto
  moreover have "header_ok (mem (poke x v h)) s = header_ok (mem h) s" if "s \<in> set al" for s
    using cell [of s] that by (simp add: header_ok_def)
  ultimately show ?thesis using inv by (auto simp: heap_inv_def poke_def list_all_iff)
qed

section \<open>The contract holds for kmalloc and kfree\<close>

lemma kmalloc_first_fit:
  assumes "heap_inv h fl al" "size_ok sz"
  shows "case first_fit (unat (frames_for sz)) fl of
      None \<Rightarrow> kmalloc sz h = Some (Inr (0, h))
    | Some (f, fl') \<Rightarrow> \<exists>h'. kmalloc sz h = Some (Inr (frame_addr f + 16, h'))
        \<and> heap_inv h' fl' ((f, unat (frames_for sz)) # al) \<and> touches_only fl h h'
        \<and> mset (all_frames (fl' @ (f, unat (frames_for sz)) # al)) = mset (all_frames (fl @ al))"
proof -
  have "link_of [] = Link_head" by (simp add: link_of_def)
  moreover have "mset (all_frames (fl' @ (f, unat (frames_for sz)) # al)) = mset (all_frames (fl @ al))"
    if "first_fit (unat (frames_for sz)) fl = Some (f, fl')" for f fl'
    using first_fit_run [OF that] take_run_frames frames_for_positive [of sz] assms(2)
    by (auto simp: size_ok_def simp del: all_frames_simps)
  ultimately show ?thesis
    using kmalloc_walk_none [of h "[]" fl al "frames_for sz"] frames_for_positive [of sz]
      kmalloc_walk_some [of h "[]" fl al "frames_for sz"] assms
    by (auto simp: kmalloc_def size_ok_def simp del: all_frames_simps split: option.splits)
qed

lemma kmalloc_block:
  assumes "heap_blocks P h L" "size_ok sz"
  shows "kmalloc sz h = Some (Inr (0, h)) \<or>
    (\<exists>p h'. kmalloc sz h = Some (Inr (p, h')) \<and> p \<noteq> 0 \<and> heap_blocks P h' ((p, sz) # L)
       \<and> agree_on L (mem h) (mem h'))"
proof -
  obtain fl where inv: "heap_inv h fl (map run_of L)" and ok: "list_all block_ok L"
    and pool: "set (all_frames (fl @ map run_of L)) = P"
    using assms(1) unfolding heap_blocks_def by blast
  show ?thesis
  proof (cases "first_fit (unat (frames_for sz)) fl")
    case None
    with kmalloc_first_fit [OF inv assms(2)] show ?thesis by simp
  next
    case (Some a)
    obtain f fl' where a: "a = (f, fl')" by fastforce
    from kmalloc_first_fit [OF inv assms(2)] Some a obtain h' where
      h': "kmalloc sz h = Some (Inr (frame_addr f + 16, h'))" "touches_only fl h h'"
      "heap_inv h' fl' ((f, unat (frames_for sz)) # map run_of L)"
      "mset (all_frames (fl' @ (f, unat (frames_for sz)) # map run_of L)) = mset (all_frames (fl @ map run_of L))"
      by (auto simp del: all_frames_simps)
    then have f: "f < 262144" by (simp add: heap_inv_def run_ok_def)
    then have "heap_blocks P h' ((frame_addr f + 16, sz) # L)"
      using h'(3) mset_eq_setD [OF h'(4)] pool ok assms(2)
      by (auto simp: heap_blocks_def run_of_ptr block_ok_def simp del: all_frames_simps)
    moreover have "agree_on L (mem h) (mem h')"
      using inv ok by (intro touches_only_agree [OF h'(2)]) (auto simp: heap_inv_def)
    ultimately show ?thesis using h'(1) block_ptr_nonzero [OF f] by blast
  qed
qed

lemma free_run_touches: "run_ok r \<Longrightarrow> touches_only [r] h (free_run r h)"
proof -
  assume r: "run_ok r"
  then have ok: "list_all run_ok [r]" and s: "fst r \<in> set (all_frames [r])"
    by (auto intro: start_in_run)
  have "touches_only [r] h (h\<lparr>mem := put64 (frame_addr (fst r)) 0 (mem h)\<rparr>)"
    by (rule touches_only_put64(1) [OF ok s]) simp
  from touches_only_put64(1) [OF ok s this, of "g_free_list h"]
  have "touches_only [r] h (h\<lparr>mem := put64 (frame_addr (fst r)) (g_free_list h)
      (put64 (frame_addr (fst r)) 0 (mem h))\<rparr>)" by simp
  from touches_only_put64(2) [OF ok s this, of "of_nat (snd r)"] show ?thesis
    by (rule touches_only_mem [rotated]) (simp add: free_run_def)
qed

lemma kfree_block:
  assumes "heap_blocks P h L" "b \<in> set L"
  shows "\<exists>h'. kfree (fst b) h = Inr h' \<and> heap_blocks P h' (remove1 b L)
    \<and> agree_on (remove1 b L) (mem h) (mem h')"
proof -
  obtain fl where inv: "heap_inv h fl (map run_of L)" and ok: "list_all block_ok L"
    and pool: "set (all_frames (fl @ map run_of L)) = P"
    using assms(1) unfolding heap_blocks_def by blast
  have r: "run_of b \<in> set (map run_of L)" using assms(2) by simp
  have run: "run_ok (run_of b)" and hd: "header_ok (mem h) (run_of b)"
    using inv assms(2) by (auto simp: heap_inv_def list_all_iff)
  have "fst b = frame_addr (fst (run_of b)) + 16"
    using ok assms(2) by (auto simp: list_all_iff block_ok_def)
  with kfree_eq [OF run hd] have k: "kfree (fst b) h = Inr (free_run (run_of b) h)" by simp
  have rem: "map run_of (remove1 b L) = remove1 (run_of b) (map run_of L)"
    using heap_blocks_starts [OF assms(1)] assms(2) by (simp add: map_remove1_inj insert_absorb)
  have ok': "list_all block_ok (remove1 b L)"
    using ok notin_set_remove1 by (fastforce simp: list_all_iff)
  have inv': "heap_inv (free_run (run_of b) h) (run_of b # fl) (map run_of (remove1 b L))"
    unfolding rem by (rule free_run_inv [OF inv r])
  then have "agree_on (remove1 b L) (mem h) (mem (free_run (run_of b) h))"
    using ok' by (intro touches_only_agree [OF free_run_touches [OF run]]) (auto simp: heap_inv_def)
  moreover have "mset (all_frames ((run_of b # fl) @ map run_of (remove1 b L)))
      = mset (all_frames (fl @ map run_of L))"
    using mset_all_frames_remove1 [OF r] by (simp add: rem ac_simps)
  then have "set (all_frames ((run_of b # fl) @ map run_of (remove1 b L))) = P"
    using pool by (metis mset_eq_setD)
  ultimately show ?thesis using k inv' ok' unfolding heap_blocks_def by blast
qed

interpretation kheap: heap_allocator kmalloc kfree mem poke size_ok "heap_blocks P" for P
proof unfold_locales
  fix h L and b b' :: block and x v
  assume hb: "heap_blocks P h L"
  note starts = heap_blocks_starts [OF hb]
  show "distinct L" using starts by simp
  assume b: "b \<in> set L"
  obtain fl where inv: "heap_inv h fl (map run_of L)" and ok: "list_all block_ok L"
    and pool: "set (all_frames (fl @ map run_of L)) = P"
    using hb unfolding heap_blocks_def by blast
  have bo: "block_ok b" "run_ok (run_of b)" using ok starts b by (auto simp: list_all_iff)
  show "heap_blocks P (poke x v h) L" if x: "unat x \<in> block_bytes b"
    using poke_inv [OF inv, of "run_of b" x v] block_bytes_in_run [OF bo x] b ok pool
    unfolding heap_blocks_def by auto
  show "block_bytes b \<inter> block_bytes b' = {}" if b': "b' \<in> set L" "b \<noteq> b'"
  proof -
    have "block_ok b'" "run_ok (run_of b')" using ok starts b' by (auto simp: list_all_iff)
    moreover have "run_of b \<noteq> run_of b'" using starts b b' by (auto simp: inj_on_def)
    then have "set (run_list (run_of b)) \<inter> set (run_list (run_of b')) = {}"
      using starts b b' by (intro disjoint_runs [of "map run_of L"]) auto
    ultimately show ?thesis using block_frame [OF bo] block_frame [of b'] by blast
  qed
qed (simp_all add: kmalloc_block kfree_block poke_def)

end
