(* ===== verification/Heap_Properties.thy ===== *)
theory Heap_Properties
  imports Kmalloc
begin

text \<open>
  The properties of the kernel heap: first-fit refinement, the client guarantee, release,
  double release, the pool taken from the frame allocator, and the request sizes and pointers for
  which the code departs from its header file.
\<close>

section \<open>A heap for the witnesses\<close>

text \<open>The heap as \<open>kmalloc_init\<close> leaves it with 64 frames from frame 256 on.\<close>

definition sample_heap :: heap where
  "sample_heap = \<lparr>mem = put64 (frame_addr 256 + 8) 64 (put64 (frame_addr 256) 0 (\<lambda>_. 0)),
     g_free_list = frame_addr 256, g_free_frames = 64, g_used_frames = 0\<rparr>"

lemma sample_heap_inv: "heap_inv sample_heap [(256, 64)] []"
  by (simp add: heap_inv_def sample_heap_def run_ok_def run_list_def)

lemma sample_heap_blocks: "heap_blocks {256..<320} sample_heap []"
  using heap_blocks_initial [OF sample_heap_inv] by simp

text \<open>The same heap with one block of one frame handed out.\<close>

definition used_heap :: heap where
  "used_heap = \<lparr>mem = put64 (frame_addr 256 + 8) 1 (put64 (frame_addr 256) KMALLOC_MAGIC
       (put64 (frame_addr 257 + 8) 63 (put64 (frame_addr 257) 0 (\<lambda>_. 0)))),
     g_free_list = frame_addr 257, g_free_frames = 63, g_used_frames = 1\<rparr>"

lemma used_heap_inv: "heap_inv used_heap [(257, 63)] [(256, 1)]"
  by (simp add: heap_inv_def used_heap_def run_ok_def run_list_def header_ok_def)

section \<open>Allocation\<close>

text \<open>
  C3: \<open>kmalloc\<close> refines first fit with split.  On a well-formed heap it always returns, never
  faults, and takes exactly the run of \<open>ceil((max 1 size + 16) / 4096)\<close> frames that first fit
  takes from the list of free runs; when no run is large enough it returns NULL and leaves the heap
  untouched.  The request must be at most \<open>2^64 - 4112\<close> bytes, where the rounding does not wrap.
\<close>

theorem kmalloc_refines_first_fit:
  assumes "heap_inv h fl al" "unat sz + 4111 < 2 ^ 64"
  shows "case first_fit ((max 1 (unat sz) + 4111) div 4096) fl of
      None \<Rightarrow> kmalloc sz h = Some (Inr (0, h))
    | Some (f, fl') \<Rightarrow> \<exists>h'. kmalloc sz h = Some (Inr (frame_addr f + 16, h'))
        \<and> heap_inv h' fl' ((f, (max 1 (unat sz) + 4111) div 4096) # al)"
proof -
  have "size_ok sz" using assms(2) by (simp add: size_ok_def)
  from kmalloc_first_fit [OF assms(1) this] show ?thesis
    unfolding unat_frames_for [OF assms(2)] by (auto split: option.splits)
qed

theorem kmalloc_refines_first_fit_witness:
  "\<exists>h'. kmalloc 5000 sample_heap = Some (Inr (0x100010, h')) \<and> heap_inv h' [(258, 62)] [(256, 2)]"
  using kmalloc_refines_first_fit [OF sample_heap_inv, of 5000] by (simp add: frame_addr_def)

text \<open>
  C4: the client guarantee, from \<open>kmalloc_init\<close> on.  Whatever a client does, allocating at
  will, releasing blocks it holds, writing inside its blocks: the live blocks never overlap, lie
  inside the pool's frames, which the frame allocator no longer has, and the two counters add up to
  the size of the pool.
\<close>

theorem heap_client_safe:
  assumes "pmm_inv p" "free_frames p \<noteq> {}" "kmalloc_init p h0 = Inr (q, h)"
    and "heap_run kmalloc kfree poke size_ok (h, []) evs (h', L)"
  shows "\<exists>P. P \<subseteq> free_frames p \<and> P \<inter> free_frames q = {}
    \<and> (\<forall>b\<in>set L. \<forall>b'\<in>set L. b \<noteq> b' \<longrightarrow> block_bytes b \<inter> block_bytes b' = {})
    \<and> (\<forall>b\<in>set L. \<forall>x\<in>block_bytes b. x div 4096 \<in> P)
    \<and> unat (kmalloc_free_frames h') + unat (kmalloc_used_frames h') = card P"
proof -
  let ?f = "Min (free_frames p)"
  obtain i where i: "pulled (free_frames p) ?f 0 i (free_frames q)" "heap_inv h [(?f, i)] []"
    using kmalloc_init_pool [OF assms(1,2), of h0] assms(3) by auto
  define P where "P = {?f..<?f + i}"
  have "heap_blocks P h []"
    unfolding P_def by (rule heap_blocks_initial [OF i(2)])
  with kheap.run_keeps [OF assms(4)] have hb: "heap_blocks P h' L" by simp
  then obtain fl where inv: "heap_inv h' fl (map run_of L)" "list_all block_ok L"
    and pool: "set (all_frames (fl @ map run_of L)) = P" unfolding heap_blocks_def by blast
  then have "card P = length (all_frames (fl @ map run_of L))"
    using distinct_card [of "all_frames (fl @ map run_of L)"] by (simp add: heap_inv_def)
  with inv have count: "unat (kmalloc_free_frames h') + unat (kmalloc_used_frames h') = card P"
    by (simp add: heap_inv_def kmalloc_free_frames_def kmalloc_used_frames_def)
  have inside: "x div 4096 \<in> P" if "b \<in> set L" "x \<in> block_bytes b" for b x
  proof -
    have "block_ok b" "run_ok (run_of b)"
      using that(1) inv heap_blocks_starts [OF hb] by (auto simp: list_all_iff)
    with that block_frame [of b x] pool show ?thesis by (auto simp: set_all_frames)
  qed
  have "P \<subseteq> free_frames p" "P \<inter> free_frames q = {}"
    using pulled_sets [OF i(1)] by (simp_all add: P_def)
  then show ?thesis
    by (intro exI [of _ P] conjI ballI impI inside count kheap.blocks_apart [OF hb])
qed

definition blank_heap :: heap where
  "blank_heap = \<lparr>mem = (\<lambda>_. 0), g_free_list = 0, g_free_frames = 0, g_used_frames = 0\<rparr>"

lemma sample_init: "\<exists>q h. kmalloc_init sample_pmm blank_heap = Inr (q, h) \<and> heap_inv h [(256, 2)] []"
proof -
  obtain i q h where r: "kmalloc_init sample_pmm blank_heap = Inr (q, h)"
    "pulled {256, 257} 256 0 i (free_frames q)" "heap_inv h [(256, i)] []" "0 < i"
    using kmalloc_init_pool [OF sample_pmm_inv, of blank_heap] by (auto simp: sample_pmm_free)
  have "{256..<256 + i} \<subseteq> {256, 257}" "i < 64 \<longrightarrow> 256 + i \<notin> {256, 257}"
    using r(2) by (auto simp: pulled_def)
  moreover have "256 + (i - 1) \<in> {256..<256 + i}" using r(4) by simp
  ultimately have "256 + (i - 1) \<in> {256, 257}" "i < 64 \<longrightarrow> 256 + i \<notin> {256, 257}" by blast+
  then have "i = 2" using r(4) by auto
  with r show ?thesis by blast
qed

theorem heap_client_safe_witness:
  "\<exists>q h h' p P. kmalloc_init sample_pmm blank_heap = Inr (q, h)
     \<and> heap_run kmalloc kfree poke size_ok (h, []) [Malloc 100 p] (h', [(p, 100)])
     \<and> P \<subseteq> {256, 257} \<and> P \<inter> free_frames q = {}
     \<and> unat (kmalloc_free_frames h') + unat (kmalloc_used_frames h') = card P"
proof -
  obtain q h where q: "kmalloc_init sample_pmm blank_heap = Inr (q, h)" "heap_inv h [(256, 2)] []"
    using sample_init by blast
  have "size_ok 100" "unat (frames_for 100) = 1" by (simp_all add: size_ok_def unat_frames_for)
  with kmalloc_first_fit [OF q(2), of 100] obtain h' where
    "kmalloc 100 h = Some (Inr (frame_addr 256 + 16, h'))" by auto
  with heap_step.got_block [of size_ok 100 kmalloc h "frame_addr 256 + 16" h' kfree poke "[]"]
  have run: "heap_run kmalloc kfree poke size_ok (h, []) [Malloc 100 (frame_addr 256 + 16)]
      (h', [(frame_addr 256 + 16, 100)])"
    using heap_run.run_snoc [OF heap_run.run_nil] \<open>size_ok 100\<close> block_ptr_nonzero [of 256] by fastforce
  from heap_client_safe [OF sample_pmm_inv _ q(1) run] sample_pmm_free obtain P where
    "P \<subseteq> {256, 257}" "P \<inter> free_frames q = {}"
    "unat (kmalloc_free_frames h') + unat (kmalloc_used_frames h') = card P" by auto
  with q(1) run show ?thesis by blast
qed

text \<open>
  C32: a block keeps its contents.  Through any sequence of client steps in which its owner
  neither releases nor writes it, whatever else is allocated, released or written in between, a live
  block stays live and all its bytes stay the same.
\<close>

theorem heap_block_contents_stable:
  assumes "heap_blocks P h L" "b \<in> set L"
    and "heap_run kmalloc kfree poke size_ok (h, L) evs (h', L')" "list_all (spares b) evs"
  shows "b \<in> set L' \<and> (\<forall>x. unat x \<in> block_bytes b \<longrightarrow> mem h' x = mem h x)"
  using kheap.run_spares [OF assms(3)] assms by (simp add: agree_on_def)

theorem heap_block_contents_stable_witness:
  "\<exists>h'. heap_run kmalloc kfree poke size_ok (used_heap, [(0x100010, 8)]) [Malloc 8 0x101010] (h', [(0x101010, 8), (0x100010, 8)])
     \<and> mem h' 0x100012 = mem used_heap 0x100012"
proof -
  have s: "size_ok 8" "unat (frames_for 8) = 1" by (simp_all add: size_ok_def unat_frames_for)
  with kmalloc_first_fit [OF used_heap_inv, of 8] obtain h' where
    "kmalloc 8 used_heap = Some (Inr (0x101010, h'))" by (auto simp: frame_addr_def)
  with heap_step.got_block [of size_ok 8 kmalloc used_heap "0x101010" h' kfree poke "[(0x100010, 8)]"] s
  have run: "heap_run kmalloc kfree poke size_ok (used_heap, [(0x100010, 8)]) [Malloc 8 0x101010]
      (h', [(0x101010, 8), (0x100010, 8)])"
    using heap_run.run_snoc [OF heap_run.run_nil] by fastforce
  have "heap_blocks (set (all_frames ([(257, 63)] @ map run_of [(0x100010, 8)]))) used_heap [(0x100010, 8)]"
    unfolding heap_blocks_def using used_heap_inv s
    by (intro conjI exI [of _ "[(257, 63)]"]) (simp_all add: run_of_def block_ok_def frame_addr_def)
  from heap_block_contents_stable [OF this _ run, of "(0x100010, 8)"]
  have "mem h' 0x100012 = mem used_heap 0x100012" by (auto simp: block_bytes_def)
  with run show ?thesis by blast
qed

section \<open>Release\<close>

text \<open>
  C17: \<open>kfree\<close> of a live block always succeeds: the whole run moves to the head of the free
  list, the counters follow, and only the first sixteen bytes of the run's first frame are written.
\<close>

theorem kfree_releases_run:
  assumes "heap_inv h fl al" "(f, k) \<in> set al"
  shows "\<exists>h'. kfree (frame_addr f + 16) h = Inr h' \<and> heap_inv h' ((f, k) # fl) (remove1 (f, k) al)
    \<and> (\<forall>x. \<not> (f * 4096 \<le> unat x \<and> unat x < f * 4096 + 16) \<longrightarrow> mem h' x = mem h x)"
proof -
  have run: "run_ok (f, k)" and hd: "header_ok (mem h) (f, k)"
    using assms by (auto simp: heap_inv_def list_all_iff)
  have "mem (free_run (f, k) h) x = mem h x" if "\<not> (f * 4096 \<le> unat x \<and> unat x < f * 4096 + 16)" for x
    using that run unat_frame_addr [of f] unat_frame_cell8 [of f]
    by (auto simp: free_run_def run_ok_def put64_def)
  with kfree_eq [OF run hd] free_run_inv [OF assms] show ?thesis by auto
qed

theorem kfree_releases_run_witness:
  "\<exists>h'. kfree 0x100010 used_heap = Inr h' \<and> heap_inv h' [(256, 1), (257, 63)] []"
  using kfree_releases_run [OF used_heap_inv, of 256 1] by (auto simp: frame_addr_def)

text \<open>
  C33: releasing a block twice is harmless: the second \<open>kfree\<close> changes nothing.  The first one
  replaced the magic by the next pointer, an address below 1GB, which never equals the magic.
\<close>

theorem kfree_double_free_ignored:
  assumes "heap_inv h fl al" "(f, k) \<in> set al" "kfree (frame_addr f + 16) h = Inr h'"
  shows "kfree (frame_addr f + 16) h' = Inr h'"
proof -
  have run: "run_ok (f, k)" and hd: "header_ok (mem h) (f, k)"
    using assms by (auto simp: heap_inv_def list_all_iff)
  then have f: "f < 262144" by (simp add: run_ok_def)
  have h': "h' = free_run (f, k) h" using kfree_eq [OF run hd] assms(3) by simp
  have "unat (g_free_list h) < 262144 * 4096"
  proof (cases fl)
    case (Cons r rs)
    with assms(1) have "g_free_list h = frame_addr (fst r)" "run_ok r"
      by (cases r; simp add: heap_inv_def)+
    then show ?thesis using unat_frame_addr [of "fst r"] by (simp add: run_ok_def)
  qed (use assms(1) in \<open>simp add: heap_inv_def\<close>)
  then have "g_free_list h \<noteq> KMALLOC_MAGIC" by (auto simp: KMALLOC_MAGIC_def)
  then show ?thesis
    using f block_ptr_nonzero [OF f]
    by (simp add: h' kfree_def sizeof_kmalloc_header_def free_run_def Let_def)
qed

theorem kfree_double_free_ignored_witness:
  "\<exists>h'. kfree 0x100010 used_heap = Inr h' \<and> kfree 0x100010 h' = Inr h'"
proof -
  obtain h' where "kfree (frame_addr 256 + 16) used_heap = Inr h'"
    using kfree_eq [of "(256, 1)" used_heap] used_heap_inv by (auto simp: heap_inv_def)
  with kfree_double_free_ignored [OF used_heap_inv, of 256 1] show ?thesis
    by (auto simp: frame_addr_def)
qed

text \<open>
  \<open>kfree\<close> ignores NULL, and every pointer into the mapped gigabyte that is not preceded by
  the magic, or whose header says zero frames.
\<close>

theorem kfree_ignores_unstamped:
  assumes "ptr = 0 \<or> (mapped (ptr - 16) 8 \<and> get64 (mem h) (ptr - 16) \<noteq> KMALLOC_MAGIC)
    \<or> (mapped (ptr - 16) 8 \<and> mapped (ptr - 16 + 8) 8 \<and> get64 (mem h) (ptr - 16 + 8) = 0)"
  shows "kfree ptr h = Inr h"
  using assms by (auto simp: kfree_def sizeof_kmalloc_header_def ld_def load64_def Let_def)

theorem kfree_ignores_unstamped_witness:
  "kfree 0 used_heap = Inr used_heap \<and> kfree 0x101010 used_heap = Inr used_heap"
proof -
  have "get64 (mem used_heap) (frame_addr 257) = 0" by (simp add: used_heap_def)
  then have "get64 (mem used_heap) (0x101010 - 16) \<noteq> KMALLOC_MAGIC"
    by (simp add: frame_addr_def KMALLOC_MAGIC_def)
  with kfree_ignores_unstamped [of 0 used_heap] kfree_ignores_unstamped [of "0x101010" used_heap]
  show ?thesis by (simp add: mapped_def)
qed

text \<open>
  C35: the documented promise that \<open>kfree\<close> ignores "addresses outside the PMM window" with "no
  fault" does not hold: there is no window check, and the header of such a pointer is read, which
  faults for every non-NULL pointer whose header lies outside the identity map, or runs over its end.
\<close>

theorem kfree_outside_window_faults:
  assumes "ptr \<noteq> 0" "\<not> mapped (ptr - 16) 8"
  shows "kfree ptr h = Inl (if mapped (ptr - 16) 1 then Page_fault 0x40000000 else access_fault (ptr - 16))"
  using assms by (simp add: kfree_def sizeof_kmalloc_header_def ld_def load64_def wide_fault_def Let_def)

theorem kfree_outside_window_faults_witness:
  "kfree 0x40000010 sample_heap = Inl (Page_fault 0x40000000)
   \<and> kfree 8 sample_heap = Inl (Page_fault 0xFFFFFFFFFFFFFFF8)"
  using kfree_outside_window_faults [of "0x40000010" sample_heap]
    kfree_outside_window_faults [of 8 sample_heap]
  by (simp add: mapped_def access_fault_def)

section \<open>The pool\<close>

text \<open>
  \<open>kmalloc_init\<close> on a frame allocator with memory left: it does not fault, and the heap is
  one free run of between 1 and 64 frames, starting at the lowest free frame; the pool consists of
  frames that were free, none of them is free afterwards, and it is shorter than 64 frames only if
  the frame behind it was not free.  With no memory left the heap is empty and every allocation
  returns NULL.
\<close>

theorem kmalloc_init_takes_pool:
  assumes "pmm_inv p"
  shows "if free_frames p = {}
    then \<exists>h'. kmalloc_init p h = Inr (p, h') \<and> (\<forall>sz. 0 < unat (frames_for sz) \<longrightarrow> kmalloc sz h' = Some (Inr (0, h')))
    else \<exists>q h' f i. kmalloc_init p h = Inr (q, h') \<and> heap_inv h' [(f, i)] []
      \<and> f = Min (free_frames p) \<and> 0 < i \<and> i \<le> 64 \<and> {f..<f + i} \<subseteq> free_frames p
      \<and> {f..<f + i} \<inter> free_frames q = {} \<and> (i < 64 \<longrightarrow> f + i \<notin> free_frames p) \<and> pmm_inv q"
proof (cases "free_frames p = {}")
  case True
  with kmalloc_init_empty [OF True, of h] show ?thesis
    using kmalloc_walk_none [of _ "[]" "[]" "[]"] by (auto simp: kmalloc_def link_of_def)
next
  case False
  let ?f = "Min (free_frames p)"
  obtain i q h' where r: "kmalloc_init p h = Inr (q, h')" "0 < i" "pmm_inv q"
    "pulled (free_frames p) ?f 0 i (free_frames q)" "heap_inv h' [(?f, i)] []"
    using kmalloc_init_pool [OF assms False, of h] by blast
  have "i \<le> 64" "i < 64 \<longrightarrow> ?f + i \<notin> free_frames p" using r(4) by (auto simp only: pulled_def)
  with r pulled_sets [OF r(4)] False show ?thesis
    by (simp only: if_False add_0_right) blast
qed

theorem kmalloc_init_takes_pool_witness:
  "\<exists>q h' i. kmalloc_init sample_pmm blank_heap = Inr (q, h') \<and> heap_inv h' [(256, i)] []
     \<and> {256..<256 + i} \<subseteq> {256, 257} \<and> {256..<256 + i} \<inter> free_frames q = {}"
proof -
  have "Min (free_frames sample_pmm) = 256" "free_frames sample_pmm \<noteq> {}"
    by (simp_all add: sample_pmm_free)
  with kmalloc_init_takes_pool [OF sample_pmm_inv, of blank_heap] show ?thesis
    unfolding sample_pmm_free by auto
qed

text \<open>
  When the pull stops at a frame that is not contiguous with the pool, that frame has been
  allocated and is dropped: it is neither in the heap nor free in the frame allocator, although the
  comment in the source claims that every frame pulled is owned by the heap.
\<close>

theorem kmalloc_init_loses_frame:
  assumes "pmm_inv p" "f \<in> free_frames p" "\<forall>g\<in>free_frames p. f \<le> g"
    and "{f..<f + i} \<subseteq> free_frames p" "0 < i" "i < 64" "f + i \<notin> free_frames p"
    and "g \<in> free_frames p" "f + i < g" "\<forall>g'\<in>free_frames p. f + i < g' \<longrightarrow> g \<le> g'"
  shows "\<exists>q h'. kmalloc_init p h = Inr (q, h') \<and> heap_inv h' [(f, i)] [] \<and> g \<notin> free_frames q"
proof -
  have ne: "free_frames p \<noteq> {}" and m: "Min (free_frames p) = f"
    using assms(2,3) by (auto intro!: Min_eqI)
  obtain j q h' where r: "kmalloc_init p h = Inr (q, h')" "0 < j"
    "pulled (free_frames p) f 0 j (free_frames q)" "heap_inv h' [(f, j)] []"
    using kmalloc_init_pool [OF assms(1) ne, of h] m by auto
  have j: "{f..<f + j} \<subseteq> free_frames p" "j < 64 \<Longrightarrow> f + j \<notin> free_frames p" "j \<le> 64"
    "j < 64 \<Longrightarrow> free_frames q = free_frames p - {f..<f + j} - {Min (free_frames p - {f..<f + j})}"
    using r(3) by (auto simp only: pulled_def add_0_right if_True)
  have "\<not> j < i" using assms(4,6) j(2) by (auto simp: subset_iff)
  moreover have "\<not> i < j" using assms(7) j(1) by (auto simp: subset_iff)
  ultimately have ji: "j = i" by simp
  have "Min (free_frames p - {f..<f + i}) = g"
  proof (rule Min_eqI)
    show "g \<le> y" if "y \<in> free_frames p - {f..<f + i}" for y
    proof -
      have "y \<in> free_frames p" "f + i < y"
        using that assms(3,7) by (auto simp: not_less le_less)
      then show ?thesis using assms(10) by blast
    qed
  qed (use assms(8,9) in auto)
  with j(4) ji assms(6) have "g \<notin> free_frames q" by simp
  with r ji show ?thesis by blast
qed

theorem kmalloc_init_loses_frame_witness:
  "\<exists>q h'. kmalloc_init (pmm_free_frame (frame_addr 300) sample_pmm) blank_heap = Inr (q, h')
     \<and> heap_inv h' [(256, 2)] [] \<and> 300 \<notin> free_frames q"
proof -
  let ?p = "pmm_free_frame (frame_addr 300) sample_pmm"
  have p: "pmm_inv ?p" "free_frames ?p = {256, 257, 300}"
    using frames.release_adds [OF sample_pmm_inv, of 300] by (auto simp: sample_pmm_free)
  have "{256..<256 + 2} \<subseteq> {256, 257, 300 :: nat}" by auto
  with kmalloc_init_loses_frame [OF p(1), of 256 2 300 blank_heap] show ?thesis
    unfolding p(2) by simp
qed

section \<open>Requests near the top of the size range\<close>

text \<open>
  C34: the header promises NULL "when the request rounds up to zero frames".  There is no such
  check: for a size from \<open>2^64 - 4111\<close> to \<open>2^64 - 17\<close> the frame count wraps to 0, \<open>kmalloc\<close>
  returns the first free run without taking it off the list and stamps its header over the node, and
  the next one-byte request follows the magic as a next pointer and faults.
\<close>

theorem kmalloc_wrapped_size_corrupts:
  assumes "heap_inv h ((f, n) # fl) al" "2 ^ 64 - 4111 \<le> unat sz" "unat sz \<le> 2 ^ 64 - 17"
  shows "frames_for sz = 0 \<and> (\<exists>h'. kmalloc sz h = Some (Inr (frame_addr f + 16, h'))
    \<and> g_free_list h' = frame_addr f
    \<and> kmalloc 1 h' = Some (Inl (General_protection (KMALLOC_MAGIC + 8))))"
proof -
  have "unat (sz + 4111) = (unat sz + 4111) mod 2 ^ 64" by (simp add: unat_word_ariths)
  also have "\<dots> = unat sz + 4111 - 2 ^ 64"
    using assms(2,3) by (simp add: le_mod_geq)
  finally have "unat (sz + 4111) < 4096" using assms(3) by simp
  moreover have "sz \<noteq> 0" using assms(2) by auto
  ultimately have "unat (frames_for sz) = 0" by (simp add: frames_for_sum unat_div_distrib)
  then have z: "frames_for sz = 0" by (simp add: unat_eq_0)
  have f: "f < 262144" "frame_addr f \<noteq> 0" "g_free_list h = frame_addr f"
    and n: "get64 (mem h) (frame_addr f + 8) = of_nat n" "(of_nat n :: u64) > 0"
    using assms(1) unat_of_frame [of n]
    by (auto simp: heap_inv_def run_ok_def frame_addr_nonzero word_less_nat_alt)
  define h' where "h' = h\<lparr>mem := put64 (frame_addr f + 8) 0 (put64 (frame_addr f) KMALLOC_MAGIC
    (put64 (frame_addr f + 8) (of_nat n) (put64 (frame_addr f) (get64 (mem h) (frame_addr f)) (mem h)))),
    g_free_list := frame_addr f\<rparr>"
  have "kmalloc sz h = Some (Inr (frame_addr f + 16, h'))"
    using f n by (simp add: kmalloc_def z kmalloc_walk.simps kmalloc_take_def h'_def sizeof_kmalloc_header_def Let_def)
  moreover have "kmalloc 1 h' = Some (Inl (General_protection (KMALLOC_MAGIC + 8)))"
  proof -
    have "frames_for 1 = 1" by (simp add: frames_for_sum)
    moreover have "ld (KMALLOC_MAGIC + 8) h' = Inl (General_protection (KMALLOC_MAGIC + 8))"
      by (simp add: ld_def load64_def mapped_def wide_fault_def access_fault_def KMALLOC_MAGIC_def)
    moreover have "KMALLOC_MAGIC \<noteq> 0" by (simp add: KMALLOC_MAGIC_def)
    moreover have "read_link (Link_next (frame_addr f)) h' = Inr KMALLOC_MAGIC"
      "read_link Link_head h' = Inr (frame_addr f)" "ld (frame_addr f + 8) h' = Inr 0"
      using f by (simp_all add: h'_def load64_def)
    ultimately show ?thesis using f(2) by (simp add: kmalloc_def kmalloc_walk.simps)
  qed
  ultimately show ?thesis using z by (auto simp: h'_def)
qed

theorem kmalloc_wrapped_size_corrupts_witness:
  "\<exists>h'. kmalloc 0xFFFFFFFFFFFFF000 sample_heap = Some (Inr (0x100010, h'))
     \<and> kmalloc 1 h' = Some (Inl (General_protection (KMALLOC_MAGIC + 8)))"
  using kmalloc_wrapped_size_corrupts [OF sample_heap_inv, of "0xFFFFFFFFFFFFF000"]
  by (auto simp: frame_addr_def)

end
