(* ===== verification/Port_IO.thy ===== *)
theory Port_IO
  imports Nadir_Prelude
begin

text \<open>
  Port I/O, \<^verbatim>\<open>include/io.h\<close>.  The state of the machine outside the CPU is the history of
  port accesses; what a read returns is the parameter \<open>dev\<close>, a function of that history and of
  the port.  Chip models elsewhere replay the history, and hypotheses on \<open>dev\<close> are stated
  against those replays.
\<close>

datatype io_event = Out u16 u8 | In u16 u8

type_synonym device = "io_event list \<Rightarrow> u16 \<Rightarrow> u8"

record ports =
  io_log :: "io_event list"

definition inb :: "device \<Rightarrow> u16 \<Rightarrow> 'a ports_scheme \<Rightarrow> u8 \<times> 'a ports_scheme" where
  "inb dev port s =
     (let v = dev (io_log s) port in (v, s\<lparr>io_log := io_log s @ [In port v]\<rparr>))"

definition outb :: "u16 \<Rightarrow> u8 \<Rightarrow> 'a ports_scheme \<Rightarrow> 'a ports_scheme" where
  "outb port v s = s\<lparr>io_log := io_log s @ [Out port v]\<rparr>"

definition io_wait :: "'a ports_scheme \<Rightarrow> 'a ports_scheme" where
  "io_wait s = outb 0x80 0 s"

lemma io_log_outb [simp]: "io_log (outb port v s) = io_log s @ [Out port v]"
  by (simp add: outb_def)

lemma io_log_io_wait [simp]: "io_log (io_wait s) = io_log s @ [Out 0x80 0]"
  by (simp add: io_wait_def)

lemma fst_inb [simp]: "fst (inb dev port s) = dev (io_log s) port"
  by (simp add: inb_def Let_def)

lemma io_log_inb [simp]: "io_log (snd (inb dev port s)) = io_log s @ [In port (dev (io_log s) port)]"
  by (simp add: inb_def Let_def)

text \<open>Port accesses touch nothing but the history.\<close>

lemma more_outb [simp]: "ports.more (outb port v s) = ports.more s"
  by (simp add: outb_def)

lemma more_io_wait [simp]: "ports.more (io_wait s) = ports.more s"
  by (simp add: io_wait_def)

lemma more_inb [simp]: "ports.more (snd (inb dev port s)) = ports.more s"
  by (simp add: inb_def Let_def)

text \<open>The events an operation adds to the history.\<close>

definition emits :: "'a ports_scheme \<Rightarrow> io_event list \<Rightarrow> 'a ports_scheme \<Rightarrow> bool" where
  "emits s evs t \<longleftrightarrow> io_log t = io_log s @ evs"

lemma ports_eqI: "io_log s = io_log t \<Longrightarrow> ports.more s = ports.more t \<Longrightarrow> s = t"
  for s t :: "'a ports_scheme"
  by (cases s, cases t) simp

end
