(* ===== verification/Console.thy ===== *)
theory Console
  imports Port_IO
begin

unbundle bit_operations_syntax

text \<open>
  The VGA text console, \<^verbatim>\<open>kernel/arch/x86_64/console.c\<close>: the cursor, the 80 by 25 cells of the
  text buffer, and the two cursor registers of the CRT controller, which are written through ports.
  The abstract console is a terminal: 25 lines of 80 cells and a position; \<open>console_putchar\<close> is
  shown to refine it.  A \<open>char\<close> is a signed byte, as on this target.
\<close>

section \<open>The driver\<close>

definition VGA_WIDTH :: nat where "VGA_WIDTH = 80"
definition VGA_HEIGHT :: nat where "VGA_HEIGHT = 25"
definition COLOR_DEFAULT :: u32 where "COLOR_DEFAULT = 0x0F"
definition VGA_CRT_INDEX :: u16 where "VGA_CRT_INDEX = 0x3D4"
definition VGA_CRT_DATA :: u16 where "VGA_CRT_DATA = 0x3D5"
definition VGA_CRT_CURSOR_HIGH :: u8 where "VGA_CRT_CURSOR_HIGH = 0x0E"
definition VGA_CRT_CURSOR_LOW :: u8 where "VGA_CRT_CURSOR_LOW = 0x0F"

lemmas vga_consts = VGA_WIDTH_def VGA_HEIGHT_def

record console = ports +
  cursor_row :: u8
  cursor_col :: u8
  vga :: "u16 carray"

text \<open>
  The cell \<open>(uint16_t)((COLOR_DEFAULT << 8) | c)\<close>: \<open>c\<close> is promoted with its sign.
\<close>

definition vga_cell :: "u8 \<Rightarrow> u16" where
  "vga_cell c = ucast (push_bit 8 COLOR_DEFAULT OR scast c)"

definition vga_index :: "'a console_scheme \<Rightarrow> nat" where
  "vga_index s = unat (cursor_row s) * VGA_WIDTH + unat (cursor_col s)"

definition update_hw_cursor :: "'a console_scheme \<Rightarrow> 'a console_scheme" where
  "update_hw_cursor s =
     (let pos = of_nat (unat (cursor_row s) * VGA_WIDTH + unat (cursor_col s)) :: u16;
          s = outb VGA_CRT_INDEX VGA_CRT_CURSOR_LOW s;
          s = outb VGA_CRT_DATA (ucast (pos AND 0xFF)) s;
          s = outb VGA_CRT_INDEX VGA_CRT_CURSOR_HIGH s
      in outb VGA_CRT_DATA (ucast (drop_bit 8 pos AND 0xFF)) s)"

definition scroll :: "'a console_scheme \<Rightarrow> 'a console_scheme" where
  "scroll s =
     (let v = for_range (1 :: u8) (of_nat VGA_HEIGHT) (\<lambda>row. for_range (0 :: u8) (of_nat VGA_WIDTH)
            (\<lambda>col v. v((unat row - 1) * VGA_WIDTH + unat col := v (unat row * VGA_WIDTH + unat col))))
            (vga s);
          v = for_range (0 :: u8) (of_nat VGA_WIDTH)
            (\<lambda>col v. v((VGA_HEIGHT - 1) * VGA_WIDTH + unat col := vga_cell 0x20)) v
      in s\<lparr>vga := v\<rparr>)"

definition console_clear :: "'a console_scheme \<Rightarrow> 'a console_scheme" where
  "console_clear s =
     update_hw_cursor (s\<lparr>vga := for_range (0 :: u16) (of_nat (VGA_WIDTH * VGA_HEIGHT))
         (\<lambda>i v. v(unat i := vga_cell 0x20)) (vga s),
       cursor_row := 0, cursor_col := 0\<rparr>)"

text \<open>The tail of \<open>console_putchar\<close>, after the three cases.\<close>

definition putchar_finish :: "'a console_scheme \<Rightarrow> 'a console_scheme" where
  "putchar_finish s =
     (let s = (if VGA_HEIGHT \<le> unat (cursor_row s)
               then (scroll s)\<lparr>cursor_row := of_nat (VGA_HEIGHT - 1)\<rparr> else s)
      in update_hw_cursor s)"

definition putchar_erase :: "'a console_scheme \<Rightarrow> 'a console_scheme" where
  "putchar_erase s =
     putchar_finish (s\<lparr>vga := (vga s)(vga_index s := vga_cell 0x20)\<rparr>)"

definition console_putchar :: "u8 \<Rightarrow> 'a console_scheme \<Rightarrow> 'a console_scheme" where
  "console_putchar c s =
     (if c = 0x0A
      then putchar_finish (s\<lparr>cursor_row := cursor_row s + 1, cursor_col := 0\<rparr>)
      else if c = 0x08
      then if 0 < cursor_col s then putchar_erase (s\<lparr>cursor_col := cursor_col s - 1\<rparr>)
        else if 0 < cursor_row s
        then putchar_erase (s\<lparr>cursor_row := cursor_row s - 1, cursor_col := of_nat (VGA_WIDTH - 1)\<rparr>)
        else s
      else let s = s\<lparr>vga := (vga s)(vga_index s := vga_cell c)\<rparr>;
               s = s\<lparr>cursor_col := cursor_col s + 1\<rparr>
        in putchar_finish (if VGA_WIDTH \<le> unat (cursor_col s)
             then s\<lparr>cursor_col := 0, cursor_row := cursor_row s + 1\<rparr> else s))"

fun console_puts :: "u8 list \<Rightarrow> 'a console_scheme \<Rightarrow> 'a console_scheme" where
  "console_puts [] s = s"
| "console_puts (c # cs) s = (if c = 0 then s else console_puts cs (console_putchar c s))"

definition hex_digits :: "u8 list" where
  "hex_digits = cstr ''0123456789ABCDEF''"

function puthex_loop :: "int \<Rightarrow> u64 \<Rightarrow> 'a console_scheme \<Rightarrow> 'a console_scheme" where
  "puthex_loop shift v s =
     (if 0 \<le> shift
      then puthex_loop (shift - 4) v
             (console_putchar (hex_digits ! unat (drop_bit (nat shift) v AND 0xF)) s)
      else s)"
  by pat_completeness auto
termination
  by (relation "measure (\<lambda>(shift, v, s). nat (shift + 4))") auto

declare puthex_loop.simps [simp del]

definition console_puthex64 :: "u64 \<Rightarrow> 'a console_scheme \<Rightarrow> 'a console_scheme" where
  "console_puthex64 v s = puthex_loop 60 v (console_puts (cstr ''0x'') s)"

section \<open>The abstract terminal\<close>

record tty =
  tty_lines :: "u16 list list"
  tty_row :: nat
  tty_col :: nat

definition tty_blank :: "u16 list" where
  "tty_blank = replicate 80 0x0F20"

text \<open>Start the next line; on the last one the screen moves up.\<close>

definition tty_newline :: "tty \<Rightarrow> tty" where
  "tty_newline t =
     (if tty_row t = 24 then t\<lparr>tty_lines := tl (tty_lines t) @ [tty_blank], tty_col := 0\<rparr>
      else t\<lparr>tty_row := Suc (tty_row t), tty_col := 0\<rparr>)"

definition tty_set :: "u16 \<Rightarrow> tty \<Rightarrow> tty" where
  "tty_set w t = t\<lparr>tty_lines := (tty_lines t)[tty_row t := (tty_lines t ! tty_row t)[tty_col t := w]]\<rparr>"

definition tty_putchar :: "u8 \<Rightarrow> tty \<Rightarrow> tty" where
  "tty_putchar c t =
     (if c = 0x0A then tty_newline t
      else if c = 0x08 then
        (if 0 < tty_col t then tty_set 0x0F20 (t\<lparr>tty_col := tty_col t - 1\<rparr>)
         else if 0 < tty_row t then tty_set 0x0F20 (t\<lparr>tty_row := tty_row t - 1, tty_col := 79\<rparr>)
         else t)
      else let t = tty_set (vga_cell c) t
        in if tty_col t = 79 then tty_newline t else t\<lparr>tty_col := Suc (tty_col t)\<rparr>)"

definition screen_of :: "u16 carray \<Rightarrow> u16 list list" where
  "screen_of v = map (\<lambda>r. map (\<lambda>c. v (r * 80 + c)) [0..<80]) [0..<25]"

definition tty_of :: "'a console_scheme \<Rightarrow> tty" where
  "tty_of s = \<lparr>tty_lines = screen_of (vga s), tty_row = unat (cursor_row s), tty_col = unat (cursor_col s)\<rparr>"

definition console_inv :: "'a console_scheme \<Rightarrow> bool" where
  "console_inv s \<longleftrightarrow> cursor_row s < 25 \<and> cursor_col s < 80"

section \<open>Loops over the text buffer\<close>

lemma vga_cell_space [simp]: "vga_cell 0x20 = 0x0F20"
  by (simp add: vga_cell_def COLOR_DEFAULT_def)

lemma fill_loop:
  fixes n :: "'w::len word" and v :: "u16 carray"
  assumes "unat n = m"
  shows "for_range 0 n (\<lambda>k v. v(b + unat k := w)) v = (\<lambda>i. if b \<le> i \<and> i < b + m then w else v i)"
  by (rule for_range_rule [where P = "\<lambda>k u. u = (\<lambda>i. if b \<le> i \<and> i < b + k then w else v i)"])
    (use assms in \<open>auto simp: fun_eq_iff less_Suc_eq\<close>)

lemma copy_row_loop:
  "for_range (0 :: u8) 80 (\<lambda>col v. v(r * 80 + unat col := v (Suc r * 80 + unat col))) v
    = (\<lambda>i. if r * 80 \<le> i \<and> i < r * 80 + 80 then v (i + 80) else v i)"
proof (rule for_range_rule [where a = 0 and b = 80 and
      P = "\<lambda>k u. u = (\<lambda>i. if r * 80 \<le> i \<and> i < r * 80 + k then v (i + 80) else v i)"])
  fix k u
  assume "unat (of_nat k :: u8) = k" "u = (\<lambda>i. if r * 80 \<le> i \<and> i < r * 80 + k then v (i + 80) else v i)"
  then show "u(r * 80 + unat (of_nat k :: u8) := u (Suc r * 80 + unat (of_nat k :: u8)))
      = (\<lambda>i. if r * 80 \<le> i \<and> i < r * 80 + Suc k then v (i + 80) else v i)"
    by (auto simp: fun_eq_iff less_Suc_eq ac_simps)
qed (simp, simp, simp, auto intro!: ext)

lemma scroll_vga:
  "vga (scroll s) = (\<lambda>i. if i < 1920 then vga s (i + 80) else if i < 2000 then 0x0F20 else vga s i)"
proof -
  let ?body = "\<lambda>(row :: u8). for_range (0 :: u8) 80
    (\<lambda>col v. v((unat row - 1) * 80 + unat col := v (unat row * 80 + unat col)))"
  have "for_range (1 :: u8) 25 ?body (vga s) = (\<lambda>i. if i < (25 - 1) * 80 then vga s (i + 80) else vga s i)"
  proof (rule for_range_rule [where
        P = "\<lambda>k u. u = (\<lambda>i. if i < (k - 1) * 80 then vga s (i + 80) else vga s i)" and a = 1 and b = 25])
    fix k u
    assume k: "1 \<le> k" "unat (of_nat k :: u8) = k"
      and u: "u = (\<lambda>i. if i < (k - 1) * 80 then vga s (i + 80) else vga s i)"
    obtain r where r: "k = Suc r" using k by (cases k) auto
    have "?body (of_nat k) u = (\<lambda>i. if r * 80 \<le> i \<and> i < r * 80 + 80 then u (i + 80) else u i)"
      using copy_row_loop [of r u] k by (simp add: r)
    then show "?body (of_nat k) u = (\<lambda>i. if i < (Suc k - 1) * 80 then vga s (i + 80) else vga s i)"
      by (auto simp: fun_eq_iff u r)
  qed simp_all
  moreover have "for_range (0 :: u8) 80 (\<lambda>col v. v(1920 + unat col := w)) v
      = (\<lambda>i. if 1920 \<le> i \<and> i < 2000 then w else v i)" for v :: "u16 carray" and w
    using fill_loop [of "80 :: u8" 80 1920 w v] by simp
  ultimately show ?thesis by (auto simp: scroll_def vga_consts Let_def fun_eq_iff)
qed

lemma clear_vga:
  "for_range (0 :: u16) 2000 (\<lambda>i v. v(unat i := 0x0F20)) v = (\<lambda>i. if i < 2000 then 0x0F20 else v i)"
  for v :: "u16 carray"
  using fill_loop [of "2000 :: u16" 2000 0 "0x0F20" v] by simp

section \<open>What the operations leave alone\<close>

lemma update_hw_cursor_fields [simp]:
  "vga (update_hw_cursor s) = vga s" "cursor_row (update_hw_cursor s) = cursor_row s"
  "cursor_col (update_hw_cursor s) = cursor_col s"
  "console.more (update_hw_cursor s) = console.more s"
  by (simp_all add: update_hw_cursor_def Let_def outb_def)

lemma scroll_fields [simp]:
  "cursor_row (scroll s) = cursor_row s" "cursor_col (scroll s) = cursor_col s"
  "io_log (scroll s) = io_log s" "console.more (scroll s) = console.more s"
  by (simp_all add: scroll_def Let_def)

lemma putchar_finish_fields [simp]:
  "cursor_col (putchar_finish s) = cursor_col s" "console.more (putchar_finish s) = console.more s"
  by (simp_all add: putchar_finish_def Let_def)

lemma putchar_erase_fields [simp]:
  "cursor_col (putchar_erase s) = cursor_col s" "console.more (putchar_erase s) = console.more s"
  by (simp_all add: putchar_erase_def)

lemma console_putchar_more [frame_ops, simp]:
  "console.more (console_putchar c s) = console.more s"
  by (simp add: console_putchar_def Let_def)

lemma console_puts_more [frame_ops, simp]: "console.more (console_puts cs s) = console.more s"
  by (induction cs s rule: console_puts.induct) auto

lemma console_clear_more [frame_ops, simp]: "console.more (console_clear s) = console.more s"
  by (simp add: console_clear_def)

section \<open>The cursor stays on the screen\<close>

lemma console_inv_nat: "console_inv s \<longleftrightarrow> unat (cursor_row s) < 25 \<and> unat (cursor_col s) < 80"
  by (simp add: console_inv_def word_less_nat_alt)

lemma unat_inc8: "unat (w :: u8) < 255 \<Longrightarrow> unat (w + 1) = Suc (unat w)"
  by (simp add: unat_add_small)

lemma unat_dec8: "0 < unat (w :: u8) \<Longrightarrow> unat (w - 1) = unat w - 1"
  by (subst unat_sub_small) (simp_all add: word_le_nat_alt)

lemma finish_row:
  "unat (cursor_row s) \<le> 25 \<Longrightarrow> unat (cursor_row (putchar_finish s)) = (if unat (cursor_row s) = 25 then 24 else unat (cursor_row s))"
  by (simp add: putchar_finish_def Let_def vga_consts)

lemma console_putchar_inv:
  assumes "console_inv s"
  shows "console_inv (console_putchar c s)"
  using assms
  by (auto simp: console_inv_nat console_putchar_def Let_def putchar_erase_def finish_row
      unat_inc8 unat_dec8 vga_consts word_less_nat_alt)

lemma console_puts_inv: "console_inv s \<Longrightarrow> console_inv (console_puts cs s)"
  by (induction cs s rule: console_puts.induct) (auto intro: console_putchar_inv)

section \<open>Refinement of the terminal\<close>

lemma screen_of_length [simp]: "length (screen_of v) = 25"
  by (simp add: screen_of_def)

lemma screen_of_nth: "r < 25 \<Longrightarrow> screen_of v ! r = map (\<lambda>c. v (r * 80 + c)) [0..<80]"
  by (simp add: screen_of_def del: upt_rec_numeral upt_conv_Cons_Cons)

lemma vga_cell_eq: "c < 80 \<Longrightarrow> k < 80 \<Longrightarrow> i * 80 + k = r * 80 + c \<longleftrightarrow> i = r \<and> k = (c :: nat)"
proof
  assume c: "c < 80" "k < 80" and eq: "i * 80 + k = r * 80 + c"
  then have "(i * 80 + k) div 80 = (r * 80 + c) div 80" by simp
  with c have "i = r" by simp
  with eq show "i = r \<and> k = c" by simp
qed simp

lemma screen_of_upd:
  assumes "r < 25" "c < 80"
  shows "screen_of (v(r * 80 + c := w)) = (screen_of v)[r := (screen_of v ! r)[c := w]]"
proof (rule nth_equalityI)
  fix i
  assume "i < length (screen_of (v(r * 80 + c := w)))"
  then have i: "i < 25" by simp
  show "screen_of (v(r * 80 + c := w)) ! i = (screen_of v)[r := (screen_of v ! r)[c := w]] ! i"
  proof (rule nth_equalityI)
    fix k
    assume "k < length (screen_of (v(r * 80 + c := w)) ! i)"
    then have "k < 80" using i by (simp add: screen_of_nth del: upt_rec_numeral)
    then show "screen_of (v(r * 80 + c := w)) ! i ! k
        = (screen_of v)[r := (screen_of v ! r)[c := w]] ! i ! k"
      using i assms by (simp add: screen_of_nth nth_list_update vga_cell_eq del: upt_rec_numeral)
  qed (use i assms in \<open>simp add: screen_of_nth nth_list_update del: upt_rec_numeral\<close>)
qed simp

lemma screen_of_scroll:
  "screen_of (vga (scroll s)) = tl (screen_of (vga s)) @ [tty_blank]"
proof (rule nth_equalityI)
  fix i
  assume "i < length (screen_of (vga (scroll s)))"
  then have i: "i < 25" by simp
  show "screen_of (vga (scroll s)) ! i = (tl (screen_of (vga s)) @ [tty_blank]) ! i"
  proof (cases "i < 24")
    case True
    then have "i * 80 + c < 1920" if "c < 80" for c
      using that by simp
    with True show ?thesis
      by (intro nth_equalityI)
        (simp_all add: screen_of_nth nth_append nth_tl scroll_vga ac_simps del: upt_rec_numeral)
  next
    case False
    with i have "i = 24" by simp
    then show ?thesis
      by (intro nth_equalityI)
        (auto simp: screen_of_nth nth_append tty_blank_def scroll_vga simp del: upt_rec_numeral)
  qed
qed simp

lemma tty_of_finish:
  assumes "unat (cursor_row s) \<le> 25"
  shows "tty_of (putchar_finish s) =
    (if unat (cursor_row s) = 25
     then \<lparr>tty_lines = tl (screen_of (vga s)) @ [tty_blank], tty_row = 24, tty_col = unat (cursor_col s)\<rparr>
     else tty_of s)"
  using assms by (simp add: tty_of_def putchar_finish_def Let_def vga_consts screen_of_scroll)

lemma tty_of_fields [simp]:
  "tty_row (tty_of s) = unat (cursor_row s)" "tty_col (tty_of s) = unat (cursor_col s)"
  "tty_lines (tty_of s) = screen_of (vga s)"
  "tty_of (s\<lparr>cursor_row := x\<rparr>) = (tty_of s)\<lparr>tty_row := unat x\<rparr>"
  "tty_of (s\<lparr>cursor_col := x\<rparr>) = (tty_of s)\<lparr>tty_col := unat x\<rparr>"
  by (simp_all add: tty_of_def)

lemma cursor_upd_commute:
  "s\<lparr>cursor_row := a, cursor_col := b\<rparr> = s\<lparr>cursor_col := b, cursor_row := a\<rparr>"
  by (cases s) simp

lemma tty_set_fields [simp]: "tty_row (tty_set w t) = tty_row t" "tty_col (tty_set w t) = tty_col t"
  by (simp_all add: tty_set_def)

lemma tty_of_newline:
  assumes "unat (cursor_row s) < 25"
  shows "tty_of (putchar_finish (s\<lparr>cursor_col := 0, cursor_row := cursor_row s + 1\<rparr>)) = tty_newline (tty_of s)"
  using assms by (subst tty_of_finish) (auto simp: unat_inc8 tty_newline_def tty_of_def)

lemma tty_of_set:
  assumes "console_inv s"
  shows "tty_of (s\<lparr>vga := (vga s)(vga_index s := w)\<rparr>) = tty_set w (tty_of s)"
  using assms screen_of_upd [of "unat (cursor_row s)" "unat (cursor_col s)" "vga s" w]
  by (simp add: tty_of_def tty_set_def vga_index_def vga_consts console_inv_nat)

lemma tty_of_erase:
  assumes "console_inv s"
  shows "tty_of (putchar_erase s) = tty_set 0x0F20 (tty_of s)"
  using assms unfolding putchar_erase_def
  by (subst tty_of_finish) (auto simp: tty_of_set console_inv_nat)

text \<open>One character on the abstract terminal, by the kind of the character.\<close>

lemma tty_of_putchar:
  assumes "console_inv s"
  shows "tty_of (console_putchar c s) = tty_putchar c (tty_of s) \<and> console_inv (console_putchar c s)"
proof -
  from assms have b: "unat (cursor_row s) < 25" "unat (cursor_col s) < 80" by (auto simp: console_inv_nat)
  consider (newline) "c = 0x0A" | (erase) "c = 0x08" | (draw) "c \<noteq> 0x0A" "c \<noteq> 0x08" by blast
  then have "tty_of (console_putchar c s) = tty_putchar c (tty_of s)"
  proof cases
    case newline
    then show ?thesis
      using tty_of_newline [OF b(1)]
      by (simp add: console_putchar_def tty_putchar_def cursor_upd_commute)
  next
    case erase
    then show ?thesis
      using b by (auto simp: console_putchar_def tty_putchar_def tty_of_erase console_inv_nat unat_dec8
          word_less_nat_alt vga_consts)
  next
    case draw
    define t where "t = s\<lparr>vga := (vga s)(vga_index s := vga_cell c)\<rparr>"
    have t: "tty_of t = tty_set (vga_cell c) (tty_of s)" "cursor_row t = cursor_row s" "cursor_col t = cursor_col s"
      using tty_of_set [OF assms] by (simp_all add: t_def)
    have p: "console_putchar c s = putchar_finish (if 80 \<le> unat (cursor_col t + 1)
        then t\<lparr>cursor_col := 0, cursor_row := cursor_row t + 1\<rparr> else t\<lparr>cursor_col := cursor_col t + 1\<rparr>)"
      using draw by (simp add: console_putchar_def t_def vga_consts)
    show ?thesis
    proof (cases "unat (cursor_col s) = 79")
      case True
      then show ?thesis
        using draw p t b tty_of_newline [of t] by (simp add: unat_inc8 tty_putchar_def Let_def)
    next
      case False
      then have "tty_of (console_putchar c s) = tty_of (t\<lparr>cursor_col := cursor_col t + 1\<rparr>)"
        using p t b by (simp add: unat_inc8 tty_of_finish)
      then show ?thesis
        using False draw t b by (simp add: unat_inc8 tty_putchar_def Let_def)
    qed
  qed
  with console_putchar_inv [OF assms] show ?thesis by simp
qed

lemma tty_of_puts:
  assumes "console_inv s" "0 \<notin> set cs"
  shows "tty_of (console_puts cs s) = fold tty_putchar cs (tty_of s) \<and> console_inv (console_puts cs s)"
  using assms by (induction cs arbitrary: s) (auto simp: tty_of_putchar)

text \<open>
  C24: \<open>console_putchar\<close> refines a terminal of 25 lines of 80 cells.  A newline starts the next
  line, a backspace steps back (over the start of a line too) and blanks the cell, anything else is
  drawn at the cursor with wrap-around at column 80; past the last line the screen moves up by one
  line and the new last line is blank.
\<close>

theorem console_putchar_refines_tty:
  assumes "console_inv s"
  shows "tty_of (console_putchar c s) = tty_putchar c (tty_of s) \<and> console_inv (console_putchar c s)"
  by (rule tty_of_putchar [OF assms])

theorem console_putchar_refines_tty_witness:
  "tty_of (console_putchar 0x41 \<lparr>io_log = [], cursor_row = 3, cursor_col = 79, vga = (\<lambda>_. 0)\<rparr>)
    = tty_putchar 0x41 (tty_of \<lparr>io_log = [], cursor_row = 3, cursor_col = 79, vga = (\<lambda>_. 0)\<rparr>)
   \<and> tty_row (tty_putchar 0x41 (tty_of \<lparr>io_log = [], cursor_row = 3, cursor_col = 79, vga = (\<lambda>_. 0)\<rparr>)) = 4"
  using console_putchar_refines_tty [of "\<lparr>io_log = [], cursor_row = 3, cursor_col = 79, vga = (\<lambda>_. 0)\<rparr>" "0x41"]
  by (simp add: console_inv_def tty_putchar_def tty_set_def tty_newline_def)

section \<open>The hardware cursor and the bounds of the buffer\<close>

text \<open>The CRT controller: an index register selects the register a data write goes to.\<close>

record crtc =
  crt_index :: u8
  crt_regs :: "u8 \<Rightarrow> u8"

fun crtc_step :: "io_event \<Rightarrow> crtc \<Rightarrow> crtc" where
  "crtc_step (In port v) c = c"
| "crtc_step (Out port v) c =
     (if port = VGA_CRT_INDEX then c\<lparr>crt_index := v\<rparr>
      else if port = VGA_CRT_DATA then c\<lparr>crt_regs := (crt_regs c)(crt_index c := v)\<rparr> else c)"

definition hw_cursor :: "crtc \<Rightarrow> io_event list \<Rightarrow> nat" where
  "hw_cursor c log = (let c = fold crtc_step log c
     in unat (crt_regs c VGA_CRT_CURSOR_HIGH) * 256 + unat (crt_regs c VGA_CRT_CURSOR_LOW))"

lemma cursor_bytes:
  assumes "n < 65536"
  shows "unat (ucast (drop_bit 8 (of_nat n :: u16) AND 0xFF) :: u8) * 256
      + unat (ucast ((of_nat n :: u16) AND 0xFF) :: u8) = n"
proof -
  have m: "w AND 0xFF = take_bit 8 w" for w :: u16 by (simp add: take_bit_eq_mask mask_eq_exp_minus_1)
  have "unat (of_nat n :: u16) = n" using assms by (simp add: unat_of_nat)
  then have "unat (ucast (drop_bit 8 (of_nat n :: u16) AND 0xFF) :: u8) = n div 256 mod 256"
    "unat (ucast ((of_nat n :: u16) AND 0xFF) :: u8) = n mod 256"
    unfolding m by (simp_all add: unsigned_ucast_eq unsigned_take_bit_eq unsigned_drop_bit_eq
        take_bit_eq_mod drop_bit_eq_div unat_div_distrib unat_mod_distrib)
  then show ?thesis using assms by simp
qed

lemma hw_cursor_update:
  assumes "vga_index s < 65536"
  shows "hw_cursor c (io_log (update_hw_cursor s)) = vga_index s"
  using cursor_bytes [OF assms]
  by (simp add: hw_cursor_def update_hw_cursor_def vga_index_def Let_def VGA_CRT_INDEX_def
      VGA_CRT_DATA_def VGA_CRT_CURSOR_HIGH_def VGA_CRT_CURSOR_LOW_def)

lemma vga_index_bound: "console_inv s \<Longrightarrow> vga_index s < 2000"
  by (auto simp: console_inv_nat vga_index_def vga_consts)

text \<open>
  Cursor on screen, hardware cursor in step, nothing written behind the buffer.
\<close>

definition console_sync :: "crtc \<Rightarrow> u16 carray \<Rightarrow> 'a console_scheme \<Rightarrow> bool" where
  "console_sync c v s \<longleftrightarrow> console_inv s \<and> hw_cursor c (io_log s) = vga_index s
     \<and> (\<forall>i. vga s (2000 + i) = v (2000 + i))"

lemma sync_update:
  assumes "console_inv s" "\<And>i. vga s (2000 + i) = v (2000 + i)"
  shows "console_sync c v (update_hw_cursor s)"
  using assms hw_cursor_update [of s c] vga_index_bound [OF assms(1)]
  by (simp add: console_sync_def console_inv_def vga_index_def)

lemma sync_finish:
  assumes "unat (cursor_row s) \<le> 25" "unat (cursor_col s) < 80" "\<And>i. vga s (2000 + i) = v (2000 + i)"
  shows "console_sync c v (putchar_finish s)"
  unfolding putchar_finish_def Let_def
  using assms by (intro sync_update) (auto simp: console_inv_nat vga_consts scroll_vga)

lemma sync_erase:
  assumes "console_inv s" "\<And>i. vga s (2000 + i) = v (2000 + i)"
  shows "console_sync c v (putchar_erase s)"
  unfolding putchar_erase_def
  using assms vga_index_bound [OF assms(1)] by (intro sync_finish) (auto simp: console_inv_nat)

lemma sync_putchar:
  assumes "console_sync c v s"
  shows "console_sync c v (console_putchar ch s)"
proof -
  from assms have b: "unat (cursor_row s) < 25" "unat (cursor_col s) < 80" "vga_index s < 2000"
    and v: "\<And>i. vga s (2000 + i) = v (2000 + i)"
    using vga_index_bound by (auto simp: console_sync_def console_inv_nat)
  show ?thesis
    using assms b v unfolding console_putchar_def Let_def
    by (auto intro!: sync_finish sync_erase simp: console_inv_nat unat_inc8 unat_dec8 vga_consts
        word_less_nat_alt)
qed

lemma sync_puts: "console_sync c v s \<Longrightarrow> console_sync c v (console_puts cs s)"
  by (induction cs s rule: console_puts.induct) (auto intro: sync_putchar)

lemma sync_clear: "console_sync c (vga s) (console_clear s)"
  unfolding console_clear_def
  by (rule sync_update) (simp_all add: console_inv_def vga_consts clear_vga)

text \<open>
  C26: from \<open>console_clear\<close> on, whatever is printed, the cursor stays on the screen, the cursor
  position held in the CRT controller's registers is the driver's, and no cell behind the 2000 of
  the text buffer is ever written.
\<close>

theorem console_stays_on_screen:
  "let t = console_puts cs (console_clear s)
   in cursor_row t < 25 \<and> cursor_col t < 80
    \<and> hw_cursor c (io_log t) = unat (cursor_row t) * 80 + unat (cursor_col t)
    \<and> (\<forall>i. vga t (2000 + i) = vga s (2000 + i))"
  using sync_puts [OF sync_clear, of c s cs]
  by (simp add: console_sync_def console_inv_def vga_index_def vga_consts Let_def)

section \<open>Hexadecimal output\<close>

fun hex_string :: "nat \<Rightarrow> u64 \<Rightarrow> u8 list" where
  "hex_string 0 v = []"
| "hex_string (Suc n) v = hex_digits ! unat (drop_bit (4 * n) v AND 0xF) # hex_string n v"

definition hex_val :: "u8 \<Rightarrow> nat" where
  "hex_val c = (if unat c < 58 then unat c - 48 else unat c - 55)"

definition parse_hex :: "nat \<Rightarrow> u8 list \<Rightarrow> nat" where
  "parse_hex = foldl (\<lambda>a c. 16 * a + hex_val c)"

lemma hex_val_digit: "n < 16 \<Longrightarrow> hex_val (hex_digits ! n) = n \<and> hex_digits ! n \<noteq> 0"
proof -
  have "\<forall>n\<in>set [0..<16]. hex_val (hex_digits ! n) = n \<and> hex_digits ! n \<noteq> 0"
    by (simp add: hex_digits_def cstr_def hex_val_def of_char_def upt_conv_Cons del: set_upt)
  then show "n < 16 \<Longrightarrow> hex_val (hex_digits ! n) = n \<and> hex_digits ! n \<noteq> 0" by simp
qed

lemma nibble: "unat (drop_bit (4 * n) v AND 0xF) = unat v div 16 ^ n mod 16" for v :: u64
proof -
  have m: "w AND 0xF = take_bit 4 w" for w :: u64 by (simp add: take_bit_eq_mask mask_eq_exp_minus_1)
  have "unat (drop_bit (4 * n) v AND 0xF) = take_bit 4 (drop_bit (4 * n) (unat v))"
    unfolding m by (simp only: unsigned_take_bit_eq unat_drop_bit_eq)
  then show ?thesis by (simp add: take_bit_eq_mod drop_bit_eq_div power_mult)
qed

lemma parse_hex_string: "parse_hex a (hex_string n v) = a * 16 ^ n + unat v mod 16 ^ n"
proof (induction n arbitrary: a)
  case 0
  then show ?case by (simp add: parse_hex_def)
next
  case (Suc n)
  let ?d = "unat v div 16 ^ n mod 16"
  have "parse_hex a (hex_string (Suc n) v) = parse_hex (16 * a + ?d) (hex_string n v)"
    using hex_val_digit [of ?d] by (simp add: parse_hex_def nibble)
  also have "\<dots> = a * 16 ^ Suc n + (16 ^ n * ?d + unat v mod 16 ^ n)"
    by (simp add: Suc.IH algebra_simps)
  also have "16 ^ n * ?d + unat v mod 16 ^ n = unat v mod 16 ^ Suc n"
    using mod_mult2_eq [of "unat v" "16 ^ n" 16] by (simp add: mult.commute)
  finally show ?case .
qed

lemma console_puts_append:
  "0 \<notin> set xs \<Longrightarrow> console_puts (xs @ ys) s = console_puts ys (console_puts xs s)"
  by (induction xs arbitrary: s) auto

lemma puthex_loop_string:
  "puthex_loop (4 * int n - 4) v s = console_puts (hex_string n v) s"
proof (induction n arbitrary: s)
  case 0
  then show ?case by (simp add: puthex_loop.simps)
next
  case (Suc n)
  have "nat (4 * int n) = 4 * n" by simp
  moreover have "hex_digits ! unat (drop_bit (4 * n) v AND 0xF) \<noteq> 0"
    using hex_val_digit by (simp add: nibble)
  ultimately show ?case using Suc by (subst puthex_loop.simps) simp
qed

lemma hex_string_props: "length (hex_string n v) = n \<and> 0 \<notin> set (hex_string n v)"
  by (induction n) (use hex_val_digit in \<open>auto simp: nibble\<close>)

lemma console_puts_puts:
  "0 \<notin> set xs \<Longrightarrow> console_puts ys (console_puts xs s) = console_puts (xs @ ys) s"
  by (simp add: console_puts_append)

lemma console_puthex64_puts: "console_puthex64 v s = console_puts (cstr ''0x'' @ hex_string 16 v) s"
  using puthex_loop_string [of 16 v] by (simp add: console_puthex64_def console_puts_append)

text \<open>
  \<open>console_puthex64\<close> prints exactly \<^verbatim>\<open>0x\<close> and sixteen hexadecimal digits, and reading the
  digits back gives the value.
\<close>

theorem console_puthex64_roundtrip:
  "console_puthex64 v s = console_puts (cstr ''0x'' @ hex_string 16 v) s
   \<and> length (hex_string 16 v) = 16 \<and> parse_hex 0 (hex_string 16 v) = unat v"
proof -
  have "unat v < 16 ^ 16" using unsigned_less [of v, where 'a = nat] by simp
  then show ?thesis
    using hex_string_props [of 16 v] parse_hex_string [of 0 16 v] by (simp add: console_puthex64_puts)
qed

end
