(* ===== verification/Pic.thy ===== *)
theory Pic
  imports Port_IO
begin

unbundle bit_operations_syntax

text \<open>
  The 8259 driver, \<^verbatim>\<open>kernel/arch/x86_64/pic.c\<close> with \<^verbatim>\<open>include/pic.h\<close>.  The driver keeps no
  state; its effect is a sequence of port accesses.  To say what that sequence achieves, the theory
  replays it on a model of one 8259: the initialization sequence ICW1 to ICW4, the interrupt mask
  register, and the end-of-interrupt command.
\<close>

section \<open>The driver\<close>

definition PIC1_CMD :: u16 where "PIC1_CMD = 0x20"
definition PIC1_DATA :: u16 where "PIC1_DATA = 0x21"
definition PIC2_CMD :: u16 where "PIC2_CMD = 0xA0"
definition PIC2_DATA :: u16 where "PIC2_DATA = 0xA1"
definition PIC_EOI :: u8 where "PIC_EOI = 0x20"
definition PIC_IRQ0_VECTOR :: u8 where "PIC_IRQ0_VECTOR = 0x20"
definition PIC_IRQ8_VECTOR :: u8 where "PIC_IRQ8_VECTOR = 0x28"
definition PIC_IRQ_COUNT :: u8 where "PIC_IRQ_COUNT = 16"
definition PIC_ICW1_INIT :: u8 where "PIC_ICW1_INIT = 0x11"
definition PIC_ICW3_MASTER_SLAVE_LINE :: u8 where "PIC_ICW3_MASTER_SLAVE_LINE = 0x04"
definition PIC_ICW3_SLAVE_ID :: u8 where "PIC_ICW3_SLAVE_ID = 0x02"
definition PIC_ICW4_8086 :: u8 where "PIC_ICW4_8086 = 0x01"

lemmas pic_consts = PIC1_CMD_def PIC1_DATA_def PIC2_CMD_def PIC2_DATA_def PIC_EOI_def
  PIC_IRQ0_VECTOR_def PIC_IRQ8_VECTOR_def PIC_IRQ_COUNT_def PIC_ICW1_INIT_def
  PIC_ICW3_MASTER_SLAVE_LINE_def PIC_ICW3_SLAVE_ID_def PIC_ICW4_8086_def

definition pic_remap :: "'a ports_scheme \<Rightarrow> 'a ports_scheme" where
  "pic_remap s =
     (let s = io_wait (outb PIC1_CMD PIC_ICW1_INIT s);
          s = io_wait (outb PIC2_CMD PIC_ICW1_INIT s);
          s = io_wait (outb PIC1_DATA PIC_IRQ0_VECTOR s);
          s = io_wait (outb PIC2_DATA PIC_IRQ8_VECTOR s);
          s = io_wait (outb PIC1_DATA PIC_ICW3_MASTER_SLAVE_LINE s);
          s = io_wait (outb PIC2_DATA PIC_ICW3_SLAVE_ID s);
          s = io_wait (outb PIC1_DATA PIC_ICW4_8086 s);
          s = io_wait (outb PIC2_DATA PIC_ICW4_8086 s);
          s = io_wait (outb PIC1_DATA 0xFF s)
      in io_wait (outb PIC2_DATA 0xFF s))"

definition pic_eoi :: "u8 \<Rightarrow> 'a ports_scheme \<Rightarrow> 'a ports_scheme" where
  "pic_eoi irq s =
     (if PIC_IRQ_COUNT \<le> irq then s
      else let s = (if 8 \<le> irq then outb PIC2_CMD PIC_EOI s else s)
        in outb PIC1_CMD PIC_EOI s)"

definition pic_mask :: "device \<Rightarrow> u8 \<Rightarrow> 'a ports_scheme \<Rightarrow> 'a ports_scheme" where
  "pic_mask dev irq s =
     (if PIC_IRQ_COUNT \<le> irq then s
      else let port = (if irq < 8 then PIC1_DATA else PIC2_DATA);
               (v, s) = inb dev port s;
               mask = v OR ucast (push_bit (unat (irq AND 7)) (1 :: u32))
        in outb port mask s)"

definition pic_unmask :: "device \<Rightarrow> u8 \<Rightarrow> 'a ports_scheme \<Rightarrow> 'a ports_scheme" where
  "pic_unmask dev irq s =
     (if PIC_IRQ_COUNT \<le> irq then s
      else let port = (if irq < 8 then PIC1_DATA else PIC2_DATA);
               (v, s) = inb dev port s;
               mask = v AND ucast (NOT (push_bit (unat (irq AND 7)) (1 :: u32)))
        in outb port mask s)"

section \<open>One 8259\<close>

datatype pic_phase = Operating | Expect_ICW2 | Expect_ICW3 | Expect_ICW4

record pic_chip =
  phase :: pic_phase
  icw1 :: u8
  vector_base :: u8
  cascade :: u8
  imr :: u8
  eois :: nat

text \<open>
  A command byte with bit 4 set is ICW1: it starts initialization and clears the mask register.
  Bit 1 of ICW1 says there is no cascade (no ICW3), bit 0 that ICW4 follows.  Outside initialization
  a data byte is the new mask, and command \<^verbatim>\<open>0x20\<close> is a non-specific end of interrupt.
\<close>

fun pic_chip_step :: "u16 \<Rightarrow> u16 \<Rightarrow> io_event \<Rightarrow> pic_chip \<Rightarrow> pic_chip" where
  "pic_chip_step cmd dat (In port v) c = c"
| "pic_chip_step cmd dat (Out port v) c =
     (if port = cmd then
        (if bit v 4 then c\<lparr>phase := Expect_ICW2, icw1 := v, imr := 0\<rparr>
         else if v = 0x20 then c\<lparr>eois := Suc (eois c)\<rparr> else c)
      else if port = dat then
        (case phase c of
           Operating \<Rightarrow> c\<lparr>imr := v\<rparr>
         | Expect_ICW2 \<Rightarrow> c\<lparr>vector_base := v,
             phase := if bit (icw1 c) 1 then (if bit (icw1 c) 0 then Expect_ICW4 else Operating)
                      else Expect_ICW3\<rparr>
         | Expect_ICW3 \<Rightarrow> c\<lparr>cascade := v, phase := if bit (icw1 c) 0 then Expect_ICW4 else Operating\<rparr>
         | Expect_ICW4 \<Rightarrow> c\<lparr>phase := Operating\<rparr>)
      else c)"

definition master :: "pic_chip \<Rightarrow> io_event list \<Rightarrow> pic_chip" where
  "master c log = fold (pic_chip_step PIC1_CMD PIC1_DATA) log c"

definition slave :: "pic_chip \<Rightarrow> io_event list \<Rightarrow> pic_chip" where
  "slave c log = fold (pic_chip_step PIC2_CMD PIC2_DATA) log c"

lemma replay_append [simp]:
  "master c (log @ evs) = master (master c log) evs"
  "slave c (log @ evs) = slave (slave c log) evs"
  by (simp_all add: master_def slave_def)

lemma replay_nil [simp]: "master c [] = c" "slave c [] = c"
  by (simp_all add: master_def slave_def)

text \<open>Reading a data port returns the mask register once the chip is initialized.\<close>

definition pic_readback :: "pic_chip \<Rightarrow> pic_chip \<Rightarrow> device \<Rightarrow> bool" where
  "pic_readback m sl dev \<longleftrightarrow>
     (\<forall>log. (phase (master m log) = Operating \<longrightarrow> dev log PIC1_DATA = imr (master m log))
          \<and> (phase (slave sl log) = Operating \<longrightarrow> dev log PIC2_DATA = imr (slave sl log)))"

definition line_masked :: "pic_chip \<Rightarrow> pic_chip \<Rightarrow> io_event list \<Rightarrow> nat \<Rightarrow> bool" where
  "line_masked m sl log irq \<longleftrightarrow>
     (if irq < 8 then bit (imr (master m log)) irq else bit (imr (slave sl log)) (irq - 8))"

section \<open>Properties\<close>

lemma mask_bit: "unat (irq AND 7 :: u8) = unat irq mod 8"
proof -
  have "irq AND 7 = take_bit 3 irq" by (simp add: take_bit_eq_mask mask_eq_exp_minus_1)
  then show ?thesis by (simp add: take_bit_eq_mod unat_mod_distrib)
qed

lemma line_bit: "n < 8 \<Longrightarrow> bit (ucast (2 ^ m :: u32) :: u8) n \<longleftrightarrow> m = n"
  by (auto simp: bit_simps)

lemma line_bit_not: "n < 8 \<Longrightarrow> bit (ucast (NOT (2 ^ m) :: u32) :: u8) n \<longleftrightarrow> m \<noteq> n"
  by (auto simp: bit_simps)

text \<open>
  \<open>pic_remap\<close> brings both 8259s from any state, whatever was written before, through a
  complete initialization: both are operating, the master's lines are vectors 32 to 39 and the
  slave's 40 to 47, the slave hangs on line 2 of the master and knows it, and all sixteen lines
  are masked.
\<close>

theorem pic_remap_initializes:
  "let l = io_log (pic_remap s)
   in phase (master m l) = Operating \<and> vector_base (master m l) = 32 \<and> cascade (master m l) = 4
    \<and> phase (slave sl l) = Operating \<and> vector_base (slave sl l) = 40 \<and> cascade (slave sl l) = 2
    \<and> imr (master m l) = 0xFF \<and> imr (slave sl l) = 0xFF
    \<and> ports.more (pic_remap s) = ports.more s"
  by (simp add: Let_def pic_remap_def pic_consts master_def slave_def bit_numeral_simps)

lemma pic_log_simps:
  "irq < 8 \<longleftrightarrow> unat irq < 8" "PIC_IRQ_COUNT \<le> irq \<longleftrightarrow> 16 \<le> unat irq"
  for irq :: u8
  by (simp_all add: word_less_nat_alt word_le_nat_alt PIC_IRQ_COUNT_def)

text \<open>The mask register after a read-modify-write of a data port.\<close>

lemma master_data_write:
  "phase (master m log) = Operating \<Longrightarrow>
    imr (master (master m log) [In PIC1_DATA v, Out PIC1_DATA w]) = w"
  "imr (master (master m log) [In PIC2_DATA v, Out PIC2_DATA w]) = imr (master m log)"
  by (simp_all add: master_def pic_consts)

lemma slave_data_write:
  "phase (slave m log) = Operating \<Longrightarrow>
    imr (slave (slave m log) [In PIC2_DATA v, Out PIC2_DATA w]) = w"
  "imr (slave (slave m log) [In PIC1_DATA v, Out PIC1_DATA w]) = imr (slave m log)"
  by (simp_all add: slave_def pic_consts)

lemma io_log_pic_unmask:
  assumes "unat irq < 16"
  shows "io_log (pic_unmask dev irq s) = (let port = (if unat irq < 8 then PIC1_DATA else PIC2_DATA);
      v = dev (io_log s) port
    in io_log s @ [In port v, Out port (v AND ucast (NOT (push_bit (unat irq mod 8) (1 :: u32))))])"
  using assms by (simp add: pic_unmask_def pic_log_simps mask_bit Let_def split_beta)

lemma io_log_pic_mask:
  assumes "unat irq < 16"
  shows "io_log (pic_mask dev irq s) = (let port = (if unat irq < 8 then PIC1_DATA else PIC2_DATA);
      v = dev (io_log s) port
    in io_log s @ [In port v, Out port (v OR ucast (push_bit (unat irq mod 8) (1 :: u32)))])"
  using assms by (simp add: pic_mask_def pic_log_simps mask_bit Let_def split_beta)

text \<open>
  \<open>pic_unmask\<close> enables exactly the given line: on initialized chips whose data port reads
  back the mask, that line's mask bit is clear afterwards and every other line is as before;
  \<open>pic_mask\<close> sets exactly the one bit.
\<close>

theorem pic_mask_unmask_one_line:
  assumes "pic_readback m sl dev" and "unat irq < 16"
    and "phase (master m (io_log s)) = Operating" and "phase (slave sl (io_log s)) = Operating"
    and "j < 16"
  shows "line_masked m sl (io_log (pic_unmask dev irq s)) j
      = (line_masked m sl (io_log s) j \<and> j \<noteq> unat irq)
    \<and> line_masked m sl (io_log (pic_mask dev irq s)) j
      = (line_masked m sl (io_log s) j \<or> j = unat irq)"
proof -
  have rb: "dev (io_log s) PIC1_DATA = imr (master m (io_log s))"
    "dev (io_log s) PIC2_DATA = imr (slave sl (io_log s))"
    using assms by (auto simp: pic_readback_def)
  have j: "j - 8 < 8" using assms(5) by simp
  show ?thesis
  proof (cases "unat irq < 8")
    case True
    with assms(3,5) rb show ?thesis
      by (auto simp: io_log_pic_unmask io_log_pic_mask line_masked_def Let_def master_data_write
          slave_data_write bit_and_iff bit_or_iff line_bit line_bit_not)
  next
    case False
    then have "unat irq mod 8 = unat irq - 8" using assms(2) by (simp add: mod_if)
    with False assms(2,4,5) rb j show ?thesis
      by (auto simp: io_log_pic_unmask io_log_pic_mask line_masked_def Let_def master_data_write
          slave_data_write bit_and_iff bit_or_iff line_bit line_bit_not)
  qed
qed

text \<open>Both chips fresh from \<open>pic_remap\<close>, with data ports that read back the masks.\<close>

definition reset_chip :: pic_chip where
  "reset_chip = \<lparr>phase = Operating, icw1 = 0, vector_base = 0, cascade = 0, imr = 0, eois = 0\<rparr>"

definition readback_dev :: device where
  "readback_dev log port = (if port = PIC1_DATA then imr (master reset_chip log)
     else if port = PIC2_DATA then imr (slave reset_chip log) else 0xFF)"

lemma readback_dev_ok: "pic_readback reset_chip reset_chip readback_dev"
  by (simp add: pic_readback_def readback_dev_def PIC1_DATA_def PIC2_DATA_def)

theorem pic_mask_unmask_one_line_witness:
  "\<not> line_masked reset_chip reset_chip (io_log (pic_unmask readback_dev 1 (pic_remap \<lparr>io_log = []\<rparr>))) 1
   \<and> line_masked reset_chip reset_chip (io_log (pic_unmask readback_dev 1 (pic_remap \<lparr>io_log = []\<rparr>))) 12"
proof -
  define l where "l = io_log (pic_remap \<lparr>io_log = []\<rparr>)"
  have p: "phase (master reset_chip l) = Operating" "phase (slave reset_chip l) = Operating"
    and i: "imr (slave reset_chip l) = 0xFF"
    by (simp_all add: l_def pic_remap_def Let_def pic_consts master_def slave_def bit_numeral_simps)
  have "line_masked reset_chip reset_chip l 12" by (simp add: line_masked_def i)
  with pic_mask_unmask_one_line [OF readback_dev_ok, of 1 "pic_remap \<lparr>io_log = []\<rparr>" 1]
    pic_mask_unmask_one_line [OF readback_dev_ok, of 1 "pic_remap \<lparr>io_log = []\<rparr>" 12] p
  show ?thesis by (simp add: l_def)
qed

text \<open>
  \<open>pic_eoi\<close> acknowledges at the right chips in the right order: for a line of the slave the
  slave is acknowledged before the master, for a line of the master the master alone, and a line
  number from 16 on is ignored.
\<close>

theorem pic_eoi_order:
  "io_log (pic_eoi irq s) = io_log s @
     (if unat irq < 8 then [Out 0x20 0x20]
      else if unat irq < 16 then [Out 0xA0 0x20, Out 0x20 0x20] else [])
   \<and> ports.more (pic_eoi irq s) = ports.more s"
  by (simp add: pic_eoi_def pic_consts word_le_nat_alt Let_def)

end
