(* ===== verification/Idt.thy ===== *)
theory Idt
  imports Console Pic
begin

unbundle bit_operations_syntax

text \<open>
  The interrupt descriptor table, \<^verbatim>\<open>kernel/arch/x86_64/idt.c\<close> with \<^verbatim>\<open>include/idt.h\<close>: the gates,
  the two installation loops, the table of per-line handlers and the exception printer.  The stub
  addresses of \<^verbatim>\<open>isr.asm\<close> and the address of the table are fixed by the linker, so they are
  arguments.  \<open>irq_dispatch\<close>, which calls the drivers, is in theory \<open>Interrupts\<close>.
\<close>

section \<open>Data\<close>

record idt_entry =
  offset_low :: u16
  selector :: u16
  ist :: u8
  type_attr :: u8
  offset_mid :: u16
  offset_high :: u32
  reserved :: u32

record idtr =
  idtr_limit :: u16
  idtr_base :: u64

definition IDT_EXCEPTION_COUNT :: u16 where "IDT_EXCEPTION_COUNT = 32"
definition IDT_IRQ_BASE :: u16 where "IDT_IRQ_BASE = 32"
definition IDT_IRQ_COUNT :: u16 where "IDT_IRQ_COUNT = 16"
definition IDT_FLAG_PRESENT_INT :: u8 where "IDT_FLAG_PRESENT_INT = 0x8E"
definition KERNEL_CS :: u16 where "KERNEL_CS = 0x18"

lemmas idt_consts = IDT_EXCEPTION_COUNT_def IDT_IRQ_BASE_def IDT_IRQ_COUNT_def
  IDT_FLAG_PRESENT_INT_def KERNEL_CS_def

text \<open>The handlers the kernel registers; a NULL slot is \<open>None\<close>.\<close>

datatype irq_handler = Pit_on_tick | Keyboard_on_irq

text \<open>
  The static variables, and \<open>cpu_idtr\<close>, the CPU register that \<open>lidt\<close> loads.
\<close>

record interrupts = console +
  idt :: "u8 \<Rightarrow> idt_entry"
  idtr :: idtr
  cpu_idtr :: idtr
  irq_handlers :: "irq_handler option carray"

record interrupt_frame =
  f_r15 :: u64
  f_r14 :: u64
  f_r13 :: u64
  f_r12 :: u64
  f_r11 :: u64
  f_r10 :: u64
  f_r9 :: u64
  f_r8 :: u64
  f_rbp :: u64
  f_rdi :: u64
  f_rsi :: u64
  f_rdx :: u64
  f_rcx :: u64
  f_rbx :: u64
  f_rax :: u64
  f_vector :: u64
  f_error :: u64
  f_rip :: u64
  f_cs :: u64
  f_rflags :: u64
  f_rsp :: u64
  f_ss :: u64

section \<open>Operations\<close>

definition idt_set_gate ::
  "u8 \<Rightarrow> u64 \<Rightarrow> u16 \<Rightarrow> u8 \<Rightarrow> u8 \<Rightarrow> 'a interrupts_scheme \<Rightarrow> 'a interrupts_scheme" where
  "idt_set_gate vector handler sel i flags s = s\<lparr>idt := (idt s)(vector :=
     \<lparr>offset_low = ucast (handler AND 0xFFFF), selector = sel, ist = i AND 0x07, type_attr = flags,
      offset_mid = ucast (drop_bit 16 handler AND 0xFFFF),
      offset_high = ucast (drop_bit 32 handler AND 0xFFFFFFFF), reserved = 0\<rparr>)\<rparr>"

definition idt_init :: "u64 carray \<Rightarrow> u64 \<Rightarrow> 'a interrupts_scheme \<Rightarrow> 'a interrupts_scheme" where
  "idt_init isr_stub_table idt_addr s =
     (let s = for_range (0 :: u16) IDT_EXCEPTION_COUNT
            (\<lambda>i. idt_set_gate (ucast i) (isr_stub_table (unat i)) KERNEL_CS 0 IDT_FLAG_PRESENT_INT) s;
          s = s\<lparr>idtr := \<lparr>idtr_limit = of_nat (256 * 16 - 1), idtr_base = idt_addr\<rparr>\<rparr>
      in s\<lparr>cpu_idtr := idtr s\<rparr>)"

definition idt_install_irqs :: "u64 carray \<Rightarrow> 'a interrupts_scheme \<Rightarrow> 'a interrupts_scheme" where
  "idt_install_irqs irq_stub_table s =
     for_range (0 :: u16) IDT_IRQ_COUNT
       (\<lambda>i. idt_set_gate (ucast (IDT_IRQ_BASE + i)) (irq_stub_table (unat i)) KERNEL_CS 0
              IDT_FLAG_PRESENT_INT) s"

definition irq_register_handler ::
  "u8 \<Rightarrow> irq_handler option \<Rightarrow> 'a interrupts_scheme \<Rightarrow> 'a interrupts_scheme" where
  "irq_register_handler irq handler s =
     (if ucast IDT_IRQ_COUNT \<le> irq then s
      else s\<lparr>irq_handlers := (irq_handlers s)(unat irq := handler)\<rparr>)"

definition exception_names :: "string list" where
  "exception_names =
     [''Divide Error (#DE)'', ''Debug Exception (#DB)'', ''NMI'',
      ''Breakpoint (#BP)'', ''Overflow (#OF)'', ''Bound Range (#BR)'',
      ''Invalid Opcode (#UD)'', ''Device Not Available (#NM)'',
      ''Double Fault (#DF)'', ''Coprocessor Segment Overrun'',
      ''Invalid TSS (#TS)'', ''Segment Not Present (#NP)'',
      ''Stack-Segment Fault (#SS)'', ''General Protection (#GP)'',
      ''Page Fault (#PF)'', ''Reserved (15)'',
      ''x87 Floating-Point (#MF)'', ''Alignment Check (#AC)'',
      ''Machine Check (#MC)'', ''SIMD Floating-Point (#XM)'',
      ''Virtualization (#VE)'', ''Control Protection (#CP)'',
      ''Reserved (22)'', ''Reserved (23)'', ''Reserved (24)'', ''Reserved (25)'',
      ''Reserved (26)'', ''Reserved (27)'', ''Hypervisor Injection (#HV)'',
      ''VMM Communication (#VC)'', ''Security Exception (#SX)'', ''Reserved (31)'']"

text \<open>
  \<open>exception_handler\<close> prints and then executes \<open>cli; hlt\<close> forever; the result is the state
  in which the CPU is parked.
\<close>

definition exception_handler :: "interrupt_frame \<Rightarrow> 'a console_scheme \<Rightarrow> 'a console_scheme" where
  "exception_handler frame s =
     (let vector = f_vector frame;
          name = (if vector < ucast IDT_EXCEPTION_COUNT then exception_names ! unat vector
                  else ''Unknown Exception'');
          s = console_puts (cstr (CHR 0x0A # ''*** EXCEPTION: '')) s;
          s = console_puts (cstr name) s;
          s = console_puts (cstr '' (vector '') s;
          s = console_puthex64 vector s;
          s = console_puts (cstr ('') ***'' @ CHR 0x0A # ''error: '')) s;
          s = console_puthex64 (f_error frame) s;
          s = console_puts (cstr '' rip: '') s;
          s = console_puthex64 (f_rip frame) s;
          s = console_puts (cstr '' cs: '') s;
          s = console_puthex64 (f_cs frame) s;
          s = console_puts (cstr '' rflags: '') s;
          s = console_puthex64 (f_rflags frame) s
      in console_puts (cstr (CHR 0x0A # ''System halted.'' @ [CHR 0x0A])) s)"

section \<open>Gates\<close>

text \<open>What the CPU makes of a descriptor: the handler address it jumps to.\<close>

definition gate_offset :: "idt_entry \<Rightarrow> u64" where
  "gate_offset e = ucast (offset_low e) OR push_bit 16 (ucast (offset_mid e)) OR push_bit 32 (ucast (offset_high e))"

definition int_gate :: "u64 \<Rightarrow> idt_entry" where
  "int_gate h = \<lparr>offset_low = ucast h, selector = 0x18, ist = 0, type_attr = 0x8E,
     offset_mid = ucast (drop_bit 16 h), offset_high = ucast (drop_bit 32 h), reserved = 0\<rparr>"

lemma gate_offset_int_gate: "gate_offset (int_gate h) = h"
proof (rule bit_word_eqI)
  fix n
  assume "n < LENGTH(64)"
  then have n: "n < 64" by simp
  then show "bit (gate_offset (int_gate h)) n = bit h n"
    by (cases "n < 32") (auto simp: gate_offset_def int_gate_def bit_simps)
qed

lemma low_mask: "w AND 0xFFFF = take_bit 16 w" "w AND 0xFFFFFFFF = take_bit 32 w" for w :: u64
  by (simp_all add: take_bit_eq_mask mask_eq_exp_minus_1)

lemma set_gate_int_gate:
  "idt_set_gate v h KERNEL_CS 0 IDT_FLAG_PRESENT_INT s = s\<lparr>idt := (idt s)(v := int_gate h)\<rparr>"
proof -
  have "(ucast (h AND 0xFFFF) :: u16) = ucast h"
    "(ucast (drop_bit 16 h AND 0xFFFF) :: u16) = ucast (drop_bit 16 h)"
    "(ucast (drop_bit 32 h AND 0xFFFFFFFF) :: u32) = ucast (drop_bit 32 h)"
    unfolding low_mask by (rule bit_word_eqI; simp add: bit_simps)+
  then show ?thesis by (simp add: idt_set_gate_def int_gate_def idt_consts)
qed

text \<open>A loop of gate installations, as a function of the vector.\<close>

lemma install_loop:
  assumes "unat n = m" "b + m \<le> 256"
  shows "for_range (0 :: u16) n (\<lambda>i. idt_set_gate (ucast (of_nat b + i)) (stubs (unat i)) KERNEL_CS 0
      IDT_FLAG_PRESENT_INT) s
    = s\<lparr>idt := (\<lambda>v. if b \<le> unat v \<and> unat v < b + m then int_gate (stubs (unat v - b)) else idt s v)\<rparr>"
proof (rule for_range_rule [where a = 0 and b = m and
      P = "\<lambda>k t. t = s\<lparr>idt := (\<lambda>v. if b \<le> unat v \<and> unat v < b + k then int_gate (stubs (unat v - b)) else idt s v)\<rparr>"])
  fix k t
  assume k: "k < m" "unat (of_nat k :: u16) = k"
    and t: "t = s\<lparr>idt := (\<lambda>v. if b \<le> unat v \<and> unat v < b + k then int_gate (stubs (unat v - b)) else idt s v)\<rparr>"
  define w where "w = (ucast (of_nat b + of_nat k :: u16) :: u8)"
  have "unat w = b + k" using k assms(2)
    by (simp add: w_def unsigned_ucast_eq unat_word_ariths unat_of_nat take_bit_eq_mod)
  moreover have "v = w \<longleftrightarrow> unat v = b + k" for v using calculation by (auto simp: word_unat_eq_iff)
  ultimately show "idt_set_gate (ucast (of_nat b + of_nat k :: u16)) (stubs (unat (of_nat k :: u16))) KERNEL_CS 0
      IDT_FLAG_PRESENT_INT t
    = s\<lparr>idt := (\<lambda>v. if b \<le> unat v \<and> unat v < b + Suc k then int_gate (stubs (unat v - b)) else idt s v)\<rparr>"
    unfolding w_def [symmetric] set_gate_int_gate t
    by (auto simp: k fun_eq_iff less_Suc_eq)
next
  have "(\<lambda>v. if b \<le> unat v \<and> unat v < b + 0 then int_gate (stubs (unat v - b)) else idt s v) = idt s"
    by (rule ext) auto
  then show "s = s\<lparr>idt := (\<lambda>v. if b \<le> unat v \<and> unat v < b + 0 then int_gate (stubs (unat v - b)) else idt s v)\<rparr>"
    by simp
qed (use assms in simp_all)

lemma idt_init_eq:
  "idt_init isr addr s = s\<lparr>idt := (\<lambda>v. if unat v < 32 then int_gate (isr (unat v)) else idt s v),
     idtr := \<lparr>idtr_limit = 0xFFF, idtr_base = addr\<rparr>, cpu_idtr := \<lparr>idtr_limit = 0xFFF, idtr_base = addr\<rparr>\<rparr>"
  using install_loop [of 32 32 0 isr s] by (simp add: idt_init_def idt_consts(1) Let_def cong: if_cong)

lemma idt_install_irqs_eq:
  "idt_install_irqs irq s = s\<lparr>idt := (\<lambda>v. if 32 \<le> unat v \<and> unat v < 48 then int_gate (irq (unat v - 32)) else idt s v)\<rparr>"
  using install_loop [of 16 16 32 irq s] by (simp add: idt_install_irqs_def idt_consts(2,3))

section \<open>Properties\<close>

text \<open>
  After \<open>idt_init\<close> and \<open>idt_install_irqs\<close> the CPU's table has, for the exception vectors 0 to
  31 and the interrupt vectors 32 to 47, a present ring-0 interrupt gate in the kernel code segment
  whose split offset fields recombine to the stub of exactly that vector; the gates from 48 on are
  what they were; the loaded table register names the whole table.
\<close>

theorem idt_installs_stubs:
  "let t = idt_install_irqs irq_stubs (idt_init isr_stubs addr s); e = idt t v
   in (if unat v < 48
       then selector e = 0x18 \<and> type_attr e = 0x8E \<and> ist e = 0
         \<and> gate_offset e = (if unat v < 32 then isr_stubs (unat v) else irq_stubs (unat v - 32))
       else e = idt s v)
    \<and> cpu_idtr t = \<lparr>idtr_limit = 0xFFF, idtr_base = addr\<rparr> \<and> irq_handlers t = irq_handlers s"
  by (simp add: idt_init_eq idt_install_irqs_eq Let_def gate_offset_int_gate) (simp add: int_gate_def)

text \<open>
  \<open>exception_handler\<close> prints one message: the name the manual gives the vector (or "Unknown
  Exception"), the vector, the error code and the saved \<open>rip\<close>, \<open>cs\<close> and \<open>rflags\<close>, each as
  sixteen hexadecimal digits.
\<close>

theorem exception_handler_prints:
  "exception_handler frame s = console_puts
     (cstr (CHR 0x0A # ''*** EXCEPTION: '')
      @ cstr (if unat (f_vector frame) < 32 then exception_names ! unat (f_vector frame) else ''Unknown Exception'')
      @ cstr '' (vector 0x'' @ hex_string 16 (f_vector frame)
      @ cstr ('') ***'' @ CHR 0x0A # ''error: 0x'') @ hex_string 16 (f_error frame)
      @ cstr '' rip: 0x'' @ hex_string 16 (f_rip frame)
      @ cstr '' cs: 0x'' @ hex_string 16 (f_cs frame)
      @ cstr '' rflags: 0x'' @ hex_string 16 (f_rflags frame)
      @ cstr (CHR 0x0A # ''System halted.'' @ [CHR 0x0A])) s"
proof -
  let ?name = "if unat (f_vector frame) < 32 then exception_names ! unat (f_vector frame) else ''Unknown Exception''"
  have "\<forall>n\<in>set exception_names. CHR 0x00 \<notin> set n" by (simp add: exception_names_def)
  moreover have "length exception_names = 32" by (simp add: exception_names_def)
  ultimately have n: "CHR 0x00 \<notin> set ?name" by (simp add: nth_mem)
  have lt: "f_vector frame < ucast IDT_EXCEPTION_COUNT \<longleftrightarrow> unat (f_vector frame) < 32"
    by (simp add: idt_consts word_less_nat_alt)
  have h: "0 \<notin> set (hex_string 16 v)" for v using hex_string_props by blast
  have split: "cstr '' (vector 0x'' = cstr '' (vector '' @ cstr ''0x''"
    "cstr ('') ***'' @ CHR 0x0A # ''error: 0x'') = cstr ('') ***'' @ CHR 0x0A # ''error: '') @ cstr ''0x''"
    "cstr '' rip: 0x'' = cstr '' rip: '' @ cstr ''0x''" "cstr '' cs: 0x'' = cstr '' cs: '' @ cstr ''0x''"
    "cstr '' rflags: 0x'' = cstr '' rflags: '' @ cstr ''0x''"
    by (simp_all add: cstr_append [symmetric])
  show ?thesis
    unfolding exception_handler_def Let_def lt console_puthex64_puts split
    by (simp add: console_puts_append n h del: if_split)
qed

end
