(* ===== verification/Pit.thy ===== *)
theory Pit
  imports Idt
begin

unbundle bit_operations_syntax

text \<open>
  The timer driver, \<^verbatim>\<open>kernel/arch/x86_64/pit.c\<close> with \<^verbatim>\<open>include/pit.h\<close>: programming of the 8254's
  channel 0, the tick counter, and the sleep loop.  Sleeping depends on interrupts, which arrive at
  any point between two reads of the counter: the loop takes, for each turn, the effects of those
  that arrive after its test and before \<open>hlt\<close>, of the one that ends the \<open>hlt\<close>, and of those that
  arrive before the next test.  Its result is \<open>None\<close> if it is still asleep when the turns are used up.
\<close>

section \<open>The driver\<close>

definition PIT_CMD :: u16 where "PIT_CMD = 0x43"
definition PIT_CH0 :: u16 where "PIT_CH0 = 0x40"
definition PIT_CMD_CH0_MODE3 :: u8 where "PIT_CMD_CH0_MODE3 = 0x36"
definition PIT_BASE_HZ :: u32 where "PIT_BASE_HZ = 1193182"
definition PIT_HZ :: u32 where "PIT_HZ = 100"
definition PIT_DIVISOR :: u32 where "PIT_DIVISOR = PIT_BASE_HZ div PIT_HZ"
definition PIT_IRQ :: u8 where "PIT_IRQ = 0"

lemmas pit_consts = PIT_CMD_def PIT_CH0_def PIT_CMD_CH0_MODE3_def PIT_BASE_HZ_def PIT_HZ_def
  PIT_DIVISOR_def PIT_IRQ_def

record pit = interrupts +
  s_ticks :: u64
  s_initialized :: u8

definition pit_init :: "'a pit_scheme \<Rightarrow> 'a pit_scheme" where
  "pit_init s =
     (if s_initialized s \<noteq> 0 then s
      else let divisor = (ucast PIT_DIVISOR :: u16);
               lo = ucast (divisor AND 0xFF);
               hi = ucast (drop_bit 8 divisor AND 0xFF);
               s = outb PIT_CMD PIT_CMD_CH0_MODE3 s;
               s = outb PIT_CH0 lo s;
               s = outb PIT_CH0 hi s;
               s = irq_register_handler PIT_IRQ (Some Pit_on_tick) s
        in s\<lparr>s_initialized := 1\<rparr>)"

definition pit_on_tick :: "'a pit_scheme \<Rightarrow> 'a pit_scheme" where
  "pit_on_tick s = s\<lparr>s_ticks := s_ticks s + 1\<rparr>"

definition pit_ticks :: "'a pit_scheme \<Rightarrow> u64" where
  "pit_ticks s = s_ticks s"

type_synonym 'a effect = "'a pit_scheme \<Rightarrow> 'a pit_scheme"

definition arrive :: "'a effect list \<Rightarrow> 'a effect" where
  "arrive fs s = fold (\<lambda>f. f) fs s"

fun pit_sleep_loop ::
  "u64 \<Rightarrow> u64 \<Rightarrow> ('a effect list \<times> 'a effect \<times> 'a effect list) list \<Rightarrow> 'a pit_scheme
    \<Rightarrow> (('a effect list \<times> 'a effect \<times> 'a effect list) list \<times> 'a pit_scheme) option" where
  "pit_sleep_loop start ticks turns s =
     (if s_ticks s - start < ticks
      then case turns of [] \<Rightarrow> None
        | (late, wake, soon) # turns \<Rightarrow>
            let s = arrive late s;
                s = wake s;
                s = arrive soon s
            in pit_sleep_loop start ticks turns s
      else Some (turns, s))"

text \<open>The interrupts \<open>early\<close> arrive between the first read of the counter and the first test.\<close>

definition pit_sleep ::
  "u64 \<Rightarrow> 'a effect list \<Rightarrow> ('a effect list \<times> 'a effect \<times> 'a effect list) list \<Rightarrow> 'a pit_scheme
    \<Rightarrow> (('a effect list \<times> 'a effect \<times> 'a effect list) list \<times> 'a pit_scheme) option" where
  "pit_sleep ticks early turns s =
     (let start = s_ticks s; s = arrive early s in pit_sleep_loop start ticks turns s)"

declare pit_sleep_loop.simps [simp del]

section \<open>Channel 0 of the 8254\<close>

text \<open>
  A command byte for channel 0 selects access mode and operating mode and expects the low byte
  first; in access mode 3 the count is loaded when the high byte has followed.
\<close>

record pit_chip =
  pit_access :: u8
  pit_mode :: u8
  pit_low :: "u8 option"
  pit_count :: nat

fun pit_chip_step :: "io_event \<Rightarrow> pit_chip \<Rightarrow> pit_chip" where
  "pit_chip_step (In port v) c = c"
| "pit_chip_step (Out port v) c =
     (if port = PIT_CMD \<and> drop_bit 6 v = 0
      then c\<lparr>pit_access := drop_bit 4 v AND 3, pit_mode := drop_bit 1 v AND 7, pit_low := None\<rparr>
      else if port = PIT_CH0 \<and> pit_access c = 3
      then (case pit_low c of
              None \<Rightarrow> c\<lparr>pit_low := Some v\<rparr>
            | Some lo \<Rightarrow> c\<lparr>pit_low := None, pit_count := 256 * unat v + unat lo\<rparr>)
      else c)"

definition pit_channel0 :: "pit_chip \<Rightarrow> io_event list \<Rightarrow> pit_chip" where
  "pit_channel0 c log = fold pit_chip_step log c"

section \<open>Properties\<close>

text \<open>
  The first \<open>pit_init\<close> programs channel 0, whatever its state, as a mode-3 square wave with
  count 11931, the whole part of 1193182 / 100, and registers \<open>pit_on_tick\<close> on line 0; every
  later call changes nothing.
\<close>

theorem pit_init_programs_once:
  "pit_init (pit_init s) = pit_init s
   \<and> (if s_initialized s = 0
      then pit_mode (pit_channel0 c (io_log (pit_init s))) = 3
        \<and> pit_count (pit_channel0 c (io_log (pit_init s))) = 1193182 div 100
        \<and> irq_handlers (pit_init s) 0 = Some Pit_on_tick
        \<and> s_ticks (pit_init s) = s_ticks s
      else pit_init s = s)"
  by (simp add: pit_init_def Let_def pit_consts irq_register_handler_def idt_consts pit_channel0_def
      outb_def)

text \<open>Every interrupt advances the counter by at most one tick; a timer interrupt always does.\<close>

definition wake_ok :: "'a effect \<Rightarrow> bool" where
  "wake_ok w \<longleftrightarrow> (\<forall>s. s_ticks (w s) = s_ticks s \<or> s_ticks (w s) = s_ticks s + 1)"

definition ticking :: "'a effect \<Rightarrow> bool" where
  "ticking w \<longleftrightarrow> (\<forall>s. s_ticks (w s) = s_ticks s + 1)"

text \<open>The interrupts of a turn, and the state at the test after \<open>j\<close> turns.\<close>

definition turn_effects :: "'a effect list \<times> 'a effect \<times> 'a effect list \<Rightarrow> 'a effect list" where
  "turn_effects = (\<lambda>(late, wake, soon). late @ wake # soon)"

definition at_test :: "('a effect list \<times> 'a effect \<times> 'a effect list) list \<Rightarrow> nat \<Rightarrow> 'a effect" where
  "at_test turns j = arrive (concat (map turn_effects (take j turns)))"

lemma arrive_simps [simp]:
  "arrive [] s = s" "arrive (f # fs) s = arrive fs (f s)" "arrive (fs @ gs) s = arrive gs (arrive fs s)"
  by (simp_all add: arrive_def)

lemma at_test_simps [simp]:
  "at_test turns 0 s = s" "at_test (x # turns) (Suc j) s = at_test turns j (arrive (turn_effects x) s)"
  by (simp_all add: at_test_def)

lemma pit_sleep_loop_turn: "pit_sleep_loop start ticks (x # turns) s =
  (if s_ticks s - start < ticks then pit_sleep_loop start ticks turns (arrive (turn_effects x) s) else Some (x # turns, s))"
  by (subst pit_sleep_loop.simps) (simp add: turn_effects_def split_beta Let_def)

text \<open>The time that passes with a list of interrupts: not less than its timer ticks, not more than its length.\<close>

lemma arrive_ticks:
  assumes "list_all wake_ok fs" "unat (s_ticks s - start) + length fs < 2 ^ 64"
  shows "unat (s_ticks s - start) + length (filter ticking fs) \<le> unat (s_ticks (arrive fs s) - start)
    \<and> unat (s_ticks (arrive fs s) - start) \<le> unat (s_ticks s - start) + length fs"
  using assms
proof (induction fs arbitrary: s)
  case (Cons f fs)
  have "s_ticks s + 1 - start = (s_ticks s - start) + 1" by simp
  moreover have "unat ((s_ticks s - start) + 1) = unat (s_ticks s - start) + 1"
    using Cons.prems(2) by (subst unat_add_small) simp_all
  ultimately have "unat (s_ticks s + 1 - start) = unat (s_ticks s - start) + 1" by (simp only:)
  moreover have "s_ticks (f s) = s_ticks s \<or> s_ticks (f s) = s_ticks s + 1" "ticking f \<Longrightarrow> s_ticks (f s) = s_ticks s + 1"
    using Cons.prems(1) by (simp_all add: wake_ok_def ticking_def)
  ultimately have f: "unat (s_ticks (f s) - start) \<le> unat (s_ticks s - start) + 1"
    "unat (s_ticks s - start) + (if ticking f then 1 else 0) \<le> unat (s_ticks (f s) - start)" by auto
  then have "unat (s_ticks (f s) - start) + length fs < 2 ^ 64" using Cons.prems(2) by simp
  with Cons.IH [of "f s"] Cons.prems(1) f show ?case by auto
qed simp

lemma pit_sleep_loop_returns:
  assumes "list_all wake_ok (concat (map turn_effects turns))"
    and "unat (s_ticks s - start) + length (concat (map turn_effects turns)) < 2 ^ 64"
    and "unat ticks \<le> unat (s_ticks s - start) + length (filter ticking (concat (map turn_effects turns)))"
  shows "\<exists>j\<le>length turns. pit_sleep_loop start ticks turns s = Some (drop j turns, at_test turns j s)
    \<and> ticks \<le> s_ticks (at_test turns j s) - start \<and> (\<forall>i<j. s_ticks (at_test turns i s) - start < ticks)
    \<and> (if j = 0 then True
       else unat (s_ticks (at_test turns j s) - start) < unat ticks + length (turn_effects (turns ! (j - 1))))"
  using assms
proof (induction turns arbitrary: s)
  case Nil
  then show ?case by (auto simp: pit_sleep_loop.simps word_less_nat_alt word_le_nat_alt)
next
  case (Cons x turns)
  show ?case
  proof (cases "s_ticks s - start < ticks")
    case False
    then show ?thesis by (intro exI [of _ 0]) (auto simp: pit_sleep_loop_turn word_less_nat_alt word_le_nat_alt)
  next
    case True
    define t where "t = arrive (turn_effects x) s"
    have "list_all wake_ok (turn_effects x)" using Cons.prems(1) by simp
    from arrive_ticks [OF this, of s start] Cons.prems(2)
    have t: "unat (s_ticks s - start) + length (filter ticking (turn_effects x)) \<le> unat (s_ticks t - start)"
      "unat (s_ticks t - start) \<le> unat (s_ticks s - start) + length (turn_effects x)"
      by (simp_all add: t_def)
    obtain j where j: "j \<le> length turns" "pit_sleep_loop start ticks turns t = Some (drop j turns, at_test turns j t)"
      "ticks \<le> s_ticks (at_test turns j t) - start" "\<forall>i<j. s_ticks (at_test turns i t) - start < ticks"
      "if j = 0 then True else unat (s_ticks (at_test turns j t) - start) < unat ticks + length (turn_effects (turns ! (j - 1)))"
      using Cons.IH [of t] Cons.prems t by auto
    have "\<forall>i<Suc j. s_ticks (at_test (x # turns) i s) - start < ticks"
      using True j(4) by (auto simp: less_Suc_eq_0_disj t_def)
    moreover have "unat (s_ticks (at_test turns j t) - start) < unat ticks + length (turn_effects ((x # turns) ! j))"
      using True t(2) j(5) by (cases j) (auto simp: word_less_nat_alt)
    ultimately show ?thesis using True j(1-3)
      by (intro exI [of _ "Suc j"]) (simp add: pit_sleep_loop_turn t_def)
  qed
qed

text \<open>
  C28: \<open>pit_sleep\<close> ends, and not early.  Interrupts may arrive anywhere between two tests of the loop.
  As soon as enough of them are timer ticks the sleep is over at some test: at least \<open>ticks\<close> ticks have
  passed by then, fewer had passed at every test before, and it overshoots by less than the interrupts
  of the last turn, the case of a tick between the test and \<open>hlt\<close> included.  If interrupts arrive only
  while the CPU is halted it is exact.  All of this holds across a wrap-around of the counter.
\<close>

theorem pit_sleep_returns:
  assumes "effs = early @ concat (map turn_effects turns)" "list_all wake_ok effs" "length effs < 2 ^ 64"
    and "unat ticks \<le> length (filter ticking effs)"
  shows "\<exists>j t. pit_sleep ticks early turns s = Some (drop j turns, t) \<and> j \<le> length turns \<and> t = at_test turns j (arrive early s)
    \<and> ticks \<le> s_ticks t - s_ticks s \<and> (\<forall>i<j. s_ticks (at_test turns i (arrive early s)) - s_ticks s < ticks)
    \<and> (if j = 0 then unat (s_ticks t - s_ticks s) \<le> length early
       else unat (s_ticks t - s_ticks s) < unat ticks + length (turn_effects (turns ! (j - 1))))
    \<and> (if early = [] \<and> list_all (\<lambda>x. length (turn_effects x) = 1) turns then s_ticks t = s_ticks s + ticks else True)"
proof -
  define u where "u = arrive early s"
  have u: "length (filter ticking early) \<le> unat (s_ticks u - s_ticks s)" "unat (s_ticks u - s_ticks s) \<le> length early"
    using arrive_ticks [of early s "s_ticks s"] assms(1-3) by (simp_all add: u_def)
  with assms obtain j where j: "j \<le> length turns"
    "pit_sleep_loop (s_ticks s) ticks turns u = Some (drop j turns, at_test turns j u)"
    "ticks \<le> s_ticks (at_test turns j u) - s_ticks s" "\<forall>i<j. s_ticks (at_test turns i u) - s_ticks s < ticks"
    "if j = 0 then True else unat (s_ticks (at_test turns j u) - s_ticks s) < unat ticks + length (turn_effects (turns ! (j - 1)))"
    using pit_sleep_loop_returns [of turns u "s_ticks s" ticks] by auto
  let ?d = "s_ticks (at_test turns j u) - s_ticks s"
  have over: "if j = 0 then unat ?d \<le> length early else unat ?d < unat ticks + length (turn_effects (turns ! (j - 1)))"
    using j(5) u(2) by auto
  have exact: "s_ticks (at_test turns j u) = s_ticks s + ticks"
    if "early = []" "list_all (\<lambda>x. length (turn_effects x) = 1) turns"
  proof -
    have "length (turn_effects (turns ! (j - 1))) = 1" if "j \<noteq> 0"
      using \<open>list_all _ turns\<close> j(1) that by (simp add: list_all_length)
    with over j(3) \<open>early = []\<close> have "unat ?d = unat ticks" by (auto simp: word_le_nat_alt split: if_splits)
    then show ?thesis by (metis add.commute diff_add_cancel word_unat_eq_iff)
  qed
  then have "if early = [] \<and> list_all (\<lambda>x. length (turn_effects x) = 1) turns
    then s_ticks (at_test turns j u) = s_ticks s + ticks else True" by simp
  moreover have "pit_sleep ticks early turns s = Some (drop j turns, at_test turns j u)"
    using j(2) by (simp add: pit_sleep_def u_def)
  ultimately show ?thesis using j(1,3,4) over unfolding u_def [symmetric] by blast
qed

lemma wake_examples: "wake_ok pit_on_tick" "wake_ok id" "ticking pit_on_tick" "\<not> ticking id"
  by (simp_all add: wake_ok_def ticking_def pit_on_tick_def)

text \<open>A sleep of two ticks during which a tick comes too late for the first test: three pass.\<close>

definition late_turns :: "(unit effect list \<times> unit effect \<times> unit effect list) list" where
  "late_turns = [([], id, [pit_on_tick]), ([pit_on_tick], pit_on_tick, []), ([], id, [])]"

theorem pit_sleep_returns_witness:
  "\<exists>t. pit_sleep 2 [] late_turns (s_ticks_update (\<lambda>_. - 1) undefined) = Some ([([], id, [])], t) \<and> s_ticks t = 2"
proof -
  define s :: pit where "s = s_ticks_update (\<lambda>_. - 1) undefined"
  have s: "s_ticks s = - 1" by (simp add: s_def)
  have e: "concat (map turn_effects late_turns) = [id, pit_on_tick, pit_on_tick, pit_on_tick, id]"
    by (simp add: late_turns_def turn_effects_def)
  obtain j t where j: "pit_sleep 2 [] late_turns s = Some (drop j late_turns, t)" "j \<le> 3" "t = at_test late_turns j s"
    "2 \<le> s_ticks t - s_ticks s" "\<forall>i<j. s_ticks (at_test late_turns i s) - s_ticks s < 2"
    using pit_sleep_returns [of "[id, pit_on_tick, pit_on_tick, pit_on_tick, id]" "[]" late_turns 2 s]
    by (auto simp: e wake_examples) (auto simp: late_turns_def)
  have at: "s_ticks (at_test late_turns 0 s) - s_ticks s = 0" "s_ticks (at_test late_turns 1 s) - s_ticks s = 1"
    "s_ticks (at_test late_turns 2 s) - s_ticks s = 3"
    by (simp_all add: late_turns_def at_test_def turn_effects_def pit_on_tick_def numeral_2_eq_2)
  have c: "\<not> (2 :: u64) \<le> 0" "\<not> (2 :: u64) \<le> 1" "\<not> (3 :: u64) < 2" by (simp_all add: word_le_nat_alt word_less_nat_alt)
  have "j \<noteq> 0" using j(4) at(1) c(1) unfolding j(3) by metis
  moreover have "j \<noteq> 1" using j(4) at(2) c(2) unfolding j(3) by metis
  moreover have "\<not> 2 < j" using j(5) at(3) c(3) by metis
  ultimately have "j = 2" by linarith
  with j(1,3) at(3) s show ?thesis by (auto simp: late_turns_def s_def [symmetric])
qed

text \<open>
  Without timer ticks, as with interrupts of that line masked, a sleep of a positive number of ticks
  does not return, however often something else wakes the CPU.
\<close>

theorem pit_sleep_without_ticks:
  assumes "0 < ticks" and "list_all (\<lambda>w. \<forall>s. s_ticks (w s) = s_ticks s) (early @ concat (map turn_effects turns))"
  shows "pit_sleep ticks early turns s = None"
proof -
  have still: "s_ticks (arrive fs s) = s_ticks s" if "list_all (\<lambda>w. \<forall>s. s_ticks (w s) = s_ticks s) fs"
    for fs and s :: "'a pit_scheme" using that by (induction fs arbitrary: s) auto
  have asleep: "pit_sleep_loop start ticks turns u = None" if "s_ticks u = start" for start u
    using assms that
    by (induction turns arbitrary: u) (auto simp: pit_sleep_loop_turn still pit_sleep_loop.simps [of _ _ "[]"])
  have "s_ticks (arrive early s) = s_ticks s" using assms(2) by (intro still) simp
  from asleep [OF this] show ?thesis by (simp add: pit_sleep_def)
qed

theorem pit_sleep_without_ticks_witness:
  "pit_sleep 5 [id] [([], id, [id]), ([id], id, [])] (undefined :: pit) = None"
  using pit_sleep_without_ticks [of 5 "[id]" "[([], id, [id]), ([id], id, [])]" undefined] by (simp add: turn_effects_def)

end
