(* ===== verification/Bounded_Queue.thy ===== *)
theory Bounded_Queue
  imports Nadir_Prelude
begin

text \<open>
  The contract of a bounded first-in first-out queue that drops the newest element when full, as
  the keyboard driver offers it to its two users, the interrupt handler and the main loop.  The
  locale derives that every sequence of operations behaves as on a list, and that draining the queue
  yields its contents in order and ends.
\<close>

datatype 'c queue_op = Put 'c | Get

fun queue_run :: "('c \<Rightarrow> 's \<Rightarrow> 's) \<Rightarrow> ('s \<Rightarrow> 'c \<times> 's) \<Rightarrow> 'c queue_op list \<Rightarrow> 's \<Rightarrow> 'c list \<times> 's" where
  "queue_run put get [] s = ([], s)"
| "queue_run put get (Put c # ops) s = queue_run put get ops (put c s)"
| "queue_run put get (Get # ops) s =
     (let (c, s) = get s; (out, s) = queue_run put get ops s in (c # out, s))"

text \<open>The specification: a list of at most \<open>cap\<close> elements.\<close>

fun list_run :: "nat \<Rightarrow> 'c \<Rightarrow> 'c queue_op list \<Rightarrow> 'c list \<Rightarrow> 'c list \<times> 'c list" where
  "list_run cap nul [] xs = ([], xs)"
| "list_run cap nul (Put c # ops) xs = list_run cap nul ops (if length xs < cap then xs @ [c] else xs)"
| "list_run cap nul (Get # ops) xs =
     (let (out, ys) = list_run cap nul ops (tl xs) in ((if xs = [] then nul else hd xs) # out, ys))"

locale bounded_queue =
  fixes put :: "'c \<Rightarrow> 's \<Rightarrow> 's"
    and get :: "'s \<Rightarrow> 'c \<times> 's"
    and has :: "'s \<Rightarrow> bool"
    and nul :: 'c
    and cap :: nat
    and contents :: "'s \<Rightarrow> 'c list"
    and invar :: "'s \<Rightarrow> bool"
  assumes put_contents: "invar s \<Longrightarrow> invar (put c s) \<and>
      contents (put c s) = (if length (contents s) < cap then contents s @ [c] else contents s)"
    and get_empty: "invar s \<Longrightarrow> contents s = [] \<Longrightarrow> get s = (nul, s)"
    and get_first: "invar s \<Longrightarrow> contents s = x # xs \<Longrightarrow>
      \<exists>t. get s = (x, t) \<and> invar t \<and> contents t = xs"
    and has_iff: "invar s \<Longrightarrow> has s \<longleftrightarrow> contents s \<noteq> []"
    and cap_bound: "invar s \<Longrightarrow> length (contents s) \<le> cap"
begin

lemma run_refines:
  assumes "invar s"
  shows "case queue_run put get ops s of (out, t) \<Rightarrow>
    invar t \<and> list_run cap nul ops (contents s) = (out, contents t)"
  using assms
proof (induction ops arbitrary: s)
  case (Cons op ops)
  show ?case
  proof (cases op)
    case (Put c)
    with Cons.IH [of "put c s"] Cons.prems put_contents [of s c] show ?thesis by auto
  next
    case Get
    show ?thesis
    proof (cases "contents s")
      case Nil
      with Get Cons.IH [OF Cons.prems] get_empty [OF Cons.prems] show ?thesis
        by (auto split: prod.splits)
    next
      case (Cons x xs)
      with get_first [OF Cons.prems] obtain t where "get s = (x, t)" "invar t" "contents t = xs" by blast
      with Get Cons \<open>contents s = x # xs\<close> Cons.IH [of t] show ?thesis by (auto split: prod.splits)
    qed
  qed
qed simp

end

end
