(* ===== verification/Keyboard.thy ===== *)
theory Keyboard
  imports Pit Bounded_Queue
begin

unbundle bit_operations_syntax

text \<open>
  The keyboard driver, \<^verbatim>\<open>kernel/arch/x86_64/keyboard.c\<close>: scancode translation with Shift and
  CapsLock, and the ring buffer between the interrupt handler and the main loop.  The ring refines a
  bounded list queue; the consumer's accesses are also modelled one by one, with interrupts between
  any two of them.
\<close>

section \<open>Data\<close>

definition KBD_DATA :: u16 where "KBD_DATA = 0x60"
definition KBD_BUF_SIZE :: nat where "KBD_BUF_SIZE = 128"
definition SC_RELEASE :: u8 where "SC_RELEASE = 0x80"
definition SC_EXTENDED :: u8 where "SC_EXTENDED = 0xE0"
definition SC_LSHIFT :: u8 where "SC_LSHIFT = 0x2A"
definition SC_RSHIFT :: u8 where "SC_RSHIFT = 0x36"
definition SC_CAPS :: u8 where "SC_CAPS = 0x3A"

lemmas kbd_consts = KBD_DATA_def KBD_BUF_SIZE_def SC_RELEASE_def SC_EXTENDED_def SC_LSHIFT_def
  SC_RSHIFT_def SC_CAPS_def

text \<open>The translation tables: elements without an initializer are 0.\<close>

definition char_table :: "(nat \<times> char) list \<Rightarrow> u8 \<Rightarrow> u8" where
  "char_table inits code = (case map_of inits (unat code) of None \<Rightarrow> 0 | Some c \<Rightarrow> of_char c)"

definition k_unshifted :: "(nat \<times> char) list" where
  "k_unshifted =
     [(0x02, CHR ''1''), (0x03, CHR ''2''), (0x04, CHR ''3''), (0x05, CHR ''4''),
      (0x06, CHR ''5''), (0x07, CHR ''6''), (0x08, CHR ''7''), (0x09, CHR ''8''),
      (0x0A, CHR ''9''), (0x0B, CHR ''0''), (0x0C, CHR ''-''), (0x0D, CHR ''=''),
      (0x0E, CHR 0x08), (0x0F, CHR 0x09), (0x10, CHR ''q''), (0x11, CHR ''w''),
      (0x12, CHR ''e''), (0x13, CHR ''r''), (0x14, CHR ''t''), (0x15, CHR ''y''),
      (0x16, CHR ''u''), (0x17, CHR ''i''), (0x18, CHR ''o''), (0x19, CHR ''p''),
      (0x1A, CHR ''[''), (0x1B, CHR '']''), (0x1C, CHR 0x0A), (0x1E, CHR ''a''),
      (0x1F, CHR ''s''), (0x20, CHR ''d''), (0x21, CHR ''f''), (0x22, CHR ''g''),
      (0x23, CHR ''h''), (0x24, CHR ''j''), (0x25, CHR ''k''), (0x26, CHR ''l''),
      (0x27, CHR '';''), (0x28, CHR 0x27), (0x29, CHR 0x60), (0x2B, CHR 0x5C),
      (0x2C, CHR ''z''), (0x2D, CHR ''x''), (0x2E, CHR ''c''), (0x2F, CHR ''v''),
      (0x30, CHR ''b''), (0x31, CHR ''n''), (0x32, CHR ''m''), (0x33, CHR '',''),
      (0x34, CHR ''.''), (0x35, CHR ''/''), (0x39, CHR '' '')]"

definition k_shifted :: "(nat \<times> char) list" where
  "k_shifted =
     [(0x02, CHR ''!''), (0x03, CHR ''@''), (0x04, CHR ''#''), (0x05, CHR ''$''),
      (0x06, CHR ''%''), (0x07, CHR ''^''), (0x08, CHR ''&''), (0x09, CHR ''*''),
      (0x0A, CHR ''(''), (0x0B, CHR '')''), (0x0C, CHR ''_''), (0x0D, CHR ''+''),
      (0x0E, CHR 0x08), (0x0F, CHR 0x09), (0x10, CHR ''Q''), (0x11, CHR ''W''),
      (0x12, CHR ''E''), (0x13, CHR ''R''), (0x14, CHR ''T''), (0x15, CHR ''Y''),
      (0x16, CHR ''U''), (0x17, CHR ''I''), (0x18, CHR ''O''), (0x19, CHR ''P''),
      (0x1A, CHR ''{''), (0x1B, CHR ''}''), (0x1C, CHR 0x0A), (0x1E, CHR ''A''),
      (0x1F, CHR ''S''), (0x20, CHR ''D''), (0x21, CHR ''F''), (0x22, CHR ''G''),
      (0x23, CHR ''H''), (0x24, CHR ''J''), (0x25, CHR ''K''), (0x26, CHR ''L''),
      (0x27, CHR '':''), (0x28, CHR 0x22), (0x29, CHR ''~''), (0x2B, CHR ''|''),
      (0x2C, CHR ''Z''), (0x2D, CHR ''X''), (0x2E, CHR ''C''), (0x2F, CHR ''V''),
      (0x30, CHR ''B''), (0x31, CHR ''N''), (0x32, CHR ''M''), (0x33, CHR ''<''),
      (0x34, CHR ''>''), (0x35, CHR ''?''), (0x39, CHR '' '')]"

record keyboard = pit +
  k_buf :: "u8 carray"
  k_head :: u8
  k_tail :: u8
  k_shift :: u8
  k_caps :: u8
  k_e0 :: u8

section \<open>Operations\<close>

definition enqueue :: "u8 \<Rightarrow> 'a keyboard_scheme \<Rightarrow> 'a keyboard_scheme" where
  "enqueue c s =
     (let next = of_nat ((unat (k_head s) + 1) mod KBD_BUF_SIZE)
      in if next = k_tail s then s
         else s\<lparr>k_buf := (k_buf s)(unat (k_head s) := c), k_head := next\<rparr>)"

definition keyboard_init :: "device \<Rightarrow> 'a keyboard_scheme \<Rightarrow> 'a keyboard_scheme" where
  "keyboard_init dev s =
     (let s = s\<lparr>k_head := 0, k_tail := 0, k_shift := 0, k_caps := 0, k_e0 := 0\<rparr>;
          s = irq_register_handler 1 (Some Keyboard_on_irq) s
      in pic_unmask dev 1 s)"

text \<open>The translation of \<open>keyboard_on_irq\<close>, from the table lookup to the byte that is queued.\<close>

definition keyboard_out :: "u8 \<Rightarrow> u8 \<Rightarrow> 'a keyboard_scheme \<Rightarrow> u8" where
  "keyboard_out code base s =
     (if 0x61 \<le>s base \<and> base \<le>s 0x7A
      then if (k_shift s \<noteq> 0) \<noteq> (k_caps s \<noteq> 0) then base - 0x61 + 0x41 else base
      else if k_shift s \<noteq> 0
      then let shifted = char_table k_shifted code in if shifted \<noteq> 0 then shifted else base
      else base)"

definition keyboard_on_irq :: "device \<Rightarrow> 'a keyboard_scheme \<Rightarrow> 'a keyboard_scheme" where
  "keyboard_on_irq dev s =
     (let (code, s) = inb dev KBD_DATA s
      in if code = SC_EXTENDED then s\<lparr>k_e0 := 1\<rparr>
      else if k_e0 s \<noteq> 0 then s\<lparr>k_e0 := 0\<rparr>
      else if code AND SC_RELEASE \<noteq> 0
      then let make = code AND NOT SC_RELEASE
        in if make = SC_LSHIFT \<or> make = SC_RSHIFT then s\<lparr>k_shift := 0\<rparr> else s
      else if code = SC_LSHIFT \<or> code = SC_RSHIFT then s\<lparr>k_shift := 1\<rparr>
      else if code = SC_CAPS then s\<lparr>k_caps := if k_caps s = 0 then 1 else 0\<rparr>
      else if 128 \<le> unat code then s
      else let base = char_table k_unshifted code
        in if base = 0 then s
        else enqueue (keyboard_out code base s) s)"

definition keyboard_has_key :: "'a keyboard_scheme \<Rightarrow> bool" where
  "keyboard_has_key s \<longleftrightarrow> k_head s \<noteq> k_tail s"

definition keyboard_dequeue :: "'a keyboard_scheme \<Rightarrow> u8 \<times> 'a keyboard_scheme" where
  "keyboard_dequeue s =
     (if k_head s = k_tail s then (0, s)
      else let c = k_buf s (unat (k_tail s))
        in (c, s\<lparr>k_tail := of_nat ((unat (k_tail s) + 1) mod KBD_BUF_SIZE)\<rparr>))"

section \<open>The ring as a list\<close>

definition ring_len :: "nat \<Rightarrow> nat \<Rightarrow> nat" where
  "ring_len h t = (if t \<le> h then h - t else h + 128 - t)"

definition ring_list :: "u8 carray \<Rightarrow> nat \<Rightarrow> nat \<Rightarrow> u8 list" where
  "ring_list b h t = map (\<lambda>i. b ((t + i) mod 128)) [0..<ring_len h t]"

definition key_queue :: "'a keyboard_scheme \<Rightarrow> u8 list" where
  "key_queue s = ring_list (k_buf s) (unat (k_head s)) (unat (k_tail s))"

definition ring_inv :: "'a keyboard_scheme \<Rightarrow> bool" where
  "ring_inv s \<longleftrightarrow> unat (k_head s) < 128 \<and> unat (k_tail s) < 128"

lemma unat_next: "unat (of_nat (Suc n mod KBD_BUF_SIZE) :: u8) = Suc n mod 128"
proof -
  have "Suc n mod 128 < 2 ^ 8" by (rule less_trans [of _ 128]) auto
  then show ?thesis by (simp add: KBD_BUF_SIZE_def unat_of_nat)
qed

lemma ring_full:
  "h < 128 \<Longrightarrow> t < 128 \<Longrightarrow> Suc h mod 128 = t \<longleftrightarrow> ring_len h t = 127"
  by (auto simp: ring_len_def mod_if)

lemma ring_empty: "h < 128 \<Longrightarrow> t < 128 \<Longrightarrow> ring_len h t = 0 \<longleftrightarrow> h = t"
  by (auto simp: ring_len_def)

lemma ring_len_bound: "h < 128 \<Longrightarrow> t < 128 \<Longrightarrow> ring_len h t \<le> 127"
  by (auto simp: ring_len_def)

lemma ring_len_put:
  "h < 128 \<Longrightarrow> t < 128 \<Longrightarrow> ring_len h t \<noteq> 127 \<Longrightarrow> ring_len (Suc h mod 128) t = Suc (ring_len h t)"
  by (auto simp: ring_len_def mod_if)

lemma ring_slot:
  assumes "h < 128" "t < 128" "i \<le> ring_len h t"
  shows "(t + i) mod 128 = h \<longleftrightarrow> i = ring_len h t"
  using assms ring_len_bound [OF assms(1,2)] by (auto simp: ring_len_def mod_if split: if_splits)

lemma ring_list_put:
  assumes "h < 128" "t < 128" "ring_len h t \<noteq> 127"
  shows "ring_list (b(h := c)) (Suc h mod 128) t = ring_list b h t @ [c]"
  using assms ring_slot [OF assms(1,2)]
  by (auto simp: ring_list_def ring_len_put)

lemma ring_list_get:
  assumes "h < 128" "t < 128" "h \<noteq> t"
  shows "ring_list b h t = b t # ring_list b h (Suc t mod 128)"
proof -
  have len: "ring_len h t = Suc (ring_len h (Suc t mod 128))"
    using assms by (auto simp: ring_len_def mod_if)
  have "(Suc t mod 128 + i) mod 128 = (t + Suc i) mod 128" for i
    by (simp add: mod_add_left_eq)
  then show ?thesis
    using assms(2) by (simp add: ring_list_def len upt_conv_Cons map_Suc_upt [symmetric] del: upt_Suc)
qed

lemma enqueue_queue:
  assumes "ring_inv s"
  shows "ring_inv (enqueue c s) \<and>
    key_queue (enqueue c s) = (if length (key_queue s) < 127 then key_queue s @ [c] else key_queue s)"
proof -
  let ?h = "unat (k_head s)" and ?t = "unat (k_tail s)"
  have b: "?h < 128" "?t < 128" using assms by (auto simp: ring_inv_def)
  have len: "length (key_queue s) = ring_len ?h ?t" by (simp add: key_queue_def ring_list_def)
  have nx: "of_nat (Suc ?h mod KBD_BUF_SIZE) = k_tail s \<longleftrightarrow> ring_len ?h ?t = 127"
    unfolding word_unat_eq_iff unat_next using ring_full [OF b] by simp
  show ?thesis
  proof (cases "ring_len ?h ?t = 127")
    case True
    with nx len assms show ?thesis by (simp add: enqueue_def Let_def)
  next
    case False
    with ring_len_bound [OF b] have "ring_len ?h ?t < 127" by simp
    with False nx len b ring_list_put [OF b False, of "k_buf s" c] show ?thesis
      by (simp add: enqueue_def Let_def ring_inv_def key_queue_def unat_next)
  qed
qed

lemma dequeue_queue:
  assumes "ring_inv s"
  shows "keyboard_dequeue s = (0, s) \<and> key_queue s = [] \<or>
    (\<exists>x t. keyboard_dequeue s = (x, t) \<and> key_queue s = x # key_queue t \<and> ring_inv t)"
proof (cases "k_head s = k_tail s")
  case True
  then show ?thesis by (simp add: keyboard_dequeue_def key_queue_def ring_list_def ring_len_def)
next
  case False
  then have ne: "unat (k_head s) \<noteq> unat (k_tail s)" by (simp add: word_unat_eq_iff)
  with assms ring_list_get [of "unat (k_head s)" "unat (k_tail s)" "k_buf s"] False show ?thesis
    by (simp add: keyboard_dequeue_def Let_def key_queue_def ring_inv_def unat_next)
qed

interpretation keys: bounded_queue enqueue keyboard_dequeue keyboard_has_key 0 127 key_queue ring_inv
proof unfold_locales
  fix s :: "'a keyboard_scheme" and c x :: u8 and xs
  assume inv: "ring_inv s"
  show "ring_inv (enqueue c s) \<and>
      key_queue (enqueue c s) = (if length (key_queue s) < 127 then key_queue s @ [c] else key_queue s)"
    by (rule enqueue_queue [OF inv])
  show "key_queue s = [] \<Longrightarrow> keyboard_dequeue s = (0, s)" using dequeue_queue [OF inv] by auto
  show "key_queue s = x # xs \<Longrightarrow> \<exists>t. keyboard_dequeue s = (x, t) \<and> ring_inv t \<and> key_queue t = xs"
    using dequeue_queue [OF inv] by auto
  have b: "unat (k_head s) < 128" "unat (k_tail s) < 128" using inv by (auto simp: ring_inv_def)
  show "keyboard_has_key s \<longleftrightarrow> key_queue s \<noteq> []"
    using ring_empty [OF b] by (simp add: keyboard_has_key_def key_queue_def ring_list_def word_unat_eq_iff)
  show "length (key_queue s) \<le> 127" using ring_len_bound [OF b] by (simp add: key_queue_def ring_list_def)
qed

section \<open>Translation\<close>

text \<open>The byte a key stands for, given the modifiers: \<open>b\<close> plain and \<open>d\<close> shifted.\<close>

definition key_byte :: "bool \<Rightarrow> bool \<Rightarrow> u8 \<Rightarrow> u8 \<Rightarrow> u8" where
  "key_byte shift caps b d =
     (if 0x61 \<le> b \<and> b \<le> 0x7A then (if shift \<noteq> caps then b - 32 else b) else if shift then d else b)"

definition entry_ok :: "nat \<times> char \<Rightarrow> bool" where
  "entry_ok e = (let n = fst e; b = of_char (snd e) :: u8; d = char_table k_shifted (of_nat n)
     in n < 128 \<and> n \<noteq> 0x2A \<and> n \<noteq> 0x36 \<and> n \<noteq> 0x3A \<and> 0 < b \<and> b < 128 \<and> 0 < d \<and> d < 128
      \<and> ((0x61 \<le>s b \<and> b \<le>s 0x7A) = (0x61 \<le> b \<and> b \<le> 0x7A)))"

lemma table_entries: "list_all entry_ok k_unshifted"
  by (simp add: k_unshifted_def k_shifted_def entry_ok_def char_table_def of_char_def word_sle_eq)

lemma unshifted_entry:
  assumes "char_table k_unshifted code \<noteq> 0"
  defines "b \<equiv> char_table k_unshifted code" and "d \<equiv> char_table k_shifted code"
  shows "unat code < 128 \<and> code \<notin> {0x2A, 0x36, 0x3A} \<and> 0 < b \<and> b < 128 \<and> 0 < d \<and> d < 128
    \<and> ((0x61 \<le>s b \<and> b \<le>s 0x7A) = (0x61 \<le> b \<and> b \<le> 0x7A))"
proof -
  obtain c where c: "map_of k_unshifted (unat code) = Some c"
    using assms(1) by (auto simp: char_table_def split: option.splits)
  then have "(unat code, c) \<in> set k_unshifted" by (rule map_of_SomeD)
  with table_entries have e: "entry_ok (unat code, c)" by (auto simp: list_all_iff)
  moreover have "b = of_char c" using c by (simp add: b_def char_table_def)
  moreover have "code \<notin> {0x2A, 0x36, 0x3A}" using e by (auto simp: entry_ok_def Let_def)
  ultimately show ?thesis by (simp add: entry_ok_def Let_def d_def)
qed

lemma key_byte_range:
  assumes "0 < b" "b < 128" "0 < d" "d < 128"
  shows "0 < key_byte shift caps b d \<and> key_byte shift caps b d < 128"
proof (cases "0x61 \<le> b \<and> b \<le> 0x7A")
  case True
  then have "unat (b - 32) = unat b - 32" by (subst unat_sub_small) (auto simp: word_le_nat_alt)
  with True show ?thesis
    using assms by (auto simp: key_byte_def word_less_nat_alt word_le_nat_alt)
qed (use assms in \<open>auto simp: key_byte_def\<close>)

lemma keyboard_out_byte:
  assumes "char_table k_unshifted code \<noteq> 0"
  shows "keyboard_out code (char_table k_unshifted code) s
    = key_byte (k_shift s \<noteq> 0) (k_caps s \<noteq> 0) (char_table k_unshifted code) (char_table k_shifted code)"
  using unshifted_entry [OF assms] by (auto simp: keyboard_out_def key_byte_def Let_def)

text \<open>The state after the port read, and a scancode with bit 7 clear.\<close>

definition after_read :: "device \<Rightarrow> 'a keyboard_scheme \<Rightarrow> 'a keyboard_scheme" where
  "after_read dev s = snd (inb dev KBD_DATA s)"

lemma after_read_fields [simp]:
  "k_buf (after_read dev s) = k_buf s" "k_head (after_read dev s) = k_head s"
  "k_tail (after_read dev s) = k_tail s" "k_shift (after_read dev s) = k_shift s"
  "k_caps (after_read dev s) = k_caps s" "k_e0 (after_read dev s) = k_e0 s"
  "s_ticks (after_read dev s) = s_ticks s" "irq_handlers (after_read dev s) = irq_handlers s"
  by (simp_all add: after_read_def inb_def Let_def)

lemma key_queue_after_read [simp]: "key_queue (after_read dev s) = key_queue s"
  "ring_inv (after_read dev s) = ring_inv s"
  by (simp_all add: key_queue_def ring_inv_def)

lemma release_bit: "code AND SC_RELEASE \<noteq> 0 \<longleftrightarrow> 128 \<le> unat code"
proof -
  have "SC_RELEASE = 2 ^ 7" by (simp add: SC_RELEASE_def)
  then have "code AND SC_RELEASE \<noteq> 0 \<longleftrightarrow> bit code 7" by (metis and_exp_eq_0_iff_not_bit)
  also have "\<dots> \<longleftrightarrow> bit (unat code) 7" by (simp add: bit_unsigned_iff)
  also have "\<dots> \<longleftrightarrow> odd (unat code div 128)" by (simp add: bit_iff_odd)
  also have "\<dots> \<longleftrightarrow> 128 \<le> unat code"
  proof (cases "128 \<le> unat code")
    case True
    moreover have "unat code < 256" using unsigned_less [of code, where 'a = nat] by simp
    ultimately have "unat code div 128 = 1" by (intro div_nat_eqI) auto
    with True show ?thesis by simp
  qed simp
  finally show ?thesis .
qed

lemma keyboard_on_irq_unfold:
  "keyboard_on_irq dev s =
     (let code = dev (io_log s) 0x60; s = after_read dev s
      in if code = 0xE0 then s\<lparr>k_e0 := 1\<rparr>
      else if k_e0 s \<noteq> 0 then s\<lparr>k_e0 := 0\<rparr>
      else if 128 \<le> unat code
      then (if code AND NOT SC_RELEASE \<in> {0x2A, 0x36} then s\<lparr>k_shift := 0\<rparr> else s)
      else if code \<in> {0x2A, 0x36} then s\<lparr>k_shift := 1\<rparr>
      else if code = 0x3A then s\<lparr>k_caps := if k_caps s = 0 then 1 else 0\<rparr>
      else if char_table k_unshifted code = 0 then s
      else enqueue (key_byte (k_shift s \<noteq> 0) (k_caps s \<noteq> 0)
             (char_table k_unshifted code) (char_table k_shifted code)) s)"
  unfolding keyboard_on_irq_def after_read_def
  by (simp add: split_beta Let_def release_bit kbd_consts(1,4-7) keyboard_out_byte [symmetric])

text \<open>An interrupt adds at most one byte to the queue, a printable or editing ASCII code.\<close>

lemma keyboard_on_irq_queue:
  assumes "ring_inv s"
  shows "ring_inv (keyboard_on_irq dev s) \<and>
    (key_queue (keyboard_on_irq dev s) = key_queue s \<or>
     (\<exists>c. 0 < c \<and> c < 128 \<and> key_queue (keyboard_on_irq dev s) = key_queue s @ [c]))"
proof -
  let ?code = "dev (io_log s) 0x60"
  let ?s = "after_read dev s"
  have upd: "key_queue (k_e0_update f t) = key_queue t" "key_queue (k_shift_update f t) = key_queue t"
    "key_queue (k_caps_update f t) = key_queue t" "ring_inv (k_e0_update f t) = ring_inv t"
    "ring_inv (k_shift_update f t) = ring_inv t" "ring_inv (k_caps_update f t) = ring_inv t"
    for f and t :: "'a keyboard_scheme"
    by (simp_all add: key_queue_def ring_inv_def)
  define c where "c = key_byte (k_shift s \<noteq> 0) (k_caps s \<noteq> 0) (char_table k_unshifted ?code) (char_table k_shifted ?code)"
  have r: "0 < c \<and> c < 128" if "char_table k_unshifted ?code \<noteq> 0"
    using unshifted_entry [OF that] key_byte_range unfolding c_def by blast
  have q: "ring_inv (enqueue c ?s) \<and> (key_queue (enqueue c ?s) = key_queue s \<or> key_queue (enqueue c ?s) = key_queue s @ [c])"
    using enqueue_queue [of ?s c] assms by auto
  show ?thesis
  proof (cases "char_table k_unshifted ?code = 0")
    case True
    then show ?thesis using assms by (auto simp: keyboard_on_irq_unfold Let_def upd)
  next
    case False
    with r q assms show ?thesis
      by (auto simp: keyboard_on_irq_unfold Let_def upd c_def [symmetric])
  qed
qed

end
