(* ===== verification/Keyboard_Properties.thy ===== *)
theory Keyboard_Properties
  imports Keyboard
begin

text \<open>
  The properties of the keyboard driver: the ring behaves as a bounded list queue for every sequence
  of operations, and stays exact when interrupts arrive between the consumer's individual accesses;
  the translation follows Shift and CapsLock; only ASCII is queued; extended keys are swallowed.
\<close>

section \<open>The ring\<close>

text \<open>
  C20: for every sequence of \<open>enqueue\<close> and \<open>keyboard_dequeue\<close> calls the ring delivers what a list
  of at most 127 bytes delivers: first in first out, the newest byte dropped when 127 are waiting,
  and 0 from an empty queue.
\<close>

theorem keyboard_queue_refines_list:
  assumes "ring_inv s" and "queue_run enqueue keyboard_dequeue ops s = (out, t)"
  shows "list_run 127 0 ops (key_queue s) = (out, key_queue t) \<and> ring_inv t"
  using keys.run_refines [OF assms(1), of ops] assms(2) by simp

definition sample_kbd :: keyboard where
  "sample_kbd = \<lparr>io_log = [], cursor_row = 0, cursor_col = 0, vga = (\<lambda>_. 0),
     idt = (\<lambda>_. \<lparr>offset_low = 0, selector = 0, ist = 0, type_attr = 0, offset_mid = 0, offset_high = 0, reserved = 0\<rparr>),
     idtr = \<lparr>idtr_limit = 0, idtr_base = 0\<rparr>, cpu_idtr = \<lparr>idtr_limit = 0, idtr_base = 0\<rparr>,
     irq_handlers = (\<lambda>_. None), s_ticks = 0, s_initialized = 0,
     k_buf = (\<lambda>_. 0), k_head = 127, k_tail = 127, k_shift = 0, k_caps = 0, k_e0 = 0\<rparr>"

lemma sample_kbd_queue: "ring_inv sample_kbd \<and> key_queue sample_kbd = []"
  by (simp add: sample_kbd_def ring_inv_def key_queue_def ring_list_def ring_len_def)

theorem keyboard_queue_refines_list_witness:
  "\<exists>t. queue_run enqueue keyboard_dequeue [Put 65, Put 66, Get, Get, Get] sample_kbd = ([65, 66, 0], t)
     \<and> key_queue t = []"
proof -
  obtain out t where r: "queue_run enqueue keyboard_dequeue [Put 65, Put 66, Get, Get, Get] sample_kbd = (out, t)"
    by fastforce
  from keyboard_queue_refines_list [OF _ r] sample_kbd_queue r show ?thesis by simp
qed

section \<open>Interrupts between the consumer's accesses\<close>

text \<open>
  The consumer in \<open>keyboard_dequeue\<close> compares head and tail, loads the byte, and stores the new
  tail; an interrupt runs to completion between any two of these.  The last two components of the
  state record the bytes that interrupts have put into the queue and the bytes the consumer got.
\<close>

datatype consumer = At_check | At_load | At_store u8

inductive spsc_step ::
  "consumer \<times> 'a keyboard_scheme \<times> u8 list \<times> u8 list \<Rightarrow> consumer \<times> 'a keyboard_scheme \<times> u8 list \<times> u8 list \<Rightarrow> bool" where
  irq: "t = keyboard_on_irq dev s \<Longrightarrow>
    spsc_step (pc, s, put, got) (pc, t, put @ drop (length (key_queue s)) (key_queue t), got)"
| check_empty: "k_head s = k_tail s \<Longrightarrow> spsc_step (At_check, s, put, got) (At_check, s, put, got)"
| check: "k_head s \<noteq> k_tail s \<Longrightarrow> spsc_step (At_check, s, put, got) (At_load, s, put, got)"
| load: "spsc_step (At_load, s, put, got) (At_store (k_buf s (unat (k_tail s))), s, put, got)"
| store: "spsc_step (At_store c, s, put, got)
    (At_check, s\<lparr>k_tail := of_nat ((unat (k_tail s) + 1) mod KBD_BUF_SIZE)\<rparr>, put, got @ [c])"

definition spsc_inv :: "consumer \<Rightarrow> 'a keyboard_scheme \<Rightarrow> u8 list \<Rightarrow> u8 list \<Rightarrow> bool" where
  "spsc_inv pc s put got \<longleftrightarrow> ring_inv s \<and> got @ key_queue s = put \<and>
     (case pc of At_check \<Rightarrow> True | At_load \<Rightarrow> key_queue s \<noteq> []
      | At_store c \<Rightarrow> key_queue s \<noteq> [] \<and> hd (key_queue s) = c)"

text \<open>The first byte of a nonempty queue sits in the tail slot; moving the tail removes it.\<close>

lemma queue_front:
  assumes "ring_inv s" "key_queue s \<noteq> []"
  shows "k_buf s (unat (k_tail s)) = hd (key_queue s)
    \<and> key_queue (s\<lparr>k_tail := of_nat ((unat (k_tail s) + 1) mod KBD_BUF_SIZE)\<rparr>) = tl (key_queue s)
    \<and> ring_inv (s\<lparr>k_tail := of_nat ((unat (k_tail s) + 1) mod KBD_BUF_SIZE)\<rparr>)"
proof -
  have "keyboard_has_key s" using keys.has_iff [OF assms(1)] assms(2) by simp
  then have "k_head s \<noteq> k_tail s" by (simp add: keyboard_has_key_def)
  with dequeue_queue [OF assms(1)] assms(2) show ?thesis by (auto simp: keyboard_dequeue_def Let_def)
qed

lemma spsc_irq_keeps:
  assumes "spsc_inv pc s put got"
  shows "spsc_inv pc (keyboard_on_irq dev s)
    (put @ drop (length (key_queue s)) (key_queue (keyboard_on_irq dev s))) got"
proof -
  have inv: "ring_inv s" using assms by (simp add: spsc_inv_def)
  obtain ys where "key_queue (keyboard_on_irq dev s) = key_queue s @ ys" "ring_inv (keyboard_on_irq dev s)"
    using keyboard_on_irq_queue [OF inv, of dev] by auto
  with assms show ?thesis by (auto simp: spsc_inv_def split: consumer.splits)
qed

lemma spsc_step_keeps:
  assumes "spsc_step (pc, s, put, got) (pc', s', put', got')" "spsc_inv pc s put got"
  shows "spsc_inv pc' s' put' got'"
proof -
  have inv: "ring_inv s" using assms(2) by (simp add: spsc_inv_def)
  have has: "k_head s \<noteq> k_tail s \<longleftrightarrow> key_queue s \<noteq> []"
    using keys.has_iff [OF inv] by (simp add: keyboard_has_key_def)
  from assms(1) show ?thesis
  proof (cases rule: spsc_step.cases)
    case irq
    with spsc_irq_keeps [OF assms(2)] show ?thesis by simp
  next
    case check_empty
    with assms(2) show ?thesis by simp
  next
    case check
    with assms(2) has show ?thesis by (simp add: spsc_inv_def)
  next
    case load
    with assms(2) queue_front [OF inv] show ?thesis by (simp add: spsc_inv_def)
  next
    case store
    with assms(2) queue_front [OF inv] show ?thesis by (cases "key_queue s") (auto simp: spsc_inv_def)
  qed
qed

text \<open>
  C19: the lock-free protocol between the interrupt handler and the main loop is exact.  However
  keyboard interrupts interleave with the consumer's single accesses, the bytes delivered followed by
  the bytes still queued are the bytes accepted, in order: none is lost, duplicated, reordered or
  torn.
\<close>

theorem keyboard_spsc_exact:
  assumes "spsc_step\<^sup>*\<^sup>* (At_check, s0, [], []) (pc, s, put, got)"
    and "ring_inv s0" and "key_queue s0 = []"
  shows "got @ key_queue s = put \<and> length (key_queue s) \<le> 127"
proof -
  have "spsc_inv pc s put got"
    using assms(1)
  proof (induction "(pc, s, put, got)" arbitrary: pc s put got rule: rtranclp_induct)
    case base
    with assms(2,3) show ?case by (simp add: spsc_inv_def)
  next
    case (step y)
    then show ?case by (cases y) (auto intro: spsc_step_keeps)
  qed
  then show ?thesis using keys.cap_bound by (auto simp: spsc_inv_def)
qed

text \<open>A key press, and the consumer fetching it access by access.\<close>

lemma sample_press: "key_queue (keyboard_on_irq (\<lambda>_ _. 0x1E) sample_kbd) = [0x61] \<and> ring_inv (keyboard_on_irq (\<lambda>_ _. 0x1E) sample_kbd)"
proof -
  let ?s = "after_read (\<lambda>_ _. 0x1E) sample_kbd"
  have "char_table k_unshifted 0x1E = 0x61" "char_table k_shifted 0x1E = 0x41"
    by (simp_all add: char_table_def k_unshifted_def k_shifted_def of_char_def)
  then have "keyboard_on_irq (\<lambda>_ _. 0x1E) sample_kbd = enqueue 0x61 ?s"
    by (simp add: keyboard_on_irq_unfold Let_def key_byte_def sample_kbd_def)
  with enqueue_queue [of ?s] sample_kbd_queue show ?thesis by simp
qed

theorem keyboard_spsc_exact_witness:
  "\<exists>t. spsc_step\<^sup>*\<^sup>* (At_check, sample_kbd, [], []) (At_check, t, [0x61], [0x61]) \<and> key_queue t = []"
proof -
  define a where "a = keyboard_on_irq (\<lambda>_ _. 0x1E) sample_kbd"
  define t where "t = a\<lparr>k_tail := of_nat ((unat (k_tail a) + 1) mod KBD_BUF_SIZE)\<rparr>"
  have a: "key_queue a = [0x61]" "ring_inv a" using sample_press by (simp_all add: a_def)
  have "spsc_step (At_check, sample_kbd, [], []) (At_check, a, [0x61], [])"
    using spsc_step.irq [OF a_def, of At_check "[]" "[]"] sample_kbd_queue a(1) by simp
  moreover have "spsc_step (At_check, a, [0x61], []) (At_load, a, [0x61], [])"
    using keys.has_iff [OF a(2)] a(1) by (intro spsc_step.check) (simp add: keyboard_has_key_def)
  moreover have "spsc_step (At_load, a, [0x61], []) (At_store 0x61, a, [0x61], [])"
    using spsc_step.load [of a "[0x61]" "[]"] queue_front [OF a(2)] a(1) by simp
  moreover have "spsc_step (At_store 0x61, a, [0x61], []) (At_check, t, [0x61], [0x61])"
    using spsc_step.store [of "0x61" a "[0x61]" "[]"] by (simp add: t_def)
  ultimately have "spsc_step\<^sup>*\<^sup>* (At_check, sample_kbd, [], []) (At_check, t, [0x61], [0x61])"
    by (blast intro: converse_rtranclp_into_rtranclp)
  with keyboard_spsc_exact [OF this] sample_kbd_queue show ?thesis by auto
qed

section \<open>Translation\<close>

text \<open>
  C27: what a key press queues.  For every scancode with a printable mapping, outside an extended
  sequence and with room in the queue: a letter is upper case exactly if one of Shift and CapsLock is
  active but not both, any other key gives its shifted symbol under Shift, and CapsLock alone never
  changes it; the modifiers stay as they are.
\<close>

theorem keyboard_key_press:
  assumes "ring_inv s" "length (key_queue s) < 127" "k_e0 s = 0"
    and "char_table k_unshifted (dev (io_log s) 0x60) = b" "b \<noteq> 0"
    and "char_table k_shifted (dev (io_log s) 0x60) = d"
  shows "key_queue (keyboard_on_irq dev s) = key_queue s @
      [if 0x61 \<le> b \<and> b \<le> 0x7A then (if (k_shift s \<noteq> 0) \<noteq> (k_caps s \<noteq> 0) then b - 32 else b)
       else if k_shift s \<noteq> 0 then d else b]
    \<and> k_shift (keyboard_on_irq dev s) = k_shift s \<and> k_caps (keyboard_on_irq dev s) = k_caps s"
proof -
  let ?code = "dev (io_log s) 0x60"
  have "unat ?code < 128 \<and> ?code \<notin> {0x2A, 0x36, 0x3A}"
    using unshifted_entry [of ?code] assms(4,5) by simp
  moreover from this have "?code \<noteq> 0xE0" by auto
  ultimately have e: "keyboard_on_irq dev s
      = enqueue (key_byte (k_shift s \<noteq> 0) (k_caps s \<noteq> 0) b d) (after_read dev s)"
    using assms(3-6) by (simp add: keyboard_on_irq_unfold Let_def)
  have "k_shift (enqueue c t) = k_shift t" "k_caps (enqueue c t) = k_caps t" for c and t :: "'a keyboard_scheme"
    by (simp_all add: enqueue_def Let_def)
  then show ?thesis
    using enqueue_queue [of "after_read dev s"] assms(1,2) by (simp add: e key_byte_def)
qed

theorem keyboard_key_press_witness:
  "key_queue (keyboard_on_irq (\<lambda>_ _. 0x1E) (sample_kbd\<lparr>k_caps := 1\<rparr>)) = [0x41]
   \<and> key_queue (keyboard_on_irq (\<lambda>_ _. 0x02) (sample_kbd\<lparr>k_caps := 1\<rparr>)) = [0x31]"
proof -
  have t: "char_table k_unshifted 0x1E = 0x61" "char_table k_shifted 0x1E = 0x41"
    "char_table k_unshifted 0x02 = 0x31" "char_table k_shifted 0x02 = 0x21"
    by (simp_all add: char_table_def k_unshifted_def k_shifted_def of_char_def)
  have q: "ring_inv (sample_kbd\<lparr>k_caps := 1\<rparr>)" "key_queue (sample_kbd\<lparr>k_caps := 1\<rparr>) = []"
    using sample_kbd_queue by (simp_all add: ring_inv_def key_queue_def)
  have m: "k_e0 sample_kbd = 0" "k_shift sample_kbd = 0" by (simp_all add: sample_kbd_def)
  show ?thesis
    using keyboard_key_press [OF q(1), of "\<lambda>_ _. 0x1E" "0x61" "0x41"]
      keyboard_key_press [OF q(1), of "\<lambda>_ _. 0x02" "0x31" "0x21"] q(2) t m by simp
qed

text \<open>
  Whatever bytes the keyboard controller sends, only ASCII codes from 1 to 127 enter the queue,
  so the 0 that \<open>keyboard_dequeue\<close> returns on an empty queue is unambiguous and every byte handed
  to \<open>console_putchar\<close> is drawn white on black.
\<close>

theorem keyboard_queues_ascii:
  assumes "ring_inv s" "list_all (\<lambda>c. 0 < c \<and> c < 128) (key_queue s)"
  shows "ring_inv (keyboard_on_irq dev s)
    \<and> list_all (\<lambda>c. 0 < c \<and> c < 128) (key_queue (keyboard_on_irq dev s))"
  using keyboard_on_irq_queue [OF assms(1), of dev] assms(2) by auto

theorem keyboard_queues_ascii_witness:
  "list_all (\<lambda>c. 0 < c \<and> c < 128) (key_queue (keyboard_on_irq (\<lambda>_ _. 0xF5) sample_kbd))"
  using keyboard_queues_ascii [of sample_kbd "\<lambda>_ _. 0xF5"] sample_kbd_queue by simp

text \<open>
  An extended sequence, the prefix \<^verbatim>\<open>0xE0\<close> and the byte behind it, is swallowed whole: queue
  and modifiers are as before, and the driver is ready for the next plain scancode.
\<close>

theorem keyboard_swallows_extended:
  assumes "dev (io_log s) 0x60 = 0xE0" "dev' (io_log (keyboard_on_irq dev s)) 0x60 \<noteq> 0xE0"
  defines "t \<equiv> keyboard_on_irq dev' (keyboard_on_irq dev s)"
  shows "key_queue t = key_queue s \<and> k_shift t = k_shift s \<and> k_caps t = k_caps s \<and> k_e0 t = 0"
proof -
  have f: "keyboard_on_irq dev s = (after_read dev s)\<lparr>k_e0 := 1\<rparr>"
    using assms(1) by (simp add: keyboard_on_irq_unfold Let_def)
  have "t = (after_read dev' (keyboard_on_irq dev s))\<lparr>k_e0 := 0\<rparr>"
    unfolding t_def using assms(2) f by (subst keyboard_on_irq_unfold) (simp add: Let_def)
  then show ?thesis by (simp add: f key_queue_def)
qed

theorem keyboard_swallows_extended_witness:
  "key_queue (keyboard_on_irq (\<lambda>_ _. 0x1C) (keyboard_on_irq (\<lambda>_ _. 0xE0) sample_kbd)) = []"
  using keyboard_swallows_extended [of "\<lambda>_ _. 0xE0" sample_kbd "\<lambda>_ _. 0x1C"] sample_kbd_queue by simp

end
