(* ===== verification/Interrupts.thy ===== *)
theory Interrupts
  imports Keyboard
begin

unbundle bit_operations_syntax

text \<open>
  \<open>irq_dispatch\<close> of \<^verbatim>\<open>idt.c\<close>, the C entry of vectors 32 to 47, which calls the registered driver
  and acknowledges the interrupt, and what a sequence of interrupts does to the system.
\<close>

section \<open>The dispatcher\<close>

text \<open>The call through the function pointer.\<close>

definition call_irq_handler :: "device \<Rightarrow> irq_handler \<Rightarrow> 'a keyboard_scheme \<Rightarrow> 'a keyboard_scheme" where
  "call_irq_handler dev h s =
     (case h of Pit_on_tick \<Rightarrow> pit_on_tick s | Keyboard_on_irq \<Rightarrow> keyboard_on_irq dev s)"

definition irq_dispatch :: "device \<Rightarrow> interrupt_frame \<Rightarrow> 'a keyboard_scheme \<Rightarrow> 'a keyboard_scheme" where
  "irq_dispatch dev frame s =
     (let vector = f_vector frame
      in if vector < ucast IDT_IRQ_BASE \<or> ucast (IDT_IRQ_BASE + IDT_IRQ_COUNT) \<le> vector then s
      else let irq = ucast (vector - ucast IDT_IRQ_BASE) :: u8;
               s = (case irq_handlers s (unat irq) of None \<Rightarrow> s | Some h \<Rightarrow> call_irq_handler dev h s)
        in pic_eoi irq s)"

section \<open>What the handlers leave alone\<close>

lemma enqueue_fields [simp]:
  "io_log (enqueue c s) = io_log s" "vga (enqueue c s) = vga s" "cursor_row (enqueue c s) = cursor_row s"
  "cursor_col (enqueue c s) = cursor_col s" "idt (enqueue c s) = idt s"
  "irq_handlers (enqueue c s) = irq_handlers s" "s_ticks (enqueue c s) = s_ticks s"
  "keyboard.more (enqueue c s) = keyboard.more s"
  by (simp_all add: enqueue_def Let_def)

lemma after_read_frame [simp]:
  "io_log (after_read dev s) = io_log s @ [In 0x60 (dev (io_log s) 0x60)]"
  "vga (after_read dev s) = vga s" "cursor_row (after_read dev s) = cursor_row s"
  "cursor_col (after_read dev s) = cursor_col s" "idt (after_read dev s) = idt s"
  "keyboard.more (after_read dev s) = keyboard.more s"
  by (simp_all add: after_read_def inb_def Let_def KBD_DATA_def)

lemma keyboard_on_irq_fields [simp]:
  "io_log (keyboard_on_irq dev s) = io_log s @ [In 0x60 (dev (io_log s) 0x60)]"
  "vga (keyboard_on_irq dev s) = vga s" "cursor_row (keyboard_on_irq dev s) = cursor_row s"
  "cursor_col (keyboard_on_irq dev s) = cursor_col s" "idt (keyboard_on_irq dev s) = idt s"
  "irq_handlers (keyboard_on_irq dev s) = irq_handlers s" "s_ticks (keyboard_on_irq dev s) = s_ticks s"
  "keyboard.more (keyboard_on_irq dev s) = keyboard.more s"
  by (simp_all add: keyboard_on_irq_unfold Let_def)

lemma pit_on_tick_fields [simp]:
  "io_log (pit_on_tick s) = io_log s" "vga (pit_on_tick s) = vga s" "cursor_row (pit_on_tick s) = cursor_row s"
  "cursor_col (pit_on_tick s) = cursor_col s" "idt (pit_on_tick s) = idt s"
  "irq_handlers (pit_on_tick s) = irq_handlers s" "s_ticks (pit_on_tick s) = s_ticks s + 1"
  "pit.more (pit_on_tick s) = pit.more s"
  by (simp_all add: pit_on_tick_def)

lemma pic_eoi_fields [simp]:
  fixes s :: "'a keyboard_scheme"
  shows "vga (pic_eoi irq s) = vga s" "cursor_row (pic_eoi irq s) = cursor_row s"
    "cursor_col (pic_eoi irq s) = cursor_col s" "idt (pic_eoi irq s) = idt s"
    "irq_handlers (pic_eoi irq s) = irq_handlers s" "s_ticks (pic_eoi irq s) = s_ticks s"
    "k_buf (pic_eoi irq s) = k_buf s" "k_head (pic_eoi irq s) = k_head s" "k_tail (pic_eoi irq s) = k_tail s"
  by (simp_all add: pic_eoi_def outb_def Let_def)

lemma io_log_pic_eoi:
  "io_log (pic_eoi irq s) = io_log s @
     (if unat irq < 8 then [Out 0x20 0x20]
      else if unat irq < 16 then [Out 0xA0 0x20, Out 0x20 0x20] else [])"
  by (simp add: pic_eoi_def pic_consts word_le_nat_alt Let_def)

section \<open>Sequences of interrupts\<close>

text \<open>The wiring that \<open>pit_init\<close> and \<open>keyboard_init\<close> leave behind.\<close>

definition wired :: "irq_handler option carray" where
  "wired = (\<lambda>_. None)(0 := Some Pit_on_tick, 1 := Some Keyboard_on_irq)"

abbreviation is_irq :: "interrupt_frame \<Rightarrow> bool" where
  "is_irq f \<equiv> 32 \<le> unat (f_vector f) \<and> unat (f_vector f) < 48"

abbreviation is_slave_irq :: "interrupt_frame \<Rightarrow> bool" where
  "is_slave_irq f \<equiv> 40 \<le> unat (f_vector f) \<and> unat (f_vector f) < 48"

lemma irq_dispatch_eq:
  "irq_dispatch dev f s =
     (if is_irq f
      then pic_eoi (of_nat (unat (f_vector f) - 32))
        (case irq_handlers s (unat (f_vector f) - 32) of None \<Rightarrow> s | Some h \<Rightarrow> call_irq_handler dev h s)
      else s)"
proof (cases "is_irq f")
  case True
  define i where "i = (ucast (f_vector f - 32) :: u8)"
  have "unat (f_vector f - 32) = unat (f_vector f) - 32"
    using True by (subst unat_sub_small) (auto simp: word_le_nat_alt)
  moreover have "unat (f_vector f) - 32 < 256" using True by linarith
  ultimately have u: "unat i = unat (f_vector f) - 32"
    by (simp add: i_def unsigned_ucast_eq take_bit_eq_mod)
  have "i = of_nat (unat i)" by simp
  then have "i = of_nat (unat (f_vector f) - 32)" unfolding u .
  with True u show ?thesis
    by (simp add: irq_dispatch_def Let_def idt_consts word_less_nat_alt word_le_nat_alt i_def [symmetric])
next
  case False
  then show ?thesis by (auto simp: irq_dispatch_def Let_def idt_consts word_less_nat_alt word_le_nat_alt)
qed

definition timer_frame :: interrupt_frame where
  "timer_frame = \<lparr>f_r15 = 0, f_r14 = 0, f_r13 = 0, f_r12 = 0, f_r11 = 0, f_r10 = 0, f_r9 = 0, f_r8 = 0,
     f_rbp = 0, f_rdi = 0, f_rsi = 0, f_rdx = 0, f_rcx = 0, f_rbx = 0, f_rax = 0, f_vector = 32,
     f_error = 0, f_rip = 0, f_cs = 0x18, f_rflags = 0, f_rsp = 0, f_ss = 0\<rparr>"

definition wired_kbd :: keyboard where
  "wired_kbd = \<lparr>io_log = [], cursor_row = 0, cursor_col = 0, vga = (\<lambda>_. 0),
     idt = (\<lambda>_. int_gate 0), idtr = \<lparr>idtr_limit = 0, idtr_base = 0\<rparr>, cpu_idtr = \<lparr>idtr_limit = 0, idtr_base = 0\<rparr>,
     irq_handlers = wired, s_ticks = 0, s_initialized = 1,
     k_buf = (\<lambda>_. 0), k_head = 0, k_tail = 0, k_shift = 0, k_caps = 0, k_e0 = 0\<rparr>"

lemma count_filter_Cons: "length (filter P (x # xs)) = (if P x then 1 else 0) + length (filter P xs)"
  by simp

text \<open>One interrupt on wired handlers.\<close>

lemma irq_dispatch_step:
  fixes s t :: "'a keyboard_scheme"
  assumes "irq_handlers s = wired" "ring_inv s" and t_def: "t = irq_dispatch dev f s"
  shows "irq_handlers t = wired \<and> ring_inv t \<and> vga t = vga s \<and> cursor_row t = cursor_row s
    \<and> cursor_col t = cursor_col s
    \<and> s_ticks t = s_ticks s + (if unat (f_vector f) = 32 then 1 else 0)
    \<and> master m (io_log t) = (master m (io_log s))\<lparr>eois := eois (master m (io_log s)) + (if is_irq f then 1 else 0)\<rparr>
    \<and> slave m (io_log t) = (slave m (io_log s))\<lparr>eois := eois (slave m (io_log s)) + (if is_slave_irq f then 1 else 0)\<rparr>"
proof (cases "is_irq f")
  case False
  then show ?thesis using assms(1,2) by (auto simp: t_def irq_dispatch_eq)
next
  case True
  define n where "n = unat (f_vector f) - 32"
  have n: "n < 16" "unat (f_vector f) = 32 + n" using True by (auto simp: n_def)
  then have i: "unat (of_nat n :: u8) = n" by (simp add: unat_of_nat)
  define u where "u = (case irq_handlers s n of None \<Rightarrow> s | Some h \<Rightarrow> call_irq_handler dev h s)"
  have t: "t = pic_eoi (of_nat n) u" using True by (simp add: t_def irq_dispatch_eq n_def u_def)
  have u: "irq_handlers u = wired \<and> ring_inv u \<and> vga u = vga s \<and> cursor_row u = cursor_row s
      \<and> cursor_col u = cursor_col s \<and> s_ticks u = s_ticks s + (if n = 0 then 1 else 0)
      \<and> master m (io_log u) = master m (io_log s) \<and> slave m (io_log u) = slave m (io_log s)"
    using assms(1,2) keyboard_on_irq_queue [OF assms(2), of dev]
    by (auto simp: u_def wired_def call_irq_handler_def ring_inv_def master_def slave_def
        simp flip: assms(1) simp add: pit_on_tick_def)
  have "master c (io_log t) = (master c (io_log u))\<lparr>eois := Suc (eois (master c (io_log u)))\<rparr>"
    and "slave c (io_log t) = (if n < 8 then slave c (io_log u)
      else (slave c (io_log u))\<lparr>eois := Suc (eois (slave c (io_log u)))\<rparr>)" for c
    using i n by (simp_all add: t io_log_pic_eoi master_def slave_def pic_consts bit_numeral_simps)
  with u n show ?thesis by (auto simp: t ring_inv_def)
qed

text \<open>Any sequence of interrupts on wired handlers, by induction over the sequence.\<close>

lemma irq_fold:
  assumes "irq_handlers s = wired" "ring_inv s" and t_def: "t = fold (irq_dispatch dev) frames s"
  shows "s_ticks t = s_ticks s + of_nat (length (filter (\<lambda>f. unat (f_vector f) = 32) frames))
    \<and> master m (io_log t) = (master m (io_log s))\<lparr>eois := eois (master m (io_log s)) + length (filter is_irq frames)\<rparr>
    \<and> slave m (io_log t) = (slave m (io_log s))\<lparr>eois := eois (slave m (io_log s)) + length (filter is_slave_irq frames)\<rparr>
    \<and> vga t = vga s \<and> cursor_row t = cursor_row s \<and> cursor_col t = cursor_col s
    \<and> irq_handlers t = wired \<and> ring_inv t"
  unfolding t_def using assms(1,2)
proof (induction frames arbitrary: s)
  case (Cons f frames)
  define u where "u = irq_dispatch dev f s"
  note step = irq_dispatch_step [OF Cons.prems u_def, of m]
  then have "irq_handlers u = wired" "ring_inv u" by auto
  note ih = Cons.IH [OF this]
  let ?t = "fold (irq_dispatch dev) frames u"
  have fold: "fold (irq_dispatch dev) (f # frames) s = ?t" by (simp add: u_def)
  have "s_ticks ?t = s_ticks s + of_nat (length (filter (\<lambda>f. unat (f_vector f) = 32) (f # frames)))"
    using conjunct1 [OF ih] step by (simp only: count_filter_Cons of_nat_add) (simp add: add.assoc)
  moreover have "master m (io_log ?t)
      = (master m (io_log s))\<lparr>eois := eois (master m (io_log s)) + length (filter is_irq (f # frames))\<rparr>"
    using ih step by (simp only: count_filter_Cons) (simp add: add.assoc split del: if_split)
  moreover have "slave m (io_log ?t)
      = (slave m (io_log s))\<lparr>eois := eois (slave m (io_log s)) + length (filter is_slave_irq (f # frames))\<rparr>"
    using ih step by (simp only: count_filter_Cons) (simp add: add.assoc split del: if_split)
  ultimately show ?case unfolding fold using ih step by metis
qed simp

text \<open>
  C18: any sequence of interrupts on the wired system, in any order.  The tick counter advances by
  the number of timer interrupts; every interrupt of vectors 32 to 47 is acknowledged exactly once
  at the master and, from line 8 on, exactly once at the slave, whether or not a handler is
  registered; masks and chip setup do not change; other vectors do nothing; and no handler touches
  the screen.
\<close>

theorem irq_sequence:
  assumes "irq_handlers s = wired" "ring_inv s" and t_def: "t = fold (irq_dispatch dev) frames s"
  shows "s_ticks t = s_ticks s + of_nat (length (filter (\<lambda>f. unat (f_vector f) = 32) frames))
    \<and> master m (io_log t) = (master m (io_log s))\<lparr>eois := eois (master m (io_log s)) + length (filter is_irq frames)\<rparr>
    \<and> slave m (io_log t) = (slave m (io_log s))\<lparr>eois := eois (slave m (io_log s)) + length (filter is_slave_irq frames)\<rparr>
    \<and> vga t = vga s \<and> cursor_row t = cursor_row s \<and> cursor_col t = cursor_col s
    \<and> irq_handlers t = wired \<and> ring_inv t"
  by (rule irq_fold [OF assms])

theorem irq_sequence_witness:
  "s_ticks (fold (irq_dispatch (\<lambda>_ _. 0)) [timer_frame, timer_frame] wired_kbd) = 2"
proof -
  have w: "irq_handlers wired_kbd = wired" "ring_inv wired_kbd" "s_ticks wired_kbd = 0"
    by (simp_all add: wired_kbd_def ring_inv_def)
  have "unat (f_vector timer_frame) = 32" by (simp add: timer_frame_def)
  then have "length (filter (\<lambda>f. unat (f_vector f) = 32) [timer_frame, timer_frame]) = 2" by simp
  with irq_sequence [OF w(1,2) refl, of "\<lambda>_ _. 0" "[timer_frame, timer_frame]"] w(3) show ?thesis
    by (metis add_0 of_nat_numeral)
qed

end
