(* ===== verification/Klog.thy ===== *)
theory Klog
  imports Console Pit
begin

text \<open>
  The boot logger, \<^verbatim>\<open>kernel/core/klog.c\<close>: decimal conversion, the timestamp prefix and the line
  functions.  Every operation is shown to be one \<open>console_puts\<close> of a string that is written down
  here in closed form.
\<close>

section \<open>Operations\<close>

definition KLOG_TIME_WIDTH :: u64 where "KLOG_TIME_WIDTH = 12"

text \<open>The digit loops; the buffer is the list of the bytes stored so far, so \<open>n\<close> is its length.\<close>

function dec_digits :: "u64 \<Rightarrow> u8 list \<Rightarrow> u8 list" where
  "dec_digits v buf =
     (if v \<noteq> 0 \<and> length buf < 20 then dec_digits (v div 10) (buf @ [ucast (0x30 + v mod 10)]) else buf)"
  by pat_completeness auto
termination
  by (relation "measure (\<lambda>(v, buf). 20 - length buf)") auto

declare dec_digits.simps [simp del]

text \<open>The loop \<open>while (n > 0) { n--; console_putchar(buf[n]); }\<close>.\<close>

fun put_backwards :: "nat \<Rightarrow> u8 list \<Rightarrow> 'a console_scheme \<Rightarrow> 'a console_scheme" where
  "put_backwards 0 buf s = s"
| "put_backwards (Suc n) buf s = put_backwards n buf (console_putchar (buf ! n) s)"

function frac_loop :: "u64 \<Rightarrow> u64 \<Rightarrow> 'a console_scheme \<Rightarrow> 'a console_scheme" where
  "frac_loop frac d s =
     (if 0 < d then frac_loop frac (d div 10) (console_putchar (ucast (0x30 + (frac div d) mod 10)) s)
      else s)"
  by pat_completeness auto
termination
  by (relation "measure (\<lambda>(frac, d, s). unat d)")
    (auto simp: unat_div_distrib word_less_nat_alt)

declare frac_loop.simps [simp del]

definition klog_prefix :: "u8 list \<Rightarrow> 'a pit_scheme \<Rightarrow> 'a pit_scheme" where
  "klog_prefix subsystem s =
     (let ticks = pit_ticks s;
          secs = ticks div ucast PIT_HZ;
          frac = (ticks mod ucast PIT_HZ) * 10000;
          num = (if secs = 0 then [0x30] else dec_digits secs []);
          len = of_nat (length num) + 7;
          s = console_putchar 0x5B s;
          s = for_range len KLOG_TIME_WIDTH (\<lambda>_. console_putchar 0x20) s;
          s = put_backwards (length num) num s;
          s = console_putchar 0x2E s;
          s = frac_loop frac 100000 s;
          s = console_puts (cstr ''] '') s;
          s = console_puts subsystem s
      in console_puts (cstr '': '') s)"

definition klog_begin :: "u8 list \<Rightarrow> 'a pit_scheme \<Rightarrow> 'a pit_scheme" where
  "klog_begin subsystem s = klog_prefix subsystem s"

definition klog_str :: "u8 list \<Rightarrow> 'a console_scheme \<Rightarrow> 'a console_scheme" where
  "klog_str str s = console_puts str s"

definition klog_dec :: "u64 \<Rightarrow> 'a console_scheme \<Rightarrow> 'a console_scheme" where
  "klog_dec v s =
     (if v = 0 then console_putchar 0x30 s
      else let buf = dec_digits v [] in put_backwards (length buf) buf s)"

definition klog_hex64 :: "u64 \<Rightarrow> 'a console_scheme \<Rightarrow> 'a console_scheme" where
  "klog_hex64 v s = console_puthex64 v s"

definition klog_end :: "'a console_scheme \<Rightarrow> 'a console_scheme" where
  "klog_end s = console_putchar 0x0A s"

definition klog :: "u8 list \<Rightarrow> u8 list \<Rightarrow> 'a pit_scheme \<Rightarrow> 'a pit_scheme" where
  "klog subsystem msg s = klog_end (klog_str msg (klog_begin subsystem s))"

section \<open>Decimal numerals\<close>

fun nat_dec :: "nat \<Rightarrow> u8 list" where
  "nat_dec n = (if n < 10 then [0x30 + of_nat n] else nat_dec (n div 10) @ [0x30 + of_nat (n mod 10)])"

declare nat_dec.simps [simp del]

definition parse_dec :: "u8 list \<Rightarrow> nat" where
  "parse_dec = foldl (\<lambda>a c. 10 * a + (unat c - 0x30)) 0"

lemma unat_digit: "n < 10 \<Longrightarrow> unat (0x30 + of_nat n :: u8) = 0x30 + n"
  by (simp add: unat_word_ariths unat_of_nat)

lemma parse_nat_dec: "parse_dec (nat_dec n) = n"
proof (induction n rule: nat_dec.induct)
  case (1 n)
  show ?case
  proof (cases "n < 10")
    case True
    then show ?thesis using unat_digit [of n] by (simp add: nat_dec.simps [of n] parse_dec_def)
  next
    case False
    then show ?thesis
      using 1 unat_digit [of "n mod 10"] by (simp add: nat_dec.simps [of n] parse_dec_def)
  qed
qed

lemma nat_dec_no_nul: "0 \<notin> set (nat_dec n)"
proof (induction n rule: nat_dec.induct)
  case (1 n)
  have "0x30 + of_nat m \<noteq> (0 :: u8)" if "m < 10" for m using unat_digit [OF that] by auto
  with 1 show ?case by (subst nat_dec.simps) (auto simp: not_less)
qed

lemma digit_byte: "(ucast (0x30 + v mod 10) :: u8) = 0x30 + of_nat (unat v mod 10)" for v :: u64
proof -
  have "unat (0x30 + v mod 10) = 0x30 + unat v mod 10"
    by (subst unat_add_small) (simp_all add: unat_mod_distrib)
  then have "unat (ucast (0x30 + v mod 10) :: u8) = 0x30 + unat v mod 10"
    by (simp add: unsigned_ucast_eq take_bit_eq_mod)
  then show ?thesis using unat_digit [of "unat v mod 10"] by (simp add: word_unat_eq_iff)
qed

lemma dec_digits_spec:
  assumes "v \<noteq> 0" "unat v < 10 ^ (20 - length buf)"
  shows "dec_digits v buf = buf @ rev (nat_dec (unat v))"
  using assms
proof (induction v buf rule: dec_digits.induct)
  case (1 v buf)
  have len: "length buf < 20"
  proof (rule ccontr)
    assume "\<not> length buf < 20"
    with 1(3) have "unat v = 0" by simp
    with 1(2) show False by (simp add: unat_eq_0)
  qed
  define m where "m = 20 - length (buf @ [0 :: u8])"
  have m: "20 - length buf = Suc m" using len by (simp add: m_def)
  have step: "dec_digits v buf = dec_digits (v div 10) (buf @ [0x30 + of_nat (unat v mod 10)])"
    using 1(2) len by (subst dec_digits.simps) (simp add: digit_byte)
  have u: "unat (v div 10) = unat v div 10" by (simp add: unat_div_distrib)
  show ?case
  proof (cases "v div 10 = 0")
    case True
    then have "unat v < 10" using u by (simp add: div_eq_0_iff)
    with True step show ?thesis by (simp add: dec_digits.simps [of 0] nat_dec.simps [of "unat v"])
  next
    case False
    have "unat (v div 10) < 10 ^ m" using 1(3) m u by (simp add: less_mult_imp_div_less mult.commute)
    then have "dec_digits (v div 10) (buf @ [0x30 + of_nat (unat v mod 10)])
        = buf @ [0x30 + of_nat (unat v mod 10)] @ rev (nat_dec (unat v div 10))"
      using 1(1) [OF _ False] 1(2) len u by (simp add: digit_byte m_def)
    moreover have "\<not> unat v < 10" using False u by (simp add: unat_eq_0 [symmetric] div_eq_0_iff)
    ultimately show ?thesis using step by (simp add: nat_dec.simps [of "unat v"])
  qed
qed

section \<open>Everything is one string\<close>

lemma console_puts_snoc: "0 \<notin> set xs \<Longrightarrow> c \<noteq> 0 \<Longrightarrow> console_putchar c (console_puts xs s) = console_puts (xs @ [c]) s"
  by (simp add: console_puts_append)

lemma put_backwards_puts:
  "0 \<notin> set buf \<Longrightarrow> n \<le> length buf \<Longrightarrow> put_backwards n buf s = console_puts (rev (take n buf)) s"
proof (induction n arbitrary: s)
  case (Suc n)
  then have "buf ! n \<noteq> 0" by (metis Suc_le_lessD nth_mem)
  with Suc show ?case by (simp add: take_Suc_conv_app_nth)
qed simp

lemma put_digits: "put_backwards (length num) num s = console_puts (nat_dec (unat v)) s"
  if "num = (if v = 0 then [0x30] else dec_digits v [])"
proof -
  have "unat v < 10 ^ 20" using unsigned_less [of v, where 'a = nat] by simp
  then have "num = rev (nat_dec (unat v))"
    using that dec_digits_spec [of v "[]"] by (auto simp: nat_dec.simps [of 0])
  then show ?thesis using nat_dec_no_nul [of "unat v"] by (simp add: put_backwards_puts)
qed

lemma klog_dec_puts: "klog_dec v s = console_puts (nat_dec (unat v)) s"
  using put_digits [OF refl, of v s] by (auto simp: klog_dec_def Let_def)

lemma length_digits: "length (if v = 0 then [0x30] else dec_digits v []) = length (nat_dec (unat v))"
proof -
  have "unat v < 10 ^ 20" using unsigned_less [of v, where 'a = nat] by simp
  then show ?thesis using dec_digits_spec [of v "[]"] by (auto simp: nat_dec.simps [of 0])
qed

lemma nat_dec_length: "n < 10 ^ Suc k \<Longrightarrow> length (nat_dec n) \<le> Suc k"
proof (induction k arbitrary: n)
  case 0
  then show ?case by (simp add: nat_dec.simps)
next
  case (Suc k)
  then have "n div 10 < 10 ^ Suc k" by (simp add: less_mult_imp_div_less mult.commute)
  with Suc.IH show ?case by (subst nat_dec.simps) simp
qed

lemma pad_puts:
  fixes n :: u64
  assumes "unat n \<le> 64"
  shows "for_range n 12 (\<lambda>_. console_putchar 0x20) s = console_puts (replicate (12 - unat n) 0x20) s"
proof -
  have "fold (\<lambda>_. console_putchar 0x20) xs s = console_puts (replicate (length xs) 0x20) s" for xs :: "nat list"
    by (induction xs arbitrary: s) simp_all
  then show ?thesis by (simp add: for_range_fold)
qed

text \<open>The six digits of a fraction of a whole number of hundredths of a second.\<close>

definition frac_digits :: "nat \<Rightarrow> u8 list" where
  "frac_digits t = [0x30 + of_nat (t mod 100 div 10), 0x30 + of_nat (t mod 10), 0x30, 0x30, 0x30, 0x30]"

lemma frac_loop_puts:
  "frac_loop ((t mod 100) * 10000) 100000 s = console_puts (frac_digits (unat t)) s"
proof -
  define r where "r = unat t mod 100"
  define f where "f = (t mod 100) * 10000"
  have f: "unat f = r * 10000"
    unfolding f_def r_def by (simp add: unat_word_ariths unat_mod_distrib)
  have r: "r < 100" by (simp add: r_def)
  have digit: "(ucast (0x30 + (f div of_nat d) mod 10) :: u8) = 0x30 + of_nat (r * 10000 div d mod 10)"
    if "d < 2 ^ 64" for d
    using digit_byte [of "f div of_nat d"] f that by (simp add: unat_div_distrib unat_of_nat)
  have "r * 10000 div 100000 = r div 10" using div_mult_mult2 [of 10000 r 10] by simp
  moreover have "r div 10 mod 10 = r div 10" using r by (simp add: less_mult_imp_div_less)
  moreover have "r * 10000 div 1000 = r * 10" "r * 10000 div 100 = r * 100" "r * 10000 div 10 = r * 1000"
    using div_mult_self1_is_m [of 1000 "r * 10"] div_mult_self1_is_m [of 100 "r * 100"]
      div_mult_self1_is_m [of 10 "r * 1000"] by (simp_all add: ac_simps)
  moreover have "r * 10 mod 10 = 0" "r * 100 mod 10 = 0" "r * 1000 mod 10 = 0" "r * 10000 mod 10 = 0"
    by (simp_all add: mod_eq_0_iff_dvd)
  ultimately have "r * 10000 div 100000 mod 10 = r div 10" "r * 10000 div 10000 mod 10 = r mod 10"
    "r * 10000 div 1000 mod 10 = 0" "r * 10000 div 100 mod 10 = 0" "r * 10000 div 10 mod 10 = 0"
    "r * 10000 div 1 mod 10 = 0" by simp_all
  then have d: "(ucast (0x30 + (f div 100000) mod 10) :: u8) = 0x30 + of_nat (r div 10)"
    "(ucast (0x30 + (f div 10000) mod 10) :: u8) = 0x30 + of_nat (r mod 10)"
    "(ucast (0x30 + (f div 1000) mod 10) :: u8) = 0x30" "(ucast (0x30 + (f div 100) mod 10) :: u8) = 0x30"
    "(ucast (0x30 + (f div 10) mod 10) :: u8) = 0x30" "(ucast (0x30 + f mod 10) :: u8) = 0x30"
    using digit [of 100000] digit [of 10000] digit [of 1000] digit [of 100] digit [of 10] digit [of 1]
    by simp_all
  have nz: "0x30 + of_nat (r div 10) \<noteq> (0 :: u8)" "0x30 + of_nat (r mod 10) \<noteq> (0 :: u8)"
    using unat_digit [of "r div 10"] unat_digit [of "r mod 10"] r less_mult_imp_div_less [of r 10 10] by auto
  have mm: "unat t mod 10 = r mod 10" by (simp add: r_def mod_mod_cancel)
  have "frac_loop f 100000 s = console_puts (frac_digits (unat t)) s"
    unfolding frac_digits_def r_def [symmetric] mm using d nz
    by (simp add: frac_loop.simps)
  then show ?thesis by (simp add: f_def)
qed

text \<open>The text of the prefix at \<open>t\<close> ticks.\<close>

definition prefix_text :: "nat \<Rightarrow> u8 list \<Rightarrow> u8 list" where
  "prefix_text t subsystem =
     cstr ''['' @ replicate (12 - (length (nat_dec (t div 100)) + 7)) 0x20 @ nat_dec (t div 100)
      @ cstr ''.'' @ frac_digits t @ cstr ''] '' @ subsystem @ cstr '': ''"

lemma frac_digits_no_nul: "0 \<notin> set (frac_digits t)"
  using unat_digit [of "t mod 100 div 10"] unat_digit [of "t mod 10"]
    less_mult_imp_div_less [of "t mod 100" 10 10]
  by (auto simp: frac_digits_def)

lemma klog_prefix_puts:
  assumes "0 \<notin> set subsystem"
  shows "klog_prefix subsystem s = console_puts (prefix_text (unat (s_ticks s)) subsystem) s"
proof -
  let ?v = "s_ticks s div 100"
  let ?num = "if ?v = 0 then [0x30] else dec_digits ?v []"
  have v: "unat ?v = unat (s_ticks s) div 100" by (simp add: unat_div_distrib)
  have "unat ?v < 10 ^ Suc 19" using unsigned_less [of ?v, where 'a = nat] by simp
  then have "length (nat_dec (unat ?v)) \<le> 20" using nat_dec_length [of _ 19] by simp
  then have n: "unat (of_nat (length ?num) + 7 :: u64) = length (nat_dec (unat ?v)) + 7"
    unfolding length_digits by (simp add: unat_word_ariths unat_of_nat)
  note pad = pad_puts [of "of_nat (length ?num) + 7", unfolded n]
  have one: "cstr ''['' = [0x5B]" "cstr ''.'' = [0x2E]" by (simp_all add: cstr_def of_char_def)
  have hz: "(ucast PIT_HZ :: u64) = 100" by (simp add: PIT_HZ_def)
  have z: "0 \<notin> set (replicate k (0x20 :: u8))" for k by simp
  show ?thesis
    unfolding klog_prefix_def pit_ticks_def hz KLOG_TIME_WIDTH_def Let_def put_digits [OF refl] frac_loop_puts
    using \<open>length (nat_dec (unat ?v)) \<le> 20\<close>
    by (subst pad) (simp_all add: prefix_text_def one console_puts_append nat_dec_no_nul
        frac_digits_no_nul z assms v [symmetric])
qed

section \<open>Properties\<close>

text \<open>
  \<open>klog_dec\<close> prints a decimal numeral that reads back as the value, for every 64-bit value:
  at most 20 digits, so the 20-byte buffer always suffices.
\<close>

theorem klog_dec_roundtrip:
  "klog_dec v s = console_puts (nat_dec (unat v)) s
   \<and> parse_dec (nat_dec (unat v)) = unat v \<and> length (nat_dec (unat v)) \<le> 20"
proof -
  have "unat v < 10 ^ Suc 19" using unsigned_less [of v, where 'a = nat] by simp
  then show ?thesis using nat_dec_length [of "unat v" 19] by (simp add: klog_dec_puts parse_nat_dec)
qed

text \<open>
  \<open>klog\<close> prints one line: in brackets the seconds and six fraction digits of the time since
  boot at 100 ticks per second, padded on the left to twelve characters, then the subsystem, a colon,
  the message and a newline.  The fraction is exact: its last four digits are zero.
\<close>

theorem klog_line:
  assumes "0 \<notin> set subsystem" "0 \<notin> set msg"
  shows "klog subsystem msg s = console_puts
     (cstr ''['' @ replicate (12 - (length (nat_dec (unat (s_ticks s) div 100)) + 7)) 0x20
      @ nat_dec (unat (s_ticks s) div 100) @ cstr ''.'' @ frac_digits (unat (s_ticks s))
      @ cstr ''] '' @ subsystem @ cstr '': '' @ msg @ [0x0A]) s"
proof -
  have "0 \<notin> set (prefix_text t subsystem)" for t
    using assms(1) by (simp add: prefix_text_def nat_dec_no_nul frac_digits_no_nul)
  then have "klog subsystem msg s = console_puts (prefix_text (unat (s_ticks s)) subsystem @ msg @ [0x0A]) s"
    using assms(2)
    by (simp add: klog_def klog_begin_def klog_str_def klog_end_def klog_prefix_puts [OF assms(1)]
        console_puts_append)
  then show ?thesis by (simp add: prefix_text_def)
qed

theorem klog_line_witness:
  "klog (cstr ''pit'') (cstr ''up'') (s_ticks_update (\<lambda>_. 1234) undefined :: pit)
    = console_puts (cstr ''[   12.340000] pit: up'' @ [0x0A]) (s_ticks_update (\<lambda>_. 1234) undefined)"
proof -
  have n: "nat_dec 12 = [0x31, 0x32]"
    by (simp add: nat_dec.simps [of 12] nat_dec.simps [of "Suc 0"])
  have f: "frac_digits 1234 = [0x33, 0x34, 0x30, 0x30, 0x30, 0x30]" by (simp add: frac_digits_def)
  have r: "replicate 3 (0x20 :: u8) = [0x20, 0x20, 0x20]" by (simp add: eval_nat_numeral)
  have "klog (cstr ''pit'') (cstr ''up'') (s_ticks_update (\<lambda>_. 1234) undefined :: pit)
    = console_puts (cstr ''['' @ replicate 3 0x20 @ nat_dec 12 @ cstr ''.'' @ frac_digits 1234
      @ cstr ''] '' @ cstr ''pit'' @ cstr '': '' @ cstr ''up'' @ [0x0A]) (s_ticks_update (\<lambda>_. 1234) undefined)"
    using klog_line [of "cstr ''pit''" "cstr ''up''" "s_ticks_update (\<lambda>_. 1234) undefined"] by (simp add: n)
  then show ?thesis unfolding n f r by (simp add: cstr_def of_char_def)
qed

end
