(* ===== verification/Serial.thy ===== *)
theory Serial
  imports Port_IO
begin

unbundle bit_operations_syntax

text \<open>
  The COM1 driver, \<^verbatim>\<open>kernel/arch/x86_64/serial.c\<close>.  Transmission polls the line status register and
  spins until the transmitter is empty, so every output operation returns an option, \<open>None\<close> when the
  spin never ends.  A model of the 16550 registers, replayed over the port history, says what is
  programmed and what is sent.
\<close>

section \<open>The driver\<close>

definition COM_DATA :: u16 where "COM_DATA = 0x3F8"
definition COM_IER :: u16 where "COM_IER = 0x3F9"
definition COM_FIFO :: u16 where "COM_FIFO = 0x3FA"
definition COM_LCTL :: u16 where "COM_LCTL = 0x3FB"
definition COM_MCTL :: u16 where "COM_MCTL = 0x3FC"
definition COM_LSR :: u16 where "COM_LSR = 0x3FD"
definition LSR_TX_EMPTY :: u8 where "LSR_TX_EMPTY = 0x20"

lemmas com_consts = COM_DATA_def COM_IER_def COM_FIFO_def COM_LCTL_def COM_MCTL_def COM_LSR_def
  LSR_TX_EMPTY_def

definition serial_init :: "'a ports_scheme \<Rightarrow> 'a ports_scheme" where
  "serial_init s =
     (let s = outb COM_IER 0x00 s;
          s = outb COM_LCTL 0x80 s;
          s = outb COM_DATA 0x03 s;
          s = outb COM_IER 0x00 s;
          s = outb COM_LCTL 0x03 s;
          s = outb COM_FIFO 0xC7 s
      in outb COM_MCTL 0x0B s)"

text \<open>The spin \<open>while ((inb(COM_LSR) & LSR_TX_EMPTY) == 0)\<close>.\<close>

partial_function (option) serial_wait :: "device \<Rightarrow> 'a ports_scheme \<Rightarrow> 'a ports_scheme option" where
  "serial_wait dev s =
     (case inb dev COM_LSR s of (v, t) \<Rightarrow>
        if v AND LSR_TX_EMPTY = 0 then serial_wait dev t else Some t)"

definition serial_putchar :: "device \<Rightarrow> u8 \<Rightarrow> 'a ports_scheme \<Rightarrow> 'a ports_scheme option" where
  "serial_putchar dev c s = map_option (outb COM_DATA c) (serial_wait dev s)"

fun serial_puts_loop :: "device \<Rightarrow> u8 list \<Rightarrow> 'a ports_scheme \<Rightarrow> 'a ports_scheme option" where
  "serial_puts_loop dev [] s = Some s"
| "serial_puts_loop dev (c # cs) s =
     (if c = 0 then Some s else Option.bind (serial_putchar dev c s) (serial_puts_loop dev cs))"

text \<open>The argument is \<open>None\<close> for the NULL pointer.\<close>

definition serial_puts :: "device \<Rightarrow> u8 list option \<Rightarrow> 'a ports_scheme \<Rightarrow> 'a ports_scheme option" where
  "serial_puts dev str s = (case str of None \<Rightarrow> Some s | Some cs \<Rightarrow> serial_puts_loop dev cs s)"

definition serial_ok :: "device \<Rightarrow> 'a ports_scheme \<Rightarrow> bool \<times> 'a ports_scheme" where
  "serial_ok dev s = (case inb dev COM_LSR s of (v, t) \<Rightarrow> (v \<noteq> 0xFF, t))"

section \<open>The 16550\<close>

record uart =
  u_lcr :: u8
  u_ier :: u8
  u_fcr :: u8
  u_mcr :: u8
  u_divisor_low :: u8
  u_divisor_high :: u8
  u_sent :: "u8 list"

text \<open>Bit 7 of the line control register turns ports 0x3F8 and 0x3F9 into the divisor latch.\<close>

fun uart_step :: "io_event \<Rightarrow> uart \<Rightarrow> uart" where
  "uart_step (In port v) u = u"
| "uart_step (Out port v) u =
     (if port = COM_LCTL then u\<lparr>u_lcr := v\<rparr>
      else if port = COM_FIFO then u\<lparr>u_fcr := v\<rparr>
      else if port = COM_MCTL then u\<lparr>u_mcr := v\<rparr>
      else if port = COM_DATA then
        (if bit (u_lcr u) 7 then u\<lparr>u_divisor_low := v\<rparr> else u\<lparr>u_sent := u_sent u @ [v]\<rparr>)
      else if port = COM_IER then
        (if bit (u_lcr u) 7 then u\<lparr>u_divisor_high := v\<rparr> else u\<lparr>u_ier := v\<rparr>)
      else u)"

definition uart_of :: "uart \<Rightarrow> io_event list \<Rightarrow> uart" where
  "uart_of u log = fold uart_step log u"

lemma uart_of_append [simp]: "uart_of u (log @ evs) = uart_of (uart_of u log) evs"
  by (simp add: uart_of_def)

text \<open>
  A transmitter that drains: from every history on, after some number of polls the status register
  shows the transmitter empty.
\<close>

fun polls :: "device \<Rightarrow> nat \<Rightarrow> io_event list \<Rightarrow> io_event list" where
  "polls dev 0 log = log"
| "polls dev (Suc n) log = polls dev n (log @ [In COM_LSR (dev log COM_LSR)])"

definition uart_drains :: "device \<Rightarrow> bool" where
  "uart_drains dev \<longleftrightarrow> (\<forall>log. \<exists>n. dev (polls dev n log) COM_LSR AND LSR_TX_EMPTY \<noteq> 0)"

section \<open>Transmission\<close>

lemma uart_poll [simp]: "uart_of u [In port v] = u"
  by (simp add: uart_of_def)

lemma uart_write: "uart_of u [Out port v] = uart_step (Out port v) u"
  by (simp add: uart_of_def)

lemma uart_of_polls [simp]: "uart_of u (polls dev n log) = uart_of u log"
  by (induction n arbitrary: log) simp_all

text \<open>If the transmitter is empty after some poll, the spin ends, having only polled.\<close>

lemma serial_wait_returns:
  assumes "dev (polls dev n (io_log s)) COM_LSR AND LSR_TX_EMPTY \<noteq> 0"
  shows "\<exists>t. serial_wait dev s = Some t \<and> (\<forall>u. uart_of u (io_log t) = uart_of u (io_log s))
    \<and> ports.more t = ports.more s"
  using assms
proof (induction n arbitrary: s)
  case 0
  then show ?case by (subst serial_wait.simps) (simp add: inb_def Let_def)
next
  case (Suc n)
  show ?case
  proof (cases "dev (io_log s) COM_LSR AND LSR_TX_EMPTY = 0")
    case True
    let ?t = "snd (inb dev COM_LSR s)"
    have "\<exists>t. serial_wait dev ?t = Some t \<and> (\<forall>u. uart_of u (io_log t) = uart_of u (io_log ?t))
        \<and> ports.more t = ports.more ?t" using Suc.prems by (intro Suc.IH) simp
    moreover have "serial_wait dev s = serial_wait dev ?t"
      using True by (subst serial_wait.simps) (simp add: inb_def Let_def)
    ultimately show ?thesis by simp
  next
    case False
    then show ?thesis by (subst serial_wait.simps) (simp add: inb_def Let_def)
  qed
qed

lemma serial_putchar_sends:
  assumes "uart_drains dev"
  shows "\<exists>t. serial_putchar dev c s = Some t
    \<and> (\<forall>u. uart_of u (io_log t) = uart_step (Out COM_DATA c) (uart_of u (io_log s)))
    \<and> ports.more t = ports.more s"
proof -
  obtain n where "dev (polls dev n (io_log s)) COM_LSR AND LSR_TX_EMPTY \<noteq> 0"
    using assms by (auto simp: uart_drains_def)
  from serial_wait_returns [of dev n s, OF this] show ?thesis
    by (auto simp: serial_putchar_def uart_write simp del: uart_step.simps)
qed

lemma serial_puts_loop_sends:
  assumes "uart_drains dev" "0 \<notin> set cs"
  shows "\<exists>t. serial_puts_loop dev cs s = Some t
    \<and> (\<forall>u. \<not> bit (u_lcr (uart_of u (io_log s))) 7 \<longrightarrow>
         uart_of u (io_log t) = (uart_of u (io_log s))\<lparr>u_sent := u_sent (uart_of u (io_log s)) @ cs\<rparr>)
    \<and> ports.more t = ports.more s"
  using assms(2)
proof (induction cs arbitrary: s)
  case (Cons c cs)
  obtain t where t: "serial_putchar dev c s = Some t"
    "\<forall>u. uart_of u (io_log t) = uart_step (Out COM_DATA c) (uart_of u (io_log s))"
    "ports.more t = ports.more s" using serial_putchar_sends [OF assms(1)] by blast
  obtain t' where t': "serial_puts_loop dev cs t = Some t'" "ports.more t' = ports.more t"
    "\<forall>u. \<not> bit (u_lcr (uart_of u (io_log t))) 7 \<longrightarrow>
      uart_of u (io_log t') = (uart_of u (io_log t))\<lparr>u_sent := u_sent (uart_of u (io_log t)) @ cs\<rparr>"
    using Cons.IH [of t] Cons.prems by auto
  have "serial_puts_loop dev (c # cs) s = Some t'" using t(1) t'(1) Cons.prems by simp
  moreover have "uart_of u (io_log t') = (uart_of u (io_log s))\<lparr>u_sent := u_sent (uart_of u (io_log s)) @ c # cs\<rparr>"
    if "\<not> bit (u_lcr (uart_of u (io_log s))) 7" for u
    using that t(2) t'(3) by (simp add: com_consts)
  ultimately show ?case using t(3) t'(2) by auto
qed simp

section \<open>Properties\<close>

text \<open>
  \<open>serial_init\<close> programs the port, whatever its state, for 38400 baud (divisor 3), eight data
  bits, no parity, one stop bit, divisor latch closed and FIFOs on, and sends nothing.
\<close>

theorem serial_init_programs:
  "let u' = uart_of u (io_log (serial_init s))
   in 256 * unat (u_divisor_high u') + unat (u_divisor_low u') = 115200 div 38400
    \<and> u_lcr u' = 0x03 \<and> \<not> bit (u_lcr u') 7 \<and> u_fcr u' = 0xC7 \<and> u_mcr u' = 0x0B
    \<and> u_sent u' = u_sent (uart_of u (io_log s)) \<and> ports.more (serial_init s) = ports.more s"
  by (simp add: serial_init_def Let_def com_consts uart_of_def bit_numeral_simps)

text \<open>
  C29: on a transmitter that drains, \<open>serial_puts\<close> returns and sends exactly the bytes of the
  string, in order, once the divisor latch is closed.
\<close>

theorem serial_puts_delivers:
  assumes "uart_drains dev" and "0 \<notin> set cs" and "\<not> bit (u_lcr (uart_of u (io_log s))) 7"
  shows "\<exists>t. serial_puts dev (Some cs) s = Some t
    \<and> u_sent (uart_of u (io_log t)) = u_sent (uart_of u (io_log s)) @ cs
    \<and> ports.more t = ports.more s"
  using serial_puts_loop_sends [OF assms(1,2), of s] assms(3) by (auto simp: serial_puts_def)

text \<open>A UART that is ready at every second poll.\<close>

definition slow_uart :: device where
  "slow_uart log port = (if port = COM_LSR \<and> odd (length log) then 0x60 else 0)"

lemma slow_uart_drains: "uart_drains slow_uart"
  unfolding uart_drains_def
proof
  fix log
  show "\<exists>n. slow_uart (polls slow_uart n log) COM_LSR AND LSR_TX_EMPTY \<noteq> 0"
  proof (cases "odd (length log)")
    case True
    then show ?thesis by (intro exI [of _ 0]) (simp add: slow_uart_def com_consts)
  next
    case False
    then show ?thesis by (intro exI [of _ 1]) (simp add: slow_uart_def com_consts)
  qed
qed

theorem serial_puts_delivers_witness:
  "\<exists>t. serial_puts slow_uart (Some [0x48, 0x69]) (serial_init \<lparr>io_log = []\<rparr>) = Some t
     \<and> u_sent (uart_of \<lparr>u_lcr = 0, u_ier = 0, u_fcr = 0, u_mcr = 0, u_divisor_low = 0, u_divisor_high = 0,
          u_sent = []\<rparr> (io_log t)) = [0x48, 0x69]"
proof -
  let ?u = "\<lparr>u_lcr = 0, u_ier = 0, u_fcr = 0, u_mcr = 0, u_divisor_low = 0, u_divisor_high = 0, u_sent = []\<rparr>"
  have "\<not> bit (u_lcr (uart_of ?u (io_log (serial_init \<lparr>io_log = []\<rparr>)))) 7"
    and "u_sent (uart_of ?u (io_log (serial_init \<lparr>io_log = []\<rparr>))) = []"
    by (simp_all add: serial_init_def Let_def com_consts uart_of_def bit_numeral_simps)
  with serial_puts_delivers [OF slow_uart_drains, of "[0x48, 0x69]" ?u "serial_init \<lparr>io_log = []\<rparr>"]
  show ?thesis by auto
qed

text \<open>
  On wedged hardware, where the status register never shows the transmitter empty,
  \<open>serial_putchar\<close> never returns.
\<close>

theorem serial_putchar_hangs_if_wedged:
  assumes "\<And>log. dev log COM_LSR AND LSR_TX_EMPTY = 0"
  shows "serial_putchar dev c s = None"
proof -
  have "False" if ret: "serial_wait dev s = Some t" for t
  proof (rule serial_wait.raw_induct [where P = "\<lambda>d s t. d \<noteq> dev", OF _ ret, THEN notE])
    fix wait :: "device \<Rightarrow> 'a ports_scheme \<Rightarrow> 'a ports_scheme option" and d s t
    assume ih: "\<And>d s t. wait d s = Some t \<Longrightarrow> d \<noteq> dev"
      and step: "(case inb d COM_LSR s of (v, t) \<Rightarrow> if v AND LSR_TX_EMPTY = 0 then wait d t else Some t) = Some t"
    show "d \<noteq> dev" using ih step assms by (auto simp: inb_def Let_def split: if_splits)
  qed simp
  then have "serial_wait dev s = None" by (cases "serial_wait dev s") auto
  then show ?thesis by (simp add: serial_putchar_def)
qed

theorem serial_putchar_hangs_if_wedged_witness:
  "serial_putchar (\<lambda>_ _. 0x1F) 0x41 \<lparr>io_log = []\<rparr> = None"
  by (rule serial_putchar_hangs_if_wedged) (simp add: LSR_TX_EMPTY_def)

end
