(* ===== verification/Kmain.thy ===== *)
theory Kmain
  imports Interrupts Klog Serial Kmalloc
begin

unbundle bit_operations_syntax

text \<open>
  The kernel entry, \<^verbatim>\<open>kernel/core/kmain.c\<close>: the boot sequence, the heap self-test and one pass of
  the main loop, composed of the operations of all other theories on one state.  A step that can
  fault is in the sum, a step that may never return (a serial spin, a walk of a corrupted list) is in
  the option.  Addresses the linker fixes are in a record of their own.
\<close>

section \<open>State and sequencing\<close>

record kernel = keyboard +
  memmap_count :: u32
  memmap_entries :: "e820_entry carray"
  k_pmm :: pmm
  k_heap :: heap
  if_flag :: bool

record link_layout =
  kernel_start :: u64
  kernel_end :: u64
  isr_stub_table :: "u64 carray"
  irq_stub_table :: "u64 carray"
  idt_address :: u64

type_synonym 'a outcome = "(fault + 'a) option"

definition returns :: "'a \<Rightarrow> 'a outcome" where
  "returns x = Some (Inr x)"

definition andthen :: "'a outcome \<Rightarrow> ('a \<Rightarrow> 'b outcome) \<Rightarrow> 'b outcome" where
  "andthen m f = (case m of None \<Rightarrow> None | Some (Inl e) \<Rightarrow> Some (Inl e) | Some (Inr x) \<Rightarrow> f x)"

lemma andthen_simps [simp]:
  "andthen None f = None" "andthen (Some (Inl e)) f = Some (Inl e)" "andthen (Some (Inr x)) f = f x"
  "andthen (returns x) f = f x"
  by (simp_all add: andthen_def returns_def)

text \<open>A counting loop whose body may fault.\<close>

function for_rangeE :: "u64 \<Rightarrow> u64 \<Rightarrow> (u64 \<Rightarrow> 's \<Rightarrow> fault + 's) \<Rightarrow> 's \<Rightarrow> fault + 's" where
  "for_rangeE i n body s = (if i < n then bindE (body i s) (for_rangeE (i + 1) n body) else Inr s)"
  by pat_completeness auto
termination
  by (relation "measure (\<lambda>(i, n, body, s). unat n - unat i)")
    (auto simp: unat_suc_less word_less_nat_alt)

declare for_rangeE.simps [simp del]

section \<open>The heap self-test\<close>

definition PROOF_VALUE :: u64 where "PROOF_VALUE = 0x0123456789ABCDEF"

definition store_byte :: "u64 \<Rightarrow> u8 \<Rightarrow> heap \<Rightarrow> fault + heap" where
  "store_byte a v h = bindE (store8 a v (mem h)) (\<lambda>m. Inr (h\<lparr>mem := m\<rparr>))"

definition load_byte :: "u64 \<Rightarrow> heap \<Rightarrow> fault + u8" where
  "load_byte a h = load8 (mem h) a"

text \<open>The writes and read-backs of the self-test, for three non-NULL blocks; the result is \<open>ok\<close>.\<close>

definition self_test_touch :: "u64 \<Rightarrow> u64 \<Rightarrow> heap \<Rightarrow> fault + bool \<times> heap" where
  "self_test_touch a b h =
     bindE (for_rangeE 0 100 (\<lambda>i. store_byte (a + i) (ucast i)) h) (\<lambda>h.
     bindE (for_rangeE 0 100 (\<lambda>i ok. bindE (load_byte (a + i) h) (\<lambda>v. Inr (if v \<noteq> ucast i then False else ok))) True) (\<lambda>ok.
     bindE (store_byte b 0xAA h) (\<lambda>h.
     bindE (store_byte (b + 4999) 0x55 h) (\<lambda>h.
     bindE (load_byte b h) (\<lambda>v.
     if v \<noteq> 0xAA then Inr (False, h)
     else bindE (load_byte (b + 4999) h) (\<lambda>w. Inr (if w \<noteq> 0x55 then False else ok, h)))))))"

definition heap_self_test :: "heap \<Rightarrow> (bool \<times> heap) outcome" where
  "heap_self_test h =
     andthen (kmalloc 100 h) (\<lambda>(a, h).
     andthen (kmalloc 5000 h) (\<lambda>(b, h).
     andthen (kmalloc 1 h) (\<lambda>(c, h).
     andthen (if a = 0 \<or> b = 0 \<or> c = 0 then returns (False, h) else Some (self_test_touch a b h)) (\<lambda>(ok, h).
     Some (bindE (kfree a h) (\<lambda>h.
           bindE (kfree b h) (\<lambda>h.
           bindE (kfree c h) (\<lambda>h.
           bindE (kfree 0 h) (\<lambda>h. Inr (ok, h))))))))))"

section \<open>Boot\<close>

definition serial_line :: "device \<Rightarrow> bool \<Rightarrow> string \<Rightarrow> kernel \<Rightarrow> kernel outcome" where
  "serial_line dev present msg s =
     (if present then map_option Inr (serial_puts dev (Some (cstr msg)) s) else returns s)"

definition kmain_devices :: "device \<Rightarrow> link_layout \<Rightarrow> kernel \<Rightarrow> (bool \<times> kernel) outcome" where
  "kmain_devices dev lay s =
     (let s = console_clear s;
          s = klog (cstr ''nadir'') (cstr ''Hello World from Nadir kernel (64-bit long mode, Ring 0)'') s;
          s = idt_init (isr_stub_table lay) (idt_address lay) s;
          s = klog (cstr ''idt'') (cstr ''exceptions 0-31 installed'') s;
          s = pic_remap s;
          s = klog (cstr ''pic'') (cstr ''remapped IRQ 0-15 to vectors 32-47'') s;
          s = idt_install_irqs (irq_stub_table lay) s;
          s = klog (cstr ''idt'') (cstr ''IRQ gates 32-47 installed'') s;
          s = serial_init s;
          (serial_present, s) = serial_ok dev s;
          s = klog (cstr ''serial'') (cstr ''COM1 38400 8N1 ready'') s
      in andthen (serial_line dev serial_present (''Hello World from Nadir kernel'' @ [CHR 0x0A]) s) (\<lambda>s.
         let s = pit_init s;
             s = klog (cstr ''pit'') (cstr ''100Hz on IRQ0'') s
         in andthen (serial_line dev serial_present (''pit: 100Hz on IRQ0'' @ [CHR 0x0A]) s) (\<lambda>s.
         let s = keyboard_init dev s;
             s = klog (cstr ''keyboard'') (cstr ''PS/2 ready on IRQ1'') s
         in andthen (serial_line dev serial_present (''keyboard: PS/2 ready on IRQ1'' @ [CHR 0x0A]) s) (\<lambda>s.
         returns (serial_present, s)))))"

definition kmain_memory :: "link_layout \<Rightarrow> kernel \<Rightarrow> kernel" where
  "kmain_memory lay s =
     (let s = s\<lparr>k_pmm := pmm_init (kernel_start lay) (kernel_end lay) (memmap_count s)
                 (Some (memmap_entries s)) (k_pmm s)\<rparr>;
          s = klog_begin (cstr ''pmm'') s;
          s = klog_str (cstr ''E820 entries '') s;
          s = klog_dec (ucast (memmap_count s)) s;
          s = klog_str (cstr '', usable frames '') s;
          s = klog_dec (pmm_usable_count (k_pmm s)) s;
          s = klog_str (cstr '' / total frames '') s;
          s = klog_dec pmm_total_count s;
          s = klog_str (cstr '', free frames '') s;
          s = klog_dec (pmm_free_count (k_pmm s)) s;
          s = klog_str (cstr '', reserved '') s;
          s = klog_dec (pmm_usable_count (k_pmm s) - pmm_free_count (k_pmm s)) s
      in klog_end s)"

definition kmain_heap :: "kernel \<Rightarrow> kernel outcome" where
  "kmain_heap s =
     andthen (Some (kmalloc_init (k_pmm s) (k_heap s))) (\<lambda>(p, h).
     andthen (heap_self_test h) (\<lambda>(ok, h).
     let s = s\<lparr>k_pmm := p, k_heap := h\<rparr>;
         s = klog_begin (cstr ''kmalloc'') s;
         s = klog_str (cstr ''self-test '') s;
         s = klog_str (cstr (if ok then ''ok'' else ''FAILED'')) s;
         s = klog_str (cstr '', free frames '') s;
         s = klog_dec (kmalloc_free_frames (k_heap s)) s;
         s = klog_str (cstr '', used frames '') s;
         s = klog_dec (kmalloc_used_frames (k_heap s)) s
     in returns (klog_end s)))"

text \<open>The interrupts that arrive at a point where the CPU can take them.\<close>

definition take_irqs :: "device \<Rightarrow> interrupt_frame list \<Rightarrow> kernel \<Rightarrow> kernel" where
  "take_irqs dev frames s = fold (irq_dispatch dev) frames s"

text \<open>
  From \<open>sti\<close> on interrupts arrive at any time: \<open>irqs k\<close> are those taken before the \<open>k\<close>-th of the calls
  that follow, the last of them before the main loop.  The only variable of a handler that these calls
  read is the tick counter, and each log line reads it once, first of all; the handlers in turn neither
  print nor send.  So interrupts during a call have the effect of interrupts before the next one, but
  for the order of port accesses that reach different chips.
\<close>

definition kmain_live ::
  "device \<Rightarrow> bool \<Rightarrow> (nat \<Rightarrow> interrupt_frame list) \<Rightarrow> kernel \<Rightarrow> kernel outcome" where
  "kmain_live dev serial_present irqs s =
     (let s = pic_unmask dev 0 s;
          s = pic_unmask dev 1 s;
          s = s\<lparr>if_flag := True\<rparr>;
          s = take_irqs dev (irqs 0) s;
          s = klog (cstr ''nadir'') (cstr ''interrupts enabled (IRQs 0-1)'') s;
          s = take_irqs dev (irqs 1) s
      in andthen (serial_line dev serial_present (''nadir: interrupts enabled (IRQs 0-1)'' @ [CHR 0x0A]) s) (\<lambda>s.
         let s = take_irqs dev (irqs 2) s;
             s = klog_begin (cstr ''nadir'') s;
             s = take_irqs dev (irqs 3) s;
             s = klog_str (cstr ''64-bit proof value: '') s;
             s = take_irqs dev (irqs 4) s;
             s = klog_hex64 PROOF_VALUE s;
             s = take_irqs dev (irqs 5) s;
             s = klog_end s;
             s = take_irqs dev (irqs 6) s;
             s = klog (cstr ''nadir'') (cstr ''halting in hlt loop (timer + keyboard live)'') s
         in returns (take_irqs dev (irqs 7) s)))"

text \<open>All interrupts of the boot.\<close>

definition boot_irqs :: "(nat \<Rightarrow> interrupt_frame list) \<Rightarrow> interrupt_frame list" where
  "boot_irqs irqs = concat (map irqs [0..<8])"

text \<open>Everything before the main loop; the result is the state and \<open>serial_present\<close>.\<close>

definition kmain_boot ::
  "device \<Rightarrow> link_layout \<Rightarrow> (nat \<Rightarrow> interrupt_frame list) \<Rightarrow> kernel \<Rightarrow> (bool \<times> kernel) outcome" where
  "kmain_boot dev lay irqs s =
     andthen (kmain_devices dev lay s) (\<lambda>(serial_present, s).
     andthen (kmain_heap (kmain_memory lay s)) (\<lambda>s.
     andthen (kmain_live dev serial_present irqs s) (\<lambda>s.
     returns (serial_present, s))))"

section \<open>The main loop\<close>

definition serial_echo :: "device \<Rightarrow> u8 \<Rightarrow> bool \<Rightarrow> kernel \<Rightarrow> kernel option" where
  "serial_echo dev c ok s =
     (if \<not> ok then Some s
      else if c = 0x08 then serial_puts dev (Some [0x08, 0x20, 0x08]) s
      else if c = 0x0A then serial_puts dev (Some [0x0D, 0x0A]) s
      else serial_puts dev (Some [c, 0]) s)"

text \<open>
  The loop \<open>while (keyboard_has_key() != 0)\<close>.  Interrupts keep arriving while it runs: the argument
  \<open>irqs\<close> lists, for each test of the condition, those taken since the one before (none once the list
  is used up).
\<close>

partial_function (option) drain_keys ::
  "device \<Rightarrow> bool \<Rightarrow> interrupt_frame list list \<Rightarrow> kernel \<Rightarrow> kernel option" where
  "drain_keys dev ok irqs s =
     (let s = take_irqs dev (if irqs = [] then [] else hd irqs) s
      in if keyboard_has_key s
         then let (c, s) = keyboard_dequeue s;
                  s = console_putchar c s
              in Option.bind (serial_echo dev c ok s) (\<lambda>s. drain_keys dev ok (tl irqs) s)
         else Some s)"

text \<open>
  The interrupts of one pass: those that end the \<open>hlt\<close>, those that arrive after the counter has been
  read, before the uptime line and before its notice, and those of the echo loop.
\<close>

record pass_irqs =
  at_hlt :: "interrupt_frame list"
  at_report :: "interrupt_frame list"
  at_notice :: "interrupt_frame list"
  at_tests :: "interrupt_frame list list"

text \<open>One pass: \<open>hlt\<close>, the uptime line, the echo loop.\<close>

definition kmain_pass ::
  "device \<Rightarrow> bool \<Rightarrow> pass_irqs \<Rightarrow> u64 \<times> kernel \<Rightarrow> (u64 \<times> kernel) option" where
  "kmain_pass dev serial_present irqs loop_state =
     (let (last_uptime, s) = loop_state;
          s = take_irqs dev (at_hlt irqs) s;
          now = pit_ticks s
      in Option.bind
           (if 100 \<le> now - last_uptime
            then let secs = now div 100;
                     tenths = (now div 10) mod 10;
                     s = take_irqs dev (at_report irqs) s;
                     s = klog_begin (cstr ''nadir'') s;
                     s = klog_str (cstr ''uptime '') s;
                     s = klog_dec secs s;
                     s = klog_str (cstr ''.'') s;
                     s = klog_dec tenths s;
                     s = klog_str (cstr ''s (ticks '') s;
                     s = klog_hex64 now s;
                     s = klog_str (cstr '')'') s;
                     s = klog_end s;
                     s = take_irqs dev (at_notice irqs) s
                 in Option.bind
                      (if serial_present
                       then serial_puts dev (Some (cstr (''uptime (see VGA for value)'' @ [CHR 0x0A]))) s
                       else Some s)
                      (\<lambda>s. Some (now, s))
            else Some (last_uptime, s))
           (\<lambda>(last_uptime, s). map_option (Pair last_uptime) (drain_keys dev serial_present (at_tests irqs) s)))"

text \<open>The \<open>for (;;)\<close> loop, for as many passes as \<open>sched\<close> has entries.\<close>

fun kmain_loop ::
  "device \<Rightarrow> bool \<Rightarrow> pass_irqs list \<Rightarrow> u64 \<times> kernel \<Rightarrow> (u64 \<times> kernel) option" where
  "kmain_loop dev serial_present [] ls = Some ls"
| "kmain_loop dev serial_present (irqs # sched) ls =
     Option.bind (kmain_pass dev serial_present irqs ls) (kmain_loop dev serial_present sched)"

definition kmain ::
  "device \<Rightarrow> link_layout \<Rightarrow> (nat \<Rightarrow> interrupt_frame list) \<Rightarrow> pass_irqs list
    \<Rightarrow> kernel \<Rightarrow> (u64 \<times> kernel) outcome" where
  "kmain dev lay irqs sched s =
     andthen (kmain_boot dev lay irqs s) (\<lambda>(serial_present, s).
     map_option Inr (kmain_loop dev serial_present sched (0, s)))"

end
