(* ===== verification/Kmain_Selftest.thy ===== *)
theory Kmain_Selftest
  imports Kmain
begin

text \<open>
  The heap self-test of \<open>kmain\<close>: on a fresh pool of at least four frames it passes and gives every
  frame back.
\<close>

section \<open>Loops that may fault\<close>

lemma for_rangeE_rule:
  assumes "P (unat i) s" "i \<le> n"
    and step: "\<And>k s. k < unat n \<Longrightarrow> unat (of_nat k :: u64) = k \<Longrightarrow> P k s \<Longrightarrow>
      \<exists>t. body (of_nat k) s = Inr t \<and> P (Suc k) t"
  shows "\<exists>t. for_rangeE i n body s = Inr t \<and> P (unat n) t"
  using assms(1,2)
proof (induction "unat n - unat i" arbitrary: i s)
  case 0
  then have "i = n" by (simp add: word_le_nat_alt word_unat_eq_iff)
  with 0 show ?case by (simp add: for_rangeE.simps)
next
  case (Suc d)
  then have lt: "i < n" by (simp add: word_less_nat_alt)
  have i1: "unat (i + 1) = Suc (unat i)" using lt by (rule unat_suc_less)
  obtain t where t: "body i s = Inr t" "P (Suc (unat i)) t"
    using step [of "unat i" s] lt Suc.prems(1) by (auto simp: word_less_nat_alt)
  have "\<exists>u. for_rangeE (i + 1) n body t = Inr u \<and> P (unat n) u"
    using Suc.hyps(2) lt i1 t(2) by (intro Suc.hyps(1)) (simp_all add: word_less_nat_alt word_le_nat_alt)
  then show ?case using lt t(1) by (subst for_rangeE.simps) simp
qed

section \<open>Bytes of a live run\<close>

text \<open>The address of byte \<open>j\<close> of the payload of a run.\<close>

lemma payload_byte:
  assumes "heap_inv h fl al" "(f, k) \<in> set al" "j + 16 < k * 4096"
  shows "unat (frame_addr f + 16 + of_nat j) = f * 4096 + 16 + j \<and> mapped (frame_addr f + 16 + of_nat j) 1"
proof -
  have r: "run_ok (f, k)" using assms(1,2) by (auto simp: heap_inv_def list_all_iff)
  then have f: "f < 262144" and fk: "(f + k) * 4096 \<le> 262144 * 4096" by (auto simp: run_ok_def)
  have b: "f * 4096 + 16 + j < 262144 * 4096" using assms(3) fk by (simp add: algebra_simps)
  have "unat (frame_addr f + 16 + of_nat j) = f * 4096 + 16 + j"
    using unat_block_ptr [OF f] b by (subst unat_add_of_nat) simp_all
  with b show ?thesis by (simp add: mapped_def)
qed

lemma store_payload:
  assumes "heap_inv h fl al" "(f, k) \<in> set al" "j + 16 < k * 4096"
  shows "store_byte (frame_addr f + 16 + of_nat j) v h = Inr (poke (frame_addr f + 16 + of_nat j) v h)
    \<and> heap_inv (poke (frame_addr f + 16 + of_nat j) v h) fl al"
proof -
  note p = payload_byte [OF assms]
  have "heap_inv (poke (frame_addr f + 16 + of_nat j) v h) fl al"
    using assms p by (intro poke_inv [OF assms(1,2)]) (simp_all add: algebra_simps)
  with p show ?thesis by (simp add: store_byte_def store8_def poke_def)
qed

lemma load_payload:
  assumes "heap_inv h fl al" "(f, k) \<in> set al" "j + 16 < k * 4096"
  shows "load_byte (frame_addr f + 16 + of_nat j) h = Inr (mem h (frame_addr f + 16 + of_nat j))"
  using payload_byte [OF assms] by (simp add: load_byte_def load8_def)

lemma payload_inj:
  assumes "heap_inv h fl al" "(f, k) \<in> set al" "j + 16 < k * 4096" "j' + 16 < k * 4096"
  shows "frame_addr f + 16 + of_nat j = frame_addr f + 16 + (of_nat j' :: u64) \<longleftrightarrow> j = j'"
  using payload_byte [OF assms(1-3)] payload_byte [OF assms(1,2,4)] by (metis add_left_cancel)

section \<open>The touch phase\<close>

lemma byte_of_index: "(ucast (of_nat n :: u64) :: u8) = of_nat n"
  by (simp add: word_unat_eq_iff unsigned_ucast_eq unat_of_nat take_bit_eq_mod mod_mod_cancel)

text \<open>The fill loop leaves byte \<open>j\<close> of the block equal to \<open>j\<close>.\<close>

lemma fill_block:
  assumes inv: "heap_inv h fl al" and al: "(f, k) \<in> set al" and k: "0 < k"
  defines "a \<equiv> frame_addr f + 16"
  shows "\<exists>h'. for_rangeE 0 100 (\<lambda>i. store_byte (a + i) (ucast i)) h = Inr h' \<and> heap_inv h' fl al
    \<and> (\<forall>j<100. mem h' (a + of_nat j) = of_nat j)"
proof -
  let ?P = "\<lambda>n h'. heap_inv h' fl al \<and> (\<forall>j<n. mem h' (a + of_nat j) = of_nat j)"
  have "\<exists>h'. for_rangeE 0 100 (\<lambda>i. store_byte (a + i) (ucast i)) h = Inr h' \<and> ?P (unat (100 :: u64)) h'"
  proof (rule for_rangeE_rule [where P = ?P])
    fix n h'
    assume n: "n < unat (100 :: u64)" "unat (of_nat n :: u64) = n" and p: "?P n h'"
    have b: "j + 16 < k * 4096" if "j < 100" for j using that k by (cases k) auto
    have n100: "n < 100" using n(1) by simp
    note s = store_payload [OF conjunct1 [OF p] al b [OF n100], of "of_nat n", folded a_def]
    have "(ucast (of_nat n :: u64) :: u8) = of_nat n" by (rule byte_of_index)
    moreover have "mem (poke (a + of_nat n) (of_nat n) h') (a + of_nat j) = of_nat j" if "j < Suc n" for j
      using that p payload_inj [OF inv al b b, of j n, folded a_def] n100
      by (cases "j = n") (auto simp: poke_def)
    ultimately show "\<exists>t. store_byte (a + of_nat n) (ucast (of_nat n :: u64)) h' = Inr t \<and> ?P (Suc n) t"
      using s by simp
  qed (use inv in simp_all)
  then show ?thesis by simp
qed

lemma check_block:
  assumes "heap_inv h fl al" "(f, k) \<in> set al" "0 < k"
  defines "a \<equiv> frame_addr f + 16"
  assumes "\<forall>j<100. mem h (a + of_nat j) = of_nat j"
  shows "for_rangeE 0 100 (\<lambda>i ok. bindE (load_byte (a + i) h) (\<lambda>v. Inr (if v \<noteq> ucast i then False else ok))) True
    = Inr True"
proof -
  let ?body = "\<lambda>i ok. bindE (load_byte (a + i) h) (\<lambda>v. Inr (if v \<noteq> ucast i then False else ok))"
  have "\<exists>ok. for_rangeE 0 100 ?body True = Inr ok \<and> ok"
  proof (rule for_rangeE_rule [where P = "\<lambda>_ ok. ok"])
    fix n ok
    assume n: "n < unat (100 :: u64)" and ok
    have "n + 16 < k * 4096" using n assms(3) by (cases k) auto
    from load_payload [OF assms(1,2) this] n assms(5) \<open>ok\<close>
    have "?body (of_nat n) ok = Inr True" by (simp add: a_def byte_of_index)
    then show "\<exists>t. ?body (of_nat n) ok = Inr t \<and> t" by blast
  qed simp_all
  then show ?thesis by auto
qed

lemma self_test_touch_ok:
  assumes inv: "heap_inv h fl al" and a: "(f, 1) \<in> set al" and b: "(g, 2) \<in> set al"
  shows "\<exists>h'. self_test_touch (frame_addr f + 16) (frame_addr g + 16) h = Inr (True, h') \<and> heap_inv h' fl al"
proof -
  let ?b = "frame_addr g + 16"
  obtain h1 where h1: "for_rangeE 0 100 (\<lambda>i. store_byte (frame_addr f + 16 + i) (ucast i)) h = Inr h1"
    "heap_inv h1 fl al" "\<forall>j<100. mem h1 (frame_addr f + 16 + of_nat j) = of_nat j"
    using fill_block [OF inv a] by auto
  define h2 where "h2 = poke ?b 0xAA h1"
  define h3 where "h3 = poke (?b + 4999) 0x55 h2"
  have s2: "store_byte ?b 0xAA h1 = Inr h2" "heap_inv h2 fl al"
    using store_payload [OF h1(2) b, of 0 "0xAA"] by (simp_all add: h2_def)
  have s3: "store_byte (?b + 4999) 0x55 h2 = Inr h3" "heap_inv h3 fl al"
    using store_payload [OF s2(2) b, of 4999 "0x55"] by (simp_all add: h3_def)
  have ne: "?b \<noteq> ?b + 4999" using payload_inj [OF inv b, of 0 4999] by simp
  have "load_byte ?b h3 = Inr 0xAA" "load_byte (?b + 4999) h3 = Inr 0x55"
    using load_payload [OF s3(2) b, of 0] load_payload [OF s3(2) b, of 4999] ne
    by (simp_all add: h3_def h2_def poke_def)
  then show ?thesis
    using h1(1) check_block [OF h1(2) a _ h1(3)] s2(1) s3 by (simp add: self_test_touch_def)
qed

section \<open>The whole test\<close>

text \<open>A request that may fail: the run it got, if any, and the pointer it returned.\<close>

definition ptr_of :: "run option \<Rightarrow> u64" where
  "ptr_of r = (case r of None \<Rightarrow> 0 | Some (f, k) \<Rightarrow> frame_addr f + 16)"

definition runs_of :: "run option \<Rightarrow> run list" where
  "runs_of r = (case r of None \<Rightarrow> [] | Some x \<Rightarrow> [x])"

lemma runs_of_simps [simp]: "runs_of None = []" "runs_of (Some x) = [x]" "ptr_of None = 0"
  "ptr_of (Some (f, k)) = frame_addr f + 16"
  by (simp_all add: runs_of_def ptr_of_def)

lemma ptr_of_null:
  assumes "heap_inv h fl al" "set (runs_of r) \<subseteq> set al"
  shows "ptr_of r = 0 \<longleftrightarrow> r = None"
proof (cases r)
  case (Some x)
  then have "run_ok x" using assms by (auto simp: heap_inv_def list_all_iff)
  then have "fst x < 262144" by (auto simp: run_ok_def)
  with Some block_ptr_nonzero [of "fst x"] show ?thesis by (cases x) simp
qed simp

lemma kmalloc_opt:
  assumes "heap_inv h fl al" "size_ok sz"
  obtains r fl' h' where "kmalloc sz h = Some (Inr (ptr_of r, h'))" "heap_inv h' fl' (runs_of r @ al)"
    "r = None \<or> (\<exists>f. r = Some (f, unat (frames_for sz)))"
    "first_fit (unat (frames_for sz)) fl = map_option (\<lambda>x. (fst x, fl')) r"
    "mset (all_frames (fl' @ runs_of r @ al)) = mset (all_frames (fl @ al))"
proof (cases "first_fit (unat (frames_for sz)) fl")
  case None
  with kmalloc_first_fit [OF assms] that [of None h fl] assms(1) show ?thesis by simp
next
  case (Some a)
  obtain f fl' where a: "a = (f, fl')" by fastforce
  from kmalloc_first_fit [OF assms] Some a obtain h' where
    "kmalloc sz h = Some (Inr (frame_addr f + 16, h'))" "heap_inv h' fl' ((f, unat (frames_for sz)) # al)"
    "mset (all_frames (fl' @ (f, unat (frames_for sz)) # al)) = mset (all_frames (fl @ al))" by auto
  with that [of "Some (f, unat (frames_for sz))" h' fl'] Some a show ?thesis by simp
qed

lemma kfree_opt:
  assumes "heap_inv h fl al" "mset al = mset (runs_of r) + M"
  obtains h' al' where "kfree (ptr_of r) h = Inr h'" "heap_inv h' (runs_of r @ fl) al'" "mset al' = M"
proof (cases r)
  case None
  with that [of h al] assms show ?thesis by (simp add: kfree_def)
next
  case (Some x)
  obtain f k where x: "x = (f, k)" by fastforce
  have "x \<in> set al" using assms(2) Some by (metis set_mset_mset union_iff runs_of_simps(2) list.set_intros(1))
  then have ok: "run_ok x" "header_ok (mem h) x" and inv: "heap_inv (free_run x h) (x # fl) (remove1 x al)"
    using assms(1) free_run_inv [OF assms(1)] by (auto simp: heap_inv_def list_all_iff)
  have "mset (remove1 x al) = M" using assms(2) Some by simp
  with that [of "free_run x h" "remove1 x al"] kfree_eq [OF ok] inv Some show ?thesis by (simp add: x)
qed

lemma self_test_frames: "unat (frames_for 100) = 1" "unat (frames_for 5000) = 2" "unat (frames_for 1) = 1"
  "size_ok 100" "size_ok 5000" "size_ok 1"
  by (simp_all add: unat_frames_for size_ok_def)

text \<open>The touch phase as the test runs it, on blocks any of which may be missing.\<close>

lemma self_test_touch_opt:
  assumes inv: "heap_inv h fl (runs_of c @ runs_of b @ runs_of a)"
    and "a = None \<or> (\<exists>f. a = Some (f, 1))" "b = None \<or> (\<exists>f. b = Some (f, 2))"
  obtains h' where "(if ptr_of a = 0 \<or> ptr_of b = 0 \<or> ptr_of c = 0 then returns (False, h)
      else Some (self_test_touch (ptr_of a) (ptr_of b) h)) = returns (a \<noteq> None \<and> b \<noteq> None \<and> c \<noteq> None, h')"
    "heap_inv h' fl (runs_of c @ runs_of b @ runs_of a)"
proof (cases "a = None \<or> b = None \<or> c = None")
  case True
  with that [of h] inv show ?thesis by auto
next
  case False
  then obtain f g where ab: "a = Some (f, 1)" "b = Some (g, 2)" using assms by auto
  have nz: "ptr_of a \<noteq> 0" "ptr_of b \<noteq> 0" "ptr_of c \<noteq> 0"
    using False by (subst ptr_of_null [OF inv]; auto)+
  obtain h' where "self_test_touch (ptr_of a) (ptr_of b) h = Inr (True, h')"
    "heap_inv h' fl (runs_of c @ runs_of b @ runs_of a)"
    using self_test_touch_ok [OF inv, of f g] ab by auto
  with that [of h'] nz False show ?thesis by (simp add: returns_def)
qed

text \<open>
  On every well-formed heap with nothing allocated the test ends without fault and gives back what
  it took; it passes exactly if its three requests are met.
\<close>

lemma heap_self_test_outcome:
  assumes inv: "heap_inv h fl []"
  shows "\<exists>a b c h' f1 f2 f3. heap_self_test h = returns (a \<noteq> None \<and> b \<noteq> None \<and> c \<noteq> None, h')
    \<and> heap_inv h' (runs_of c @ runs_of b @ runs_of a @ f3) []
    \<and> first_fit 1 fl = map_option (\<lambda>x. (fst x, f1)) a \<and> first_fit 2 f1 = map_option (\<lambda>x. (fst x, f2)) b
    \<and> first_fit 1 f2 = map_option (\<lambda>x. (fst x, f3)) c
    \<and> mset (all_frames (runs_of c @ runs_of b @ runs_of a @ f3)) = mset (all_frames fl)
    \<and> a \<in> {None} \<union> Some ` {x. snd x = 1} \<and> b \<in> {None} \<union> Some ` {x. snd x = 2} \<and> c \<in> {None} \<union> Some ` {x. snd x = 1}"
proof -
  obtain a f1 h1 where h1: "kmalloc 100 h = Some (Inr (ptr_of a, h1))" "heap_inv h1 f1 (runs_of a)"
    "a = None \<or> (\<exists>f. a = Some (f, 1))" "first_fit 1 fl = map_option (\<lambda>x. (fst x, f1)) a"
    "mset (all_frames (f1 @ runs_of a)) = mset (all_frames fl)"
    using kmalloc_opt [OF inv self_test_frames(4)] unfolding self_test_frames append_Nil2 by metis
  obtain b f2 h2 where h2: "kmalloc 5000 h1 = Some (Inr (ptr_of b, h2))" "heap_inv h2 f2 (runs_of b @ runs_of a)"
    "b = None \<or> (\<exists>f. b = Some (f, 2))" "first_fit 2 f1 = map_option (\<lambda>x. (fst x, f2)) b"
    "mset (all_frames (f2 @ runs_of b @ runs_of a)) = mset (all_frames (f1 @ runs_of a))"
    using kmalloc_opt [OF h1(2) self_test_frames(5)] unfolding self_test_frames by metis
  obtain c f3 h3 where h3: "kmalloc 1 h2 = Some (Inr (ptr_of c, h3))" "heap_inv h3 f3 (runs_of c @ runs_of b @ runs_of a)"
    "c = None \<or> (\<exists>f. c = Some (f, 1))" "first_fit 1 f2 = map_option (\<lambda>x. (fst x, f3)) c"
    "mset (all_frames (f3 @ runs_of c @ runs_of b @ runs_of a)) = mset (all_frames (f2 @ runs_of b @ runs_of a))"
    using kmalloc_opt [OF h2(2) self_test_frames(6)] unfolding self_test_frames by metis
  obtain h4 where h4: "(if ptr_of a = 0 \<or> ptr_of b = 0 \<or> ptr_of c = 0 then returns (False, h3)
      else Some (self_test_touch (ptr_of a) (ptr_of b) h3)) = returns (a \<noteq> None \<and> b \<noteq> None \<and> c \<noteq> None, h4)"
    "heap_inv h4 f3 (runs_of c @ runs_of b @ runs_of a)"
    using self_test_touch_opt [OF h3(2) h1(3) h2(3)] by blast
  obtain h5 al5 where h5: "kfree (ptr_of a) h4 = Inr h5" "heap_inv h5 (runs_of a @ f3) al5"
    "mset al5 = mset (runs_of b) + mset (runs_of c)"
    by (rule kfree_opt [OF h4(2), of a "mset (runs_of b) + mset (runs_of c)"]) simp_all
  obtain h6 al6 where h6: "kfree (ptr_of b) h5 = Inr h6" "heap_inv h6 (runs_of b @ runs_of a @ f3) al6"
    "mset al6 = mset (runs_of c)" by (rule kfree_opt [OF h5(2,3)])
  obtain h7 where h7: "kfree (ptr_of c) h6 = Inr h7" "heap_inv h7 (runs_of c @ runs_of b @ runs_of a @ f3) []"
    by (rule kfree_opt [OF h6(2), of c "{#}"]) (use h6(3) in simp_all)
  have "kfree 0 h7 = Inr h7" by (simp add: kfree_def)
  then have "heap_self_test h = returns (a \<noteq> None \<and> b \<noteq> None \<and> c \<noteq> None, h7)"
    using h1(1) h2(1) h3(1) h4(1) h5(1) h6(1) h7(1) by (simp add: heap_self_test_def returns_def)
  moreover have "mset (all_frames (runs_of c @ runs_of b @ runs_of a @ f3)) = mset (all_frames fl)"
    using h1(5) h2(5) h3(5) by (simp add: ac_simps)
  ultimately show ?thesis using h7(2) h1(3,4) h2(3,4) h3(3,4) by fastforce
qed

text \<open>On the pool of \<open>kmalloc_init\<close>: the test passes exactly if there are four frames.\<close>

lemma heap_self_test_pool:
  assumes "heap_inv h [(f, n)] []"
  shows "\<exists>h' fl. heap_self_test h = returns (4 \<le> n, h') \<and> heap_inv h' fl []
    \<and> mset (all_frames fl) = mset (all_frames [(f, n)])"
proof -
  obtain a b c h' f1 f2 f3 where r: "heap_self_test h = returns (a \<noteq> None \<and> b \<noteq> None \<and> c \<noteq> None, h')"
    "heap_inv h' (runs_of c @ runs_of b @ runs_of a @ f3) []"
    and ff: "first_fit 1 [(f, n)] = map_option (\<lambda>x. (fst x, f1)) a" "first_fit 2 f1 = map_option (\<lambda>x. (fst x, f2)) b"
      "first_fit 1 f2 = map_option (\<lambda>x. (fst x, f3)) c"
    and m: "mset (all_frames (runs_of c @ runs_of b @ runs_of a @ f3)) = mset (all_frames [(f, n)])"
    and abc: "a \<in> {None} \<union> Some ` {x. snd x = 1}" "b \<in> {None} \<union> Some ` {x. snd x = 2}" "c \<in> {None} \<union> Some ` {x. snd x = 1}"
    using heap_self_test_outcome [OF assms] by blast
  have "4 \<le> n" if "a \<noteq> None" "b \<noteq> None" "c \<noteq> None"
  proof -
    have "length (all_frames (runs_of c @ runs_of b @ runs_of a @ f3)) = n"
      using m [THEN mset_eq_length] by (simp add: run_list_def)
    with that abc show ?thesis by (auto simp: run_list_def)
  qed
  moreover have "a \<noteq> None \<and> b \<noteq> None \<and> c \<noteq> None" if "4 \<le> n"
  proof -
    have f: "f + 1 + 2 = f + 3" "n - 1 - 2 = n - 3" using that by simp_all
    have ff1: "first_fit 1 [(f, n)] = Some (f, [(f + 1, n - 1)])"
      and ff2: "first_fit 2 [(f + 1, n - 1)] = Some (f + 1, [(f + 3, n - 3)])"
      and ff3: "first_fit 1 [(f + 3, n - 3)] \<noteq> None"
      using that unfolding first_fit.simps f by auto
    from ff(1) have a: "a \<noteq> None" "f1 = [(f + 1, n - 1)]" unfolding ff1 by (cases a; simp)+
    from ff(2) have b: "b \<noteq> None" "f2 = [(f + 3, n - 3)]" unfolding a(2) ff2 by (cases b; simp)+
    from ff(3) ff3 have "c \<noteq> None" unfolding b(2) by (cases c) simp_all
    with a(1) b(1) show ?thesis by blast
  qed
  ultimately have "(a \<noteq> None \<and> b \<noteq> None \<and> c \<noteq> None) = (4 \<le> n)" by blast
  with r(1) have "heap_self_test h = returns (4 \<le> n, h')" by simp
  with r(2) m show ?thesis by blast
qed

end
