(* ===== verification/Kmain_Boot.thy ===== *)
theory Kmain_Boot
  imports Kmain_Selftest
begin

unbundle bit_operations_syntax

text \<open>
  What the boot sequence achieves.  Printing is frequent and uninteresting here, so the proofs look
  at the kernel through a \<open>view\<close> that forgets the screen and replays the port history on the
  interrupt controllers, the timer and the serial port: printing leaves the view alone, and every
  initialization step is one update of it.
\<close>

section \<open>Port traffic\<close>

fun ev_port :: "io_event \<Rightarrow> u16" where
  "ev_port (In port v) = port"
| "ev_port (Out port v) = port"

text \<open>The ports of the CRT controller.\<close>

definition crt_ports :: "u16 set" where
  "crt_ports = {0x3D4, 0x3D5}"

text \<open>\<open>t\<close> differs from \<open>s\<close> only in the console's fields and in writes to the CRT controller.\<close>

definition quiet :: "'a console_scheme \<Rightarrow> 'a console_scheme \<Rightarrow> bool" where
  "quiet s t \<longleftrightarrow> console.more t = console.more s \<and>
     (\<exists>evs. io_log t = io_log s @ evs \<and> (\<forall>e\<in>set evs. ev_port e \<in> crt_ports))"

lemma quiet_refl [simp]: "quiet s s"
  by (simp add: quiet_def)

lemma quiet_trans [trans]: "quiet s t \<Longrightarrow> quiet t u \<Longrightarrow> quiet s u"
  unfolding quiet_def by (metis append.assoc set_append UnE)

lemma quietI: "console.more t = console.more s \<Longrightarrow> io_log t = io_log s @ evs \<Longrightarrow>
  list_all (\<lambda>e. ev_port e \<in> crt_ports) evs \<Longrightarrow> quiet s t"
  by (auto simp: quiet_def list_all_iff)

lemma quiet_fields: "io_log t = io_log s \<Longrightarrow> console.more t = console.more s \<Longrightarrow> quiet s t"
  by (simp add: quiet_def)

lemma quiet_hw_cursor: "quiet s (update_hw_cursor s)"
  by (rule quietI [where evs = "drop (length (io_log s)) (io_log (update_hw_cursor s))",
        OF update_hw_cursor_fields(4)])
    (simp_all add: update_hw_cursor_def Let_def VGA_CRT_INDEX_def VGA_CRT_DATA_def crt_ports_def)

lemma quiet_finish: "quiet s (putchar_finish s)"
proof -
  have "quiet s (if VGA_HEIGHT \<le> unat (cursor_row s) then (scroll s)\<lparr>cursor_row := of_nat (VGA_HEIGHT - 1)\<rparr> else s)"
    by (rule quiet_fields) simp_all
  also note quiet_hw_cursor
  finally show ?thesis by (simp add: putchar_finish_def)
qed

lemma quiet_putchar: "quiet s (console_putchar c s)"
proof -
  have f: "quiet s (putchar_finish t)" if "io_log t = io_log s" "console.more t = console.more s" for t
    using quiet_trans [OF quiet_fields [OF that] quiet_finish] .
  show ?thesis
    by (auto simp: console_putchar_def Let_def putchar_erase_def intro!: f)
qed

lemma quiet_puts: "quiet s (console_puts cs s)"
  by (induction cs s rule: console_puts.induct) (auto intro: quiet_trans quiet_putchar)

lemma quiet_clear: "quiet s (console_clear s)"
  unfolding console_clear_def by (rule quiet_trans [OF quiet_fields quiet_hw_cursor]) simp_all

text \<open>All of the logger is printing.\<close>

lemma quiet_klog:
  "quiet s (klog_dec v s)" "quiet s (klog_str cs s)" "quiet s (klog_hex64 v s)" "quiet s (klog_end s)"
  by (simp_all add: klog_dec_puts klog_str_def klog_hex64_def console_puthex64_puts klog_end_def
      quiet_puts quiet_putchar)

lemma quiet_klog_line:
  assumes "0 \<notin> set sub"
  shows "quiet s (klog_begin sub s)" "quiet s (klog sub msg s)"
proof -
  show b: "quiet s (klog_begin sub s)" for s :: "'b pit_scheme"
    using assms by (simp add: klog_begin_def klog_prefix_puts quiet_puts)
  show "quiet s (klog sub msg s)"
    unfolding klog_def by (rule quiet_trans [OF b quiet_trans [OF quiet_klog(2) quiet_klog(4)]])
qed

section \<open>The view\<close>

text \<open>The chips, in the state the firmware leaves them.\<close>

record chips =
  c_master :: pic_chip
  c_slave :: pic_chip
  c_pit :: pit_chip
  c_uart :: uart

text \<open>The kernel's variables other than the console's, and the chips after the port history.\<close>

record kview = chips +
  v_core :: kernel

definition core :: "kernel \<Rightarrow> kernel" where
  "core s = s\<lparr>io_log := [], cursor_row := 0, cursor_col := 0, vga := (\<lambda>_. 0)\<rparr>"

definition view :: "chips \<Rightarrow> kernel \<Rightarrow> kview" where
  "view c s = \<lparr>c_master = master (c_master c) (io_log s), c_slave = slave (c_slave c) (io_log s),
     c_pit = pit_channel0 (c_pit c) (io_log s), c_uart = uart_of (c_uart c) (io_log s), v_core = core s\<rparr>"

lemma view_simps [simp]:
  "c_master (view c s) = master (c_master c) (io_log s)" "c_slave (view c s) = slave (c_slave c) (io_log s)"
  "c_pit (view c s) = pit_channel0 (c_pit c) (io_log s)" "c_uart (view c s) = uart_of (c_uart c) (io_log s)"
  "v_core (view c s) = core s"
  by (simp_all add: view_def)

lemma pit_channel0_append [simp]: "pit_channel0 c (log @ evs) = pit_channel0 (pit_channel0 c log) evs"
  by (simp add: pit_channel0_def)

lemma fold_idle: "\<forall>e\<in>set evs. step e = id \<Longrightarrow> fold step evs c = c"
  by (induction evs) simp_all

lemma crt_idle:
  assumes "ev_port e \<in> crt_ports"
  shows "pic_chip_step PIC1_CMD PIC1_DATA e = id" "pic_chip_step PIC2_CMD PIC2_DATA e = id"
    "pit_chip_step e = id" "uart_step e = id"
  using assms by (cases e; auto simp: crt_ports_def pic_consts pit_consts com_consts)+

lemma core_eqI: "console.more t = console.more s \<Longrightarrow> core t = core s"
  by (cases s, cases t) (simp add: core_def)

lemma view_quiet:
  assumes "quiet s t"
  shows "view c t = view c s"
proof -
  obtain evs where e: "io_log t = io_log s @ evs" "\<And>e. e \<in> set evs \<Longrightarrow> ev_port e \<in> crt_ports"
    using assms by (auto simp: quiet_def)
  have "master m evs = m" "slave m evs = m" "pit_channel0 p evs = p" "uart_of u evs = u" for m p u
    unfolding master_def slave_def pit_channel0_def uart_of_def
    by (rule fold_idle, blast intro: crt_idle e(2))+
  moreover have "core t = core s" using assms by (intro core_eqI) (simp add: quiet_def)
  ultimately show ?thesis by (simp add: view_def e(1))
qed

section \<open>Initialization steps as updates of the view\<close>

lemma view_upd:
  "view c (idt_update g s) = (view c s)\<lparr>v_core := idt_update g (v_core (view c s))\<rparr>"
  "view c (idtr_update g' s) = (view c s)\<lparr>v_core := idtr_update g' (v_core (view c s))\<rparr>"
  "view c (cpu_idtr_update g' s) = (view c s)\<lparr>v_core := cpu_idtr_update g' (v_core (view c s))\<rparr>"
  "view c (irq_handlers_update h s) = (view c s)\<lparr>v_core := irq_handlers_update h (v_core (view c s))\<rparr>"
  "view c (s_initialized_update b s) = (view c s)\<lparr>v_core := s_initialized_update b (v_core (view c s))\<rparr>"
  "view c (s\<lparr>k_head := v, k_tail := w, k_shift := x, k_caps := y, k_e0 := z\<rparr>)
    = (view c s)\<lparr>v_core := (v_core (view c s))\<lparr>k_head := v, k_tail := w, k_shift := x, k_caps := y, k_e0 := z\<rparr>\<rparr>"
  "view c (k_pmm_update p s) = (view c s)\<lparr>v_core := k_pmm_update p (v_core (view c s))\<rparr>"
  "view c (k_heap_update q s) = (view c s)\<lparr>v_core := k_heap_update q (v_core (view c s))\<rparr>"
  "view c (if_flag_update f s) = (view c s)\<lparr>v_core := if_flag_update f (v_core (view c s))\<rparr>"
  by (simp_all add: view_def core_def)

lemma core_fields [simp]:
  "idt (core s) = idt s" "idtr (core s) = idtr s" "cpu_idtr (core s) = cpu_idtr s"
  "irq_handlers (core s) = irq_handlers s" "s_ticks (core s) = s_ticks s"
  "s_initialized (core s) = s_initialized s" "k_buf (core s) = k_buf s" "k_head (core s) = k_head s"
  "k_tail (core s) = k_tail s" "k_shift (core s) = k_shift s" "k_caps (core s) = k_caps s"
  "k_e0 (core s) = k_e0 s" "memmap_count (core s) = memmap_count s"
  "memmap_entries (core s) = memmap_entries s" "k_pmm (core s) = k_pmm s" "k_heap (core s) = k_heap s"
  "if_flag (core s) = if_flag s"
  by (simp_all add: core_def)

text \<open>Equal views agree on every variable.\<close>

lemma view_eq_core: "view c s = v \<Longrightarrow> core s = v_core v"
  by auto

text \<open>Any port traffic changes the chips only.\<close>

lemma core_ports: "ports.more t = ports.more s \<Longrightarrow> core t = core s"
  by (cases s, cases t) (simp add: core_def)

lemma view_ports:
  assumes "ports.more t = ports.more s"
  shows "view c t = (view c s)\<lparr>c_master := master (c_master c) (io_log t), c_slave := slave (c_slave c) (io_log t),
    c_pit := pit_channel0 (c_pit c) (io_log t), c_uart := uart_of (c_uart c) (io_log t)\<rparr>"
  using core_ports [OF assms] by (simp add: view_def)

lemma view_idt_init: "view c (idt_init isr addr s) = (view c s)\<lparr>v_core := (v_core (view c s))
   \<lparr>idt := (\<lambda>v. if unat v < 32 then int_gate (isr (unat v)) else idt (v_core (view c s)) v),
    idtr := \<lparr>idtr_limit = 0xFFF, idtr_base = addr\<rparr>, cpu_idtr := \<lparr>idtr_limit = 0xFFF, idtr_base = addr\<rparr>\<rparr>\<rparr>"
  by (simp add: idt_init_eq view_def core_def cong: if_cong)

lemma view_install_irqs: "view c (idt_install_irqs irq s) = (view c s)\<lparr>v_core := (v_core (view c s))
   \<lparr>idt := (\<lambda>v. if 32 \<le> unat v \<and> unat v < 48 then int_gate (irq (unat v - 32)) else idt (v_core (view c s)) v)\<rparr>\<rparr>"
  by (simp add: idt_install_irqs_eq view_upd cong: if_cong)

text \<open>A chip as \<open>pic_remap\<close> leaves it.\<close>

definition remapped :: "u8 \<Rightarrow> u8 \<Rightarrow> pic_chip \<Rightarrow> pic_chip" where
  "remapped base casc p = p\<lparr>phase := Operating, icw1 := 0x11, vector_base := base, cascade := casc, imr := 0xFF\<rparr>"

lemma view_pic_remap: "view c (pic_remap s) = (view c s)
  \<lparr>c_master := remapped 32 4 (c_master (view c s)), c_slave := remapped 40 2 (c_slave (view c s))\<rparr>"
proof -
  have m: "ports.more (pic_remap s) = ports.more s" by (simp add: pic_remap_def Let_def)
  have "master m (io_log (pic_remap s)) = remapped 32 4 (master m (io_log s))"
    "slave m (io_log (pic_remap s)) = remapped 40 2 (slave m (io_log s))" for m
    by (simp_all add: remapped_def Let_def pic_remap_def pic_consts master_def slave_def bit_numeral_simps)
  moreover have "pit_channel0 p (io_log (pic_remap s)) = pit_channel0 p (io_log s)"
    "uart_of u (io_log (pic_remap s)) = uart_of u (io_log s)" for p u
    by (simp_all add: Let_def pic_remap_def pic_consts pit_channel0_def uart_of_def pit_consts com_consts)
  ultimately show ?thesis by (subst view_ports [OF m]) (simp add: view_def)
qed

definition com1_setup :: "uart \<Rightarrow> uart" where
  "com1_setup u = uart_of u [Out COM_IER 0x00, Out COM_LCTL 0x80, Out COM_DATA 0x03, Out COM_IER 0x00,
     Out COM_LCTL 0x03, Out COM_FIFO 0xC7, Out COM_MCTL 0x0B]"

lemma com1_setup_fields [simp]: "u_lcr (com1_setup u) = 0x03" "u_sent (com1_setup u) = u_sent u"
  by (simp_all add: com1_setup_def uart_of_def com_consts bit_numeral_simps)

lemma view_serial_init: "view c (serial_init s) = (view c s)\<lparr>c_uart := com1_setup (c_uart (view c s))\<rparr>"
proof -
  have m: "ports.more (serial_init s) = ports.more s" by (simp add: serial_init_def Let_def)
  have l: "io_log (serial_init s) = io_log s @ [Out COM_IER 0x00, Out COM_LCTL 0x80, Out COM_DATA 0x03,
      Out COM_IER 0x00, Out COM_LCTL 0x03, Out COM_FIFO 0xC7, Out COM_MCTL 0x0B]"
    by (simp add: serial_init_def Let_def)
  have "master m (io_log (serial_init s)) = master m (io_log s)" "slave m (io_log (serial_init s)) = slave m (io_log s)"
    "pit_channel0 p (io_log (serial_init s)) = pit_channel0 p (io_log s)" for m p
    by (simp_all add: l com_consts master_def slave_def pit_channel0_def pic_consts pit_consts)
  then show ?thesis by (subst view_ports [OF m]) (simp add: view_def com1_setup_def l)
qed

lemma view_inb: "view c (snd (inb dev port s)) = view c s"
  by (subst view_ports [of _ s]) (simp_all add: view_def master_def slave_def pit_channel0_def uart_of_def)

lemma view_serial_ok: "view c (snd (serial_ok dev s)) = view c s"
  by (simp add: serial_ok_def split_beta view_inb)

lemma view_pit_init:
  assumes "s_initialized (v_core (view c s)) = 0"
  shows "view c (pit_init s) = (view c s)
   \<lparr>c_pit := (c_pit (view c s))\<lparr>pit_access := 3, pit_mode := 3, pit_low := None, pit_count := 11931\<rparr>,
    v_core := (v_core (view c s))\<lparr>irq_handlers := (irq_handlers (v_core (view c s)))(0 := Some Pit_on_tick), s_initialized := 1\<rparr>\<rparr>"
  using assms by (simp add: view_def core_def pit_init_def Let_def pit_consts irq_register_handler_def idt_consts
      pit_channel0_def outb_def master_def slave_def pic_consts uart_of_def com_consts)

section \<open>Serial lines\<close>

text \<open>Transmission reaches the two COM1 ports it uses and no other chip.\<close>

definition com_ports :: "u16 set" where
  "com_ports = {0x3F8, 0x3FD}"

definition com_traffic :: "'a ports_scheme \<Rightarrow> 'a ports_scheme \<Rightarrow> bool" where
  "com_traffic s t \<longleftrightarrow> (\<exists>evs. io_log t = io_log s @ evs \<and> (\<forall>e\<in>set evs. ev_port e \<in> com_ports))"

lemma com_trafficI: "io_log t = io_log s @ evs \<Longrightarrow> list_all (\<lambda>e. ev_port e \<in> com_ports) evs \<Longrightarrow> com_traffic s t"
  by (auto simp: com_traffic_def list_all_iff)

lemma com_traffic_trans: "com_traffic s t \<Longrightarrow> com_traffic t u \<Longrightarrow> com_traffic s u"
  unfolding com_traffic_def by (metis append.assoc set_append UnE)

lemma com_traffic_poll: "com_traffic s (snd (inb dev COM_LSR s))"
  by (rule com_trafficI [where evs = "[In COM_LSR (dev (io_log s) COM_LSR)]"]) (simp_all add: com_consts com_ports_def)

lemma com_traffic_wait:
  assumes "serial_wait dev s = Some t"
  shows "com_traffic s t"
proof (rule serial_wait.raw_induct [where P = "\<lambda>d s t. com_traffic s t", OF _ assms])
  fix wait :: "device \<Rightarrow> 'a ports_scheme \<Rightarrow> 'a ports_scheme option" and d s t
  assume "\<And>d s t. wait d s = Some t \<Longrightarrow> com_traffic s t"
    and "(case inb d COM_LSR s of (v, t) \<Rightarrow> if v AND LSR_TX_EMPTY = 0 then wait d t else Some t) = Some t"
  then show "com_traffic s t"
    using com_traffic_poll [of s d] by (auto simp: split_beta split: if_splits intro: com_traffic_trans)
qed

lemma com_traffic_puts_loop: "serial_puts_loop dev cs s = Some t \<Longrightarrow> com_traffic s t"
proof (induction cs arbitrary: s)
  case (Cons c cs)
  show ?case
  proof (cases "c = 0")
    case False
    then obtain u where u: "serial_wait dev s = Some u" "serial_puts_loop dev cs (outb COM_DATA c u) = Some t"
      using Cons.prems by (auto simp: serial_putchar_def bind_eq_Some_conv)
    have "com_traffic u (outb COM_DATA c u)"
      by (rule com_trafficI [where evs = "[Out COM_DATA c]"]) (simp_all add: com_consts com_ports_def)
    with com_traffic_wait [OF u(1)] Cons.IH [OF u(2)] show ?thesis by (blast intro: com_traffic_trans)
  qed (use Cons.prems in \<open>simp add: com_trafficI [where evs = "[]"]\<close>)
qed (simp add: com_trafficI [where evs = "[]"])

lemma com_idle:
  assumes "ev_port e \<in> com_ports"
  shows "pic_chip_step PIC1_CMD PIC1_DATA e = id" "pic_chip_step PIC2_CMD PIC2_DATA e = id"
    "pit_chip_step e = id"
  using assms by (cases e; auto simp: com_ports_def pic_consts pit_consts)+

lemma view_com_traffic:
  assumes "com_traffic s t" "ports.more t = ports.more s"
  shows "view c t = (view c s)\<lparr>c_uart := uart_of (c_uart c) (io_log t)\<rparr>"
proof -
  obtain evs where e: "io_log t = io_log s @ evs" "\<And>e. e \<in> set evs \<Longrightarrow> ev_port e \<in> com_ports"
    using assms(1) by (auto simp: com_traffic_def)
  have "master m evs = m" "slave m evs = m" "pit_channel0 p evs = p" for m p
    unfolding master_def slave_def pit_channel0_def by (rule fold_idle, blast intro: com_idle e(2))+
  then show ?thesis by (subst view_ports [OF assms(2)]) (simp add: view_def e(1))
qed

text \<open>A string sent to a port with its divisor latch closed.\<close>

definition sent :: "u8 list \<Rightarrow> kview \<Rightarrow> kview" where
  "sent cs v = v\<lparr>c_uart := (c_uart v)\<lparr>u_sent := u_sent (c_uart v) @ cs\<rparr>\<rparr>"

lemma serial_puts_view:
  assumes "uart_drains dev" "0 \<notin> set cs" "\<not> bit (u_lcr (c_uart (view c s))) 7"
  shows "\<exists>t. serial_puts dev (Some cs) s = Some t \<and> view c t = sent cs (view c s)"
proof -
  obtain t where t: "serial_puts_loop dev cs s = Some t" "ports.more t = ports.more s"
    "uart_of (c_uart c) (io_log t) = (uart_of (c_uart c) (io_log s))\<lparr>u_sent := u_sent (uart_of (c_uart c) (io_log s)) @ cs\<rparr>"
    using serial_puts_loop_sends [OF assms(1,2), of s] assms(3) by auto
  from view_com_traffic [OF com_traffic_puts_loop [OF t(1)] t(2), of c] t(1,3)
  show ?thesis by (simp add: serial_puts_def sent_def)
qed

lemma serial_line_view:
  assumes "uart_drains dev" "0 \<notin> set (cstr msg)" "\<not> bit (u_lcr (c_uart (view c s))) 7"
  shows "\<exists>t. serial_line dev present msg s = returns t
    \<and> view c t = sent (if present then cstr msg else []) (view c s)"
  using serial_puts_view [OF assms]
  by (cases present) (auto simp: serial_line_def returns_def sent_def view_def)

section \<open>Unmasking and interrupts\<close>

definition unmasked :: "u8 \<Rightarrow> pic_chip \<Rightarrow> pic_chip" where
  "unmasked irq p = p\<lparr>imr := imr p AND ucast (NOT (push_bit (unat irq) (1 :: u32)))\<rparr>"

lemma view_pic_unmask:
  assumes "pic_readback (c_master c) (c_slave c) dev" "unat irq < 8" "phase (c_master (view c s)) = Operating"
  shows "view c (pic_unmask dev irq s) = (view c s)\<lparr>c_master := unmasked irq (c_master (view c s))\<rparr>"
proof -
  have m: "ports.more (pic_unmask dev irq s) = ports.more s"
    by (simp add: pic_unmask_def Let_def split_beta)
  have rb: "dev (io_log s) PIC1_DATA = imr (master (c_master c) (io_log s))"
    using assms by (auto simp: pic_readback_def)
  have l: "io_log (pic_unmask dev irq s) = io_log s @ [In PIC1_DATA (dev (io_log s) PIC1_DATA),
      Out PIC1_DATA (imr (c_master (view c s)) AND ucast (NOT (push_bit (unat irq) (1 :: u32))))]"
    using assms(2) by (simp add: io_log_pic_unmask Let_def rb)
  show ?thesis
    by (subst view_ports [OF m])
      (use assms(3) in \<open>simp add: view_def l master_def slave_def pit_channel0_def uart_of_def pic_consts
         pit_consts com_consts unmasked_def\<close>)
qed

lemma view_keyboard_init:
  assumes "pic_readback (c_master c) (c_slave c) dev" "phase (c_master (view c s)) = Operating"
  shows "view c (keyboard_init dev s) = (view c s)\<lparr>c_master := unmasked 1 (c_master (view c s)),
    v_core := (v_core (view c s))\<lparr>k_head := 0, k_tail := 0, k_shift := 0, k_caps := 0, k_e0 := 0,
      irq_handlers := (irq_handlers (v_core (view c s)))(1 := Some Keyboard_on_irq)\<rparr>\<rparr>"
proof -
  define t where "t = s\<lparr>k_head := 0, k_tail := 0, k_shift := 0, k_caps := 0, k_e0 := 0,
    irq_handlers := (irq_handlers s)(1 := Some Keyboard_on_irq)\<rparr>"
  have v: "view c t = (view c s)\<lparr>v_core := (core s)\<lparr>k_head := 0, k_tail := 0, k_shift := 0, k_caps := 0, k_e0 := 0,
      irq_handlers := (irq_handlers s)(1 := Some Keyboard_on_irq)\<rparr>\<rparr>"
    by (simp add: t_def view_def core_def)
  have "keyboard_init dev s = pic_unmask dev 1 t"
    by (simp add: keyboard_init_def Let_def irq_register_handler_def idt_consts
        word_le_nat_alt t_def)
  with view_pic_unmask [OF assms(1), of 1 t] assms(2) show ?thesis by (simp add: v)
qed

section \<open>The stages of the boot\<close>

lemmas view_printing = quiet_clear [THEN view_quiet] quiet_puts [THEN view_quiet]
  quiet_klog [THEN view_quiet] quiet_klog_line [THEN view_quiet]

text \<open>The devices are programmed.\<close>

definition device_lines :: "u8 list" where
  "device_lines = cstr (''Hello World from Nadir kernel'' @ [CHR 0x0A]) @ cstr (''pit: 100Hz on IRQ0'' @ [CHR 0x0A])
     @ cstr (''keyboard: PS/2 ready on IRQ1'' @ [CHR 0x0A])"

definition boot_gates :: "link_layout \<Rightarrow> (u8 \<Rightarrow> idt_entry) \<Rightarrow> u8 \<Rightarrow> idt_entry" where
  "boot_gates lay old = (\<lambda>v. if 32 \<le> unat v \<and> unat v < 48 then int_gate (irq_stub_table lay (unat v - 32))
     else if unat v < 32 then int_gate (isr_stub_table lay (unat v)) else old v)"

text \<open>The effect of the device stage on the view; the argument \<open>sent\<close> is what went over the serial line.\<close>

definition devices_ready :: "link_layout \<Rightarrow> u8 list \<Rightarrow> kview \<Rightarrow> kview" where
  "devices_ready lay lines v = v
     \<lparr>c_slave := remapped 40 2 (c_slave v),
      c_pit := (c_pit v)\<lparr>pit_access := 3, pit_mode := 3, pit_low := None, pit_count := 11931\<rparr>,
      c_master := unmasked 1 (remapped 32 4 (c_master v)),
      v_core := (v_core v)
       \<lparr>idtr := \<lparr>idtr_limit = 0xFFF, idtr_base = idt_address lay\<rparr>,
        cpu_idtr := \<lparr>idtr_limit = 0xFFF, idtr_base = idt_address lay\<rparr>,
        idt := boot_gates lay (idt (v_core v)),
        s_initialized := 1, k_head := 0, k_tail := 0, k_shift := 0, k_caps := 0, k_e0 := 0,
        irq_handlers := (irq_handlers (v_core v))(0 := Some Pit_on_tick, 1 := Some Keyboard_on_irq)\<rparr>,
      c_uart := (com1_setup (c_uart v))\<lparr>u_sent := u_sent (c_uart v) @ lines\<rparr>\<rparr>"

text \<open>The device stage up to the first serial announcement.\<close>

definition tables_loaded :: "device \<Rightarrow> link_layout \<Rightarrow> kernel \<Rightarrow> bool \<times> kernel" where
  "tables_loaded dev lay s =
     (let s1 = serial_init (klog (cstr ''idt'') (cstr ''IRQ gates 32-47 installed'')
        (idt_install_irqs (irq_stub_table lay) (klog (cstr ''pic'') (cstr ''remapped IRQ 0-15 to vectors 32-47'')
        (pic_remap (klog (cstr ''idt'') (cstr ''exceptions 0-31 installed'')
        (idt_init (isr_stub_table lay) (idt_address lay)
        (klog (cstr ''nadir'') (cstr ''Hello World from Nadir kernel (64-bit long mode, Ring 0)'') (console_clear s))))))))
      in (fst (serial_ok dev s1), klog (cstr ''serial'') (cstr ''COM1 38400 8N1 ready'') (snd (serial_ok dev s1))))"

lemma kmain_devices_unfold: "kmain_devices dev lay s =
  (let (present, s) = tables_loaded dev lay s
   in andthen (serial_line dev present (''Hello World from Nadir kernel'' @ [CHR 0x0A]) s) (\<lambda>s.
      andthen (serial_line dev present (''pit: 100Hz on IRQ0'' @ [CHR 0x0A])
        (klog (cstr ''pit'') (cstr ''100Hz on IRQ0'') (pit_init s))) (\<lambda>s.
      andthen (serial_line dev present (''keyboard: PS/2 ready on IRQ1'' @ [CHR 0x0A])
        (klog (cstr ''keyboard'') (cstr ''PS/2 ready on IRQ1'') (keyboard_init dev s))) (\<lambda>s.
      returns (present, s)))))"
  by (simp add: kmain_devices_def tables_loaded_def Let_def split_beta)

lemma tables_loaded_view:
  "view c (snd (tables_loaded dev lay s)) = (view c s)
     \<lparr>c_master := remapped 32 4 (c_master (view c s)), c_slave := remapped 40 2 (c_slave (view c s)),
      v_core := (v_core (view c s))
         \<lparr>idtr := \<lparr>idtr_limit = 0xFFF, idtr_base = idt_address lay\<rparr>,
          cpu_idtr := \<lparr>idtr_limit = 0xFFF, idtr_base = idt_address lay\<rparr>, idt := boot_gates lay (idt (v_core (view c s)))\<rparr>,
      c_uart := com1_setup (c_uart (view c s))\<rparr>"
  "\<exists>log. fst (tables_loaded dev lay s) = (dev log COM_LSR \<noteq> 0xFF)"
  by (simp add: tables_loaded_def Let_def view_printing view_serial_ok view_serial_init view_install_irqs
      view_pic_remap view_idt_init boot_gates_def del: view_simps cong: if_cong)
    (auto simp: tables_loaded_def Let_def serial_ok_def inb_def)

lemma kmain_devices_view:
  assumes rb: "pic_readback (c_master c) (c_slave c) dev" and ut: "uart_drains dev"
    and s0: "s_initialized (v_core (view c s)) = 0"
  shows "\<exists>present t log. kmain_devices dev lay s = returns (present, t) \<and> present = (dev log COM_LSR \<noteq> 0xFF)
    \<and> view c t = devices_ready lay (if present then device_lines else []) (view c s)"
proof -
  define present s2 where "present = fst (tables_loaded dev lay s)" and "s2 = snd (tables_loaded dev lay s)"
  note v2 = tables_loaded_view(1) [of c dev lay s, folded s2_def]
  define gates where "gates = boot_gates lay (idt (v_core (view c s)))"
  define l1 where "l1 = (if present then cstr (''Hello World from Nadir kernel'' @ [CHR 0x0A]) else [])"
  define l2 where "l2 = (if present then cstr (''pit: 100Hz on IRQ0'' @ [CHR 0x0A]) else [])"
  define l3 where "l3 = (if present then cstr (''keyboard: PS/2 ready on IRQ1'' @ [CHR 0x0A]) else [])"
  obtain s3 where s3: "serial_line dev present (''Hello World from Nadir kernel'' @ [CHR 0x0A]) s2 = returns s3"
    "view c s3 = sent l1 (view c s2)"
    using serial_line_view [OF ut, of "''Hello World from Nadir kernel'' @ [CHR 0x0A]" c s2 present]
    by (auto simp: v2 l1_def bit_numeral_simps simp del: view_simps)
  define s4 where "s4 = klog (cstr ''pit'') (cstr ''100Hz on IRQ0'') (pit_init s3)"
  have v4: "view c s4 = (view c s)
     \<lparr>c_master := remapped 32 4 (c_master (view c s)), c_slave := remapped 40 2 (c_slave (view c s)),
      c_uart := (com1_setup (c_uart (view c s)))\<lparr>u_sent := u_sent (c_uart (view c s)) @ l1\<rparr>,
      c_pit := (c_pit (view c s))\<lparr>pit_access := 3, pit_mode := 3, pit_low := None, pit_count := 11931\<rparr>,
      v_core := (v_core (view c s))
         \<lparr>idtr := \<lparr>idtr_limit = 0xFFF, idtr_base = idt_address lay\<rparr>,
          cpu_idtr := \<lparr>idtr_limit = 0xFFF, idtr_base = idt_address lay\<rparr>, idt := gates,
          irq_handlers := (irq_handlers (v_core (view c s)))(0 := Some Pit_on_tick), s_initialized := 1\<rparr>\<rparr>"
    using s0 by (simp add: s4_def view_printing view_pit_init s3(2) v2 sent_def gates_def del: view_simps)
  obtain s5 where s5: "serial_line dev present (''pit: 100Hz on IRQ0'' @ [CHR 0x0A]) s4 = returns s5"
    "view c s5 = sent l2 (view c s4)"
    using serial_line_view [OF ut, of "''pit: 100Hz on IRQ0'' @ [CHR 0x0A]" c s4 present]
    by (auto simp: v4 l2_def bit_numeral_simps simp del: view_simps)
  define s6 where "s6 = klog (cstr ''keyboard'') (cstr ''PS/2 ready on IRQ1'') (keyboard_init dev s5)"
  have "phase (c_master (view c s5)) = Operating"
    by (simp add: s5(2) v4 sent_def remapped_def del: view_simps)
  note v6 = view_keyboard_init [OF rb this]
  have u6: "\<not> bit (u_lcr (c_uart (view c s6))) 7"
    by (simp add: s6_def view_printing v6 s5(2) v4 sent_def bit_numeral_simps del: view_simps)
  obtain s7 where s7: "serial_line dev present (''keyboard: PS/2 ready on IRQ1'' @ [CHR 0x0A]) s6 = returns s7"
    "view c s7 = sent l3 (view c s6)"
    using serial_line_view [OF ut _ u6, of "''keyboard: PS/2 ready on IRQ1'' @ [CHR 0x0A]" present]
    by (auto simp: l3_def)
  have l: "l1 @ l2 @ l3 = (if present then device_lines else [])"
    by (simp add: l1_def l2_def l3_def device_lines_def)
  have "view c s7 = devices_ready lay (l1 @ l2 @ l3) (view c s)"
    by (simp add: s7(2) s6_def view_printing v6 s5(2) v4 sent_def devices_ready_def gates_def del: view_simps)
  moreover have "kmain_devices dev lay s = returns (present, s7)"
    using s3(1) s5(1) s7(1) unfolding kmain_devices_unfold s6_def s4_def s2_def present_def
    by (simp add: split_beta)
  moreover have "\<exists>log. present = (dev log COM_LSR \<noteq> 0xFF)" unfolding present_def by (rule tables_loaded_view(2))
  ultimately show ?thesis unfolding l by blast
qed

text \<open>The memory stages.\<close>

lemma kmain_memory_view: "view c (kmain_memory lay s) = (view c s)\<lparr>v_core := (v_core (view c s))
   \<lparr>k_pmm := pmm_init (kernel_start lay) (kernel_end lay) (memmap_count (v_core (view c s)))
     (Some (memmap_entries (v_core (view c s)))) (k_pmm (v_core (view c s)))\<rparr>\<rparr>"
proof -
  define t where "t = s\<lparr>k_pmm := pmm_init (kernel_start lay) (kernel_end lay) (memmap_count s)
                 (Some (memmap_entries s)) (k_pmm s)\<rparr>"
  have "view c (kmain_memory lay s) = view c t"
    by (simp add: kmain_memory_def t_def [symmetric] Let_def view_printing del: view_simps)
  then show ?thesis by (simp add: t_def view_upd)
qed

text \<open>What \<open>kmalloc_init\<close> takes from the frame allocator, whatever that has left.\<close>

lemma kmalloc_init_splits:
  assumes "pmm_inv p"
  obtains q h' fl where "kmalloc_init p h = Inr (q, h')" "heap_inv h' fl []" "pmm_inv q"
    "set (all_frames fl) \<union> free_frames q \<subseteq> free_frames p" "set (all_frames fl) \<inter> free_frames q = {}"
    "length (all_frames fl) \<le> 64" "fl = [] \<or> (\<exists>f n. fl = [(f, n)])"
proof (cases "free_frames p = {}")
  case True
  with kmalloc_init_empty [OF True, of h] that assms show ?thesis by auto
next
  case False
  let ?f = "Min (free_frames p)"
  obtain i q h' where r: "kmalloc_init p h = Inr (q, h')" "0 < i" "pmm_inv q"
    "pulled (free_frames p) ?f 0 i (free_frames q)" "heap_inv h' [(?f, i)] []"
    using kmalloc_init_pool [OF assms False, of h] by blast
  have "i \<le> 64" using r(4) by (auto simp only: pulled_def)
  with that [of q h' "[(?f, i)]"] r pulled_sets [OF r(4)] False show ?thesis by (simp add: run_list_def)
qed

lemma kmain_heap_view:
  assumes "pmm_inv (k_pmm (v_core (view c s)))"
  obtains t q h fl where "kmain_heap s = returns t"
    "view c t = (view c s)\<lparr>v_core := (v_core (view c s))\<lparr>k_pmm := q, k_heap := h\<rparr>\<rparr>"
    "heap_inv h fl []" "pmm_inv q" "length (all_frames fl) \<le> 64"
    "set (all_frames fl) \<union> free_frames q \<subseteq> free_frames (k_pmm (v_core (view c s)))"
    "set (all_frames fl) \<inter> free_frames q = {}"
proof -
  obtain q h1 fl where i: "kmalloc_init (k_pmm s) (k_heap s) = Inr (q, h1)" "heap_inv h1 fl []" "pmm_inv q"
    "set (all_frames fl) \<union> free_frames q \<subseteq> free_frames (k_pmm s)" "set (all_frames fl) \<inter> free_frames q = {}"
    "length (all_frames fl) \<le> 64"
    using kmalloc_init_splits [OF assms [unfolded view_simps core_fields], of "k_heap s"] by metis
  obtain ok h fl' where st: "heap_self_test h1 = returns (ok, h)" "heap_inv h fl' []"
    "mset (all_frames fl') = mset (all_frames fl)"
    using heap_self_test_outcome [OF i(2)] by blast
  have fr: "set (all_frames fl') = set (all_frames fl)" "length (all_frames fl') = length (all_frames fl)"
    using st(3) by (metis mset_eq_setD, metis mset_eq_length)
  have "\<exists>t. kmain_heap s = returns t \<and> view c t = view c (s\<lparr>k_pmm := q, k_heap := h\<rparr>)"
    using i(1) st(1) by (simp add: kmain_heap_def returns_def Let_def view_printing del: view_simps)
  then obtain t where "kmain_heap s = returns t" "view c t = view c (s\<lparr>k_pmm := q, k_heap := h\<rparr>)" by blast
  moreover from this have "view c t = (view c s)\<lparr>v_core := (v_core (view c s))\<lparr>k_pmm := q, k_heap := h\<rparr>\<rparr>"
    by (simp add: view_upd)
  ultimately show ?thesis using i st fr by (intro that [of t h q fl']) simp_all
qed

section \<open>Interrupts and the view\<close>

lemma irq_dispatch_frame:
  fixes s :: kernel
  shows "idt (irq_dispatch dev f s) = idt s" "cpu_idtr (irq_dispatch dev f s) = cpu_idtr s"
    "keyboard.more (irq_dispatch dev f s) = keyboard.more s"
    "pit_channel0 p (io_log (irq_dispatch dev f s)) = pit_channel0 p (io_log s)"
    "uart_of u (io_log (irq_dispatch dev f s)) = uart_of u (io_log s)"
proof -
  define n where "n = (of_nat (unat (f_vector f) - 32) :: u8)"
  have eoi: "idt (pic_eoi n t) = idt t" "cpu_idtr (pic_eoi n t) = cpu_idtr t" "keyboard.more (pic_eoi n t) = keyboard.more t"
    "pit_channel0 p (io_log (pic_eoi n t)) = pit_channel0 p (io_log t)"
    "uart_of u (io_log (pic_eoi n t)) = uart_of u (io_log t)" for t :: kernel
    by (simp_all add: pic_eoi_def outb_def Let_def pit_channel0_def uart_of_def pit_consts com_consts pic_consts)
  have hd: "idt (call_irq_handler dev h s) = idt s" "cpu_idtr (call_irq_handler dev h s) = cpu_idtr s"
    "keyboard.more (call_irq_handler dev h s) = keyboard.more s"
    "pit_channel0 p (io_log (call_irq_handler dev h s)) = pit_channel0 p (io_log s)"
    "uart_of u (io_log (call_irq_handler dev h s)) = uart_of u (io_log s)" for h
    by (cases h; simp add: call_irq_handler_def pit_on_tick_def keyboard_on_irq_unfold Let_def after_read_def
        inb_def enqueue_def pit_channel0_def uart_of_def)+
  show "idt (irq_dispatch dev f s) = idt s" "cpu_idtr (irq_dispatch dev f s) = cpu_idtr s"
    "keyboard.more (irq_dispatch dev f s) = keyboard.more s"
    "pit_channel0 p (io_log (irq_dispatch dev f s)) = pit_channel0 p (io_log s)"
    "uart_of u (io_log (irq_dispatch dev f s)) = uart_of u (io_log s)"
    by (simp_all add: irq_dispatch_eq n_def [symmetric] eoi hd split: option.splits)
qed

lemma take_irqs_frame:
  "idt (take_irqs dev fs s) = idt s" "cpu_idtr (take_irqs dev fs s) = cpu_idtr s"
  "keyboard.more (take_irqs dev fs s) = keyboard.more s"
  "pit_channel0 p (io_log (take_irqs dev fs s)) = pit_channel0 p (io_log s)"
  "uart_of u (io_log (take_irqs dev fs s)) = uart_of u (io_log s)"
  unfolding take_irqs_def by (induction fs arbitrary: s) (simp_all add: irq_dispatch_frame)

end
