(* ===== verification/Kmain_Loop.thy ===== *)
theory Kmain_Loop
  imports Kmain_Boot
begin

unbundle bit_operations_syntax

text \<open>
  The main loop of \<open>kmain\<close>: what one step of the echo loop, one drain and one pass do to the key
  queue, the screen and the serial line, for every way interrupts can arrive in between.
\<close>

section \<open>The invariant of the loop\<close>

text \<open>Byte \<open>0\<close> never enters the key queue; the divisor latch of the serial port is closed.\<close>

definition loop_inv :: "uart \<Rightarrow> kernel \<Rightarrow> bool" where
  "loop_inv u s \<longleftrightarrow> irq_handlers s = wired \<and> ring_inv s \<and> console_inv s
     \<and> \<not> bit (u_lcr (uart_of u (io_log s))) 7 \<and> 0 \<notin> set (key_queue s)"

text \<open>What has been sent over the serial line.\<close>

abbreviation sent_by :: "uart \<Rightarrow> kernel \<Rightarrow> u8 list" where
  "sent_by u s \<equiv> u_sent (uart_of u (io_log s))"

lemma quiet_uart: "quiet s t \<Longrightarrow> uart_of u (io_log t) = uart_of u (io_log s)" for s t :: kernel
  using view_quiet [of s t "\<lparr>c_master = undefined, c_slave = undefined, c_pit = undefined, c_uart = u\<rparr>"]
  by (auto simp: view_def)

text \<open>The variables behind the console's, and those behind the port history.\<close>

lemma console_more_fields:
  fixes s t :: kernel
  assumes "console.more t = console.more s"
  shows "irq_handlers t = irq_handlers s" "ring_inv t = ring_inv s" "key_queue t = key_queue s"
    "s_ticks t = s_ticks s" "k_pmm t = k_pmm s" "k_heap t = k_heap s" "if_flag t = if_flag s"
    "cpu_idtr t = cpu_idtr s" "idt t = idt s"
  using assms by (cases s; cases t; simp add: ring_inv_def key_queue_def)+

lemma ports_more_console:
  fixes s t :: kernel
  assumes "ports.more t = ports.more s"
  shows "console.more t = console.more s" "tty_of t = tty_of s" "console_inv t = console_inv s"
  using assms by (cases s; cases t; simp add: tty_of_def console_inv_def)+

text \<open>The variables the loop leaves alone.\<close>

definition same_system :: "kernel \<Rightarrow> kernel \<Rightarrow> bool" where
  "same_system s t \<longleftrightarrow> idt t = idt s \<and> cpu_idtr t = cpu_idtr s \<and> k_pmm t = k_pmm s \<and> k_heap t = k_heap s
     \<and> if_flag t = if_flag s"

lemma same_system_trans: "same_system s t \<Longrightarrow> same_system t v \<Longrightarrow> same_system s v"
  by (simp add: same_system_def)

lemma same_system_more:
  assumes "console.more t = console.more s"
  shows "same_system s t"
  using console_more_fields [OF assms] by (simp add: same_system_def)

section \<open>Interrupts\<close>

lemma irq_dispatch_queue:
  assumes "irq_handlers s = wired" "ring_inv s" "0 \<notin> set (key_queue s)"
  shows "\<exists>cs. key_queue (irq_dispatch dev f s) = key_queue s @ cs \<and> 0 \<notin> set cs"
proof -
  have eoi: "key_queue (pic_eoi n t) = key_queue t" for n and t :: "'a keyboard_scheme"
    by (simp add: key_queue_def)
  have tick: "key_queue (pit_on_tick s) = key_queue s" by (simp add: pit_on_tick_def key_queue_def)
  show ?thesis
    using keyboard_on_irq_queue [OF assms(2), of dev] assms(1)
    by (auto simp: irq_dispatch_eq eoi tick wired_def call_irq_handler_def)
qed

lemma take_irqs_queue:
  assumes "irq_handlers s = wired" "ring_inv s" "0 \<notin> set (key_queue s)"
  shows "\<exists>cs. key_queue (take_irqs dev fs s) = key_queue s @ cs \<and> 0 \<notin> set cs"
  unfolding take_irqs_def using assms
proof (induction fs arbitrary: s)
  case (Cons x fs)
  define v where "v = irq_dispatch dev x s"
  obtain cs where cs: "key_queue v = key_queue s @ cs" "0 \<notin> set cs"
    using irq_dispatch_queue [OF Cons.prems] by (auto simp: v_def)
  have "irq_handlers v = wired" "ring_inv v" using irq_dispatch_step [OF Cons.prems(1,2) v_def] by auto
  from Cons.IH [OF this] cs Cons.prems(3) show ?case by (auto simp: v_def)
qed simp

lemma take_irqs_loop:
  assumes "loop_inv u s" and t_def: "t = take_irqs dev fs s"
  shows "loop_inv u t \<and> tty_of t = tty_of s \<and> sent_by u t = sent_by u s \<and> same_system s t
    \<and> s_ticks t = s_ticks s + of_nat (length (filter (\<lambda>f. unat (f_vector f) = 32) fs))
    \<and> (\<exists>cs. key_queue t = key_queue s @ cs \<and> (fs = [] \<longrightarrow> cs = []))"
proof -
  have i: "irq_handlers s = wired" "ring_inv s" "console_inv s" "0 \<notin> set (key_queue s)"
    using assms(1) by (simp_all add: loop_inv_def)
  have t: "t = fold (irq_dispatch dev) fs s" by (simp add: t_def take_irqs_def)
  note f = irq_fold [OF i(1,2) t]
  have q: "\<exists>cs. key_queue t = key_queue s @ cs \<and> 0 \<notin> set cs"
    unfolding t_def by (rule take_irqs_queue [OF i(1,2,4)])
  have c: "cursor_row t = cursor_row s" "cursor_col t = cursor_col s" "vga t = vga s"
    "s_ticks t = s_ticks s + of_nat (length (filter (\<lambda>f. unat (f_vector f) = 32) fs))"
    "irq_handlers t = wired" "ring_inv t" using f by blast+
  then have tty: "tty_of t = tty_of s" "console_inv t" using i(3) by (simp_all add: tty_of_def console_inv_def)
  have "keyboard.more t = keyboard.more s" by (simp add: t_def take_irqs_frame)
  then have "k_pmm t = k_pmm s" "k_heap t = k_heap s" "if_flag t = if_flag s" by (cases t; cases s; simp)+
  then have ss: "same_system s t" by (simp add: same_system_def t_def take_irqs_frame)
  have ua: "uart_of u (io_log t) = uart_of u (io_log s)" by (simp add: t_def take_irqs_frame)
  have "loop_inv u t" using q i c tty assms(1) by (auto simp: loop_inv_def ua)
  moreover have "\<exists>cs. key_queue t = key_queue s @ cs \<and> (fs = [] \<longrightarrow> cs = [])"
  proof (cases fs)
    case Nil
    then show ?thesis by (simp add: t)
  qed (use q in auto)
  ultimately show ?thesis using tty ss ua c by simp
qed

section \<open>Printing and echoing\<close>

lemma puts_loop:
  assumes "loop_inv u s" "0 \<notin> set cs" and t_def: "t = console_puts cs s"
  shows "loop_inv u t \<and> tty_of t = fold tty_putchar cs (tty_of s) \<and> sent_by u t = sent_by u s
    \<and> same_system s t \<and> s_ticks t = s_ticks s \<and> key_queue t = key_queue s"
proof -
  have m: "console.more t = console.more s" by (simp add: t_def)
  have ua: "uart_of u (io_log t) = uart_of u (io_log s)" unfolding t_def by (rule quiet_uart [OF quiet_puts])
  have "tty_of t = fold tty_putchar cs (tty_of s) \<and> console_inv t"
    using assms tty_of_puts [of s cs] by (simp add: loop_inv_def)
  with console_more_fields [OF m] same_system_more [OF m] assms(1) show ?thesis by (simp add: loop_inv_def ua)
qed

text \<open>A string for the serial port, sent or not sent.\<close>

lemma serial_loop:
  assumes "loop_inv u s" "uart_drains dev" "0 \<notin> set cs"
  obtains t where "serial_puts dev (Some cs) s = Some t" "loop_inv u t" "tty_of t = tty_of s"
    "sent_by u t = sent_by u s @ cs" "same_system s t" "s_ticks t = s_ticks s" "key_queue t = key_queue s"
proof -
  obtain t where t: "serial_puts_loop dev cs s = Some t" "ports.more t = ports.more s"
    "uart_of u (io_log t) = (uart_of u (io_log s))\<lparr>u_sent := sent_by u s @ cs\<rparr>"
    using serial_puts_loop_sends [OF assms(2,3), of s] assms(1) by (auto simp: loop_inv_def)
  note c = ports_more_console [OF t(2)]
  note m = console_more_fields [OF c(1)] same_system_more [OF c(1)]
  show ?thesis using that [of t] t(1,3) c(2,3) m assms(1) by (simp add: serial_puts_def loop_inv_def)
qed

text \<open>The bytes \<open>serial_echo\<close> sends for a key.\<close>

definition echo_bytes :: "u8 \<Rightarrow> u8 list" where
  "echo_bytes c = (if c = 0x08 then [0x08, 0x20, 0x08] else if c = 0x0A then [0x0D, 0x0A] else [c])"

lemma serial_puts_nul: "serial_puts dev (Some [c, 0]) s = serial_puts dev (Some [c]) s"
  for s :: kernel
proof -
  have "(serial_puts_loop dev [0] :: kernel \<Rightarrow> _) = serial_puts_loop dev []" by (rule ext) simp
  then show ?thesis by (simp add: serial_puts_def)
qed

lemma serial_echo_loop:
  assumes "loop_inv u s" "uart_drains dev" "c \<noteq> 0"
  obtains t where "serial_echo dev c ok s = Some t" "loop_inv u t" "tty_of t = tty_of s"
    "sent_by u t = sent_by u s @ (if ok then echo_bytes c else [])" "same_system s t"
    "s_ticks t = s_ticks s" "key_queue t = key_queue s"
proof (cases ok)
  case False
  with that [of s] assms(1) show ?thesis by (simp add: serial_echo_def same_system_def)
next
  case True
  have e: "serial_echo dev c ok s = serial_puts dev (Some (echo_bytes c)) s"
    using True serial_puts_nul [of dev c s] by (simp add: serial_echo_def echo_bytes_def)
  have "0 \<notin> set (echo_bytes c)" using assms(3) by (auto simp: echo_bytes_def)
  from serial_loop [OF assms(1,2) this] that True show ?thesis unfolding e by auto
qed

text \<open>One key: taken off the queue, printed, echoed.\<close>

definition echo_key :: "device \<Rightarrow> bool \<Rightarrow> kernel \<Rightarrow> kernel option" where
  "echo_key dev ok s = (let (c, s) = keyboard_dequeue s in serial_echo dev c ok (console_putchar c s))"

lemma dequeue_frame:
  "same_system s (snd (keyboard_dequeue s))" "irq_handlers (snd (keyboard_dequeue s)) = irq_handlers s"
  "tty_of (snd (keyboard_dequeue s)) = tty_of s" "console_inv (snd (keyboard_dequeue s)) = console_inv s"
  "io_log (snd (keyboard_dequeue s)) = io_log s" "s_ticks (snd (keyboard_dequeue s)) = s_ticks s"
  by (simp_all add: keyboard_dequeue_def same_system_def tty_of_def console_inv_def Let_def)

lemma echo_key_loop:
  assumes "loop_inv u s" "uart_drains dev" "key_queue s = c # cs"
  obtains t where "echo_key dev ok s = Some t" "loop_inv u t" "tty_of t = tty_putchar c (tty_of s)"
    "sent_by u t = sent_by u s @ (if ok then echo_bytes c else [])" "same_system s t"
    "s_ticks t = s_ticks s" "key_queue t = cs"
proof -
  have i: "ring_inv s" "c \<noteq> 0" "0 \<notin> set cs" using assms(1,3) by (auto simp: loop_inv_def)
  obtain a where a: "keyboard_dequeue s = (c, a)" "ring_inv a" "key_queue a = cs"
    using keys.get_first [OF i(1) assms(3)] by blast
  note fr = dequeue_frame [of s, unfolded a snd_conv]
  have la: "loop_inv u a" using assms(1) fr a(2,3) i(3) by (simp add: loop_inv_def)
  define b where "b = console_puts [c] a"
  have b: "console_putchar c a = b" using i(2) by (simp add: b_def)
  note pb = puts_loop [OF la _ b_def]
  obtain t where "serial_echo dev c ok b = Some t" "loop_inv u t" "tty_of t = tty_of b"
    "sent_by u t = sent_by u b @ (if ok then echo_bytes c else [])" "same_system b t"
    "s_ticks t = s_ticks b" "key_queue t = key_queue b"
    using serial_echo_loop [of u b dev c ok] pb i(2) assms(2) by auto
  with that [of t] pb fr a i(2) show ?thesis
    by (auto simp: echo_key_def b intro: same_system_trans)
qed

section \<open>Draining the key queue\<close>

abbreviation timer_count :: "interrupt_frame list \<Rightarrow> nat" where
  "timer_count fs \<equiv> length (filter (\<lambda>f. unat (f_vector f) = 32) fs)"

text \<open>The keys that a run of interrupts puts into the queue, behind those that wait there.\<close>

definition arriving :: "device \<Rightarrow> interrupt_frame list \<Rightarrow> kernel \<Rightarrow> u8 list" where
  "arriving dev fs s = drop (length (key_queue s)) (key_queue (take_irqs dev fs s))"

text \<open>
  A run of the echo loop from \<open>s\<close> to \<open>t\<close>, with the keys that its interrupts put into the queue, in the
  order they did: at each test of the condition those of the interrupts taken just before it.
\<close>

inductive drain_trace ::
  "device \<Rightarrow> bool \<Rightarrow> interrupt_frame list list \<Rightarrow> kernel \<Rightarrow> u8 list \<Rightarrow> kernel \<Rightarrow> bool" for dev ok where
  no_key: "fs = (if irqs = [] then [] else hd irqs) \<Longrightarrow> a = take_irqs dev fs s \<Longrightarrow> \<not> keyboard_has_key a \<Longrightarrow>
    drain_trace dev ok irqs s (arriving dev fs s) a"
| key: "fs = (if irqs = [] then [] else hd irqs) \<Longrightarrow> a = take_irqs dev fs s \<Longrightarrow> keyboard_has_key a \<Longrightarrow>
    keyboard_dequeue a = (c, b) \<Longrightarrow> serial_echo dev c ok (console_putchar c b) = Some d \<Longrightarrow>
    drain_trace dev ok (tl irqs) d later t \<Longrightarrow> drain_trace dev ok irqs s (arriving dev fs s @ later) t"

lemma drain_trace_quiet: "drain_trace dev ok irqs s later t \<Longrightarrow> concat irqs = [] \<Longrightarrow> later = []"
proof (induction rule: drain_trace.induct)
  case (no_key fs irqs a s)
  then have "fs = []" by (cases irqs) auto
  then show ?case by (simp add: arriving_def take_irqs_def)
next
  case (key fs irqs a s c b d later t)
  then have "fs = []" "concat (tl irqs) = []" by (cases irqs; auto)+
  with key.IH show ?case by (simp add: arriving_def take_irqs_def)
qed

lemma drain_trace_first:
  assumes "drain_trace dev ok (fs # irqs) s later t" "concat irqs = []"
  shows "later = arriving dev fs s"
  using assms(1) by cases (use assms(2) in \<open>auto dest: drain_trace_quiet\<close>)

text \<open>
  What a drain achieves: the queue is empty, and the keys that were in it, followed by those that
  arrived meanwhile, have been printed and echoed in order.
\<close>

definition drained :: "uart \<Rightarrow> device \<Rightarrow> bool \<Rightarrow> interrupt_frame list list \<Rightarrow> kernel \<Rightarrow> kernel \<Rightarrow> bool" where
  "drained u dev ok irqs s t \<longleftrightarrow> loop_inv u t \<and> key_queue t = [] \<and> same_system s t
     \<and> (\<exists>later. drain_trace dev ok irqs s later t \<and> tty_of t = fold tty_putchar (key_queue s @ later) (tty_of s)
         \<and> sent_by u t = sent_by u s @ (if ok then concat (map echo_bytes (key_queue s @ later)) else [])
         \<and> (concat irqs = [] \<longrightarrow> later = []))
     \<and> (\<exists>n \<le> timer_count (concat irqs). s_ticks t = s_ticks s + of_nat n)"

lemma drain_keys_unfold: "drain_keys dev ok irqs s =
  (let s = take_irqs dev (if irqs = [] then [] else hd irqs) s
   in if keyboard_has_key s then Option.bind (echo_key dev ok s) (drain_keys dev ok (tl irqs)) else Some s)"
  by (subst drain_keys.simps) (simp add: echo_key_def Let_def split_beta)

lemma drain_step:
  assumes "loop_inv u s" "uart_drains dev"
    and rest: "\<And>a t. a = take_irqs dev (if irqs = [] then [] else hd irqs) s \<Longrightarrow> key_queue a \<noteq> [] \<Longrightarrow>
      loop_inv u t \<Longrightarrow> key_queue t = tl (key_queue a) \<Longrightarrow>
      \<exists>r. drain_keys dev ok (tl irqs) t = Some r \<and> drained u dev ok (tl irqs) t r"
  shows "\<exists>t. drain_keys dev ok irqs s = Some t \<and> drained u dev ok irqs s t"
proof -
  define fs where "fs = (if irqs = [] then [] else hd irqs)"
  define a where "a = take_irqs dev fs s"
  define cs where "cs = arriving dev fs s"
  have a: "loop_inv u a" "tty_of a = tty_of s" "sent_by u a = sent_by u s" "same_system s a"
    "s_ticks a = s_ticks s + of_nat (timer_count fs)" "key_queue a = key_queue s @ cs" "fs = [] \<Longrightarrow> cs = []"
    using take_irqs_loop [OF assms(1) a_def] by (auto simp: cs_def arriving_def a_def)
  have has: "keyboard_has_key a \<longleftrightarrow> key_queue a \<noteq> []" using a(1) by (intro keys.has_iff) (simp add: loop_inv_def)
  have fs: "concat irqs = fs @ concat (tl irqs)" by (cases irqs) (simp_all add: fs_def)
  show ?thesis
  proof (cases "key_queue a")
    case Nil
    then have "drain_trace dev ok irqs s cs a"
      unfolding cs_def by (intro drain_trace.no_key [OF fs_def a_def]) (simp add: has)
    moreover have "\<exists>n \<le> timer_count (concat irqs). s_ticks a = s_ticks s + of_nat n"
      unfolding a(5) fs by (intro exI [of _ "timer_count fs"]) simp
    ultimately have "drained u dev ok irqs s a"
      unfolding drained_def using a Nil by (intro conjI exI [of _ cs]) auto
    moreover have "drain_keys dev ok irqs s = Some a"
      using Nil has by (simp add: drain_keys_unfold [of dev ok irqs] fs_def [symmetric] a_def [symmetric])
    ultimately show ?thesis by blast
  next
    case (Cons c qs)
    obtain b where b: "echo_key dev ok a = Some b" "loop_inv u b" "tty_of b = tty_putchar c (tty_of a)"
      "sent_by u b = sent_by u a @ (if ok then echo_bytes c else [])" "same_system a b"
      "s_ticks b = s_ticks a" "key_queue b = qs"
      using echo_key_loop [OF a(1) assms(2) Cons] by blast
    obtain r where r: "drain_keys dev ok (tl irqs) b = Some r" "drained u dev ok (tl irqs) b r"
      using rest [OF a_def [unfolded fs_def] _ b(2)] Cons b(7) by auto
    then obtain ex n where ex: "tty_of r = fold tty_putchar (qs @ ex) (tty_of b)"
      "sent_by u r = sent_by u b @ (if ok then concat (map echo_bytes (qs @ ex)) else [])"
      "concat (tl irqs) = [] \<Longrightarrow> ex = []" "drain_trace dev ok (tl irqs) b ex r"
      "s_ticks r = s_ticks b + of_nat n" "n \<le> timer_count (concat (tl irqs))"
      unfolding drained_def b(7) by blast
    have q: "key_queue s @ cs @ ex = c # qs @ ex" using Cons a(6) by simp
    have none: "cs @ ex = []" if "concat irqs = []" using that a(7) ex(3) unfolding fs by auto
    obtain c' d where cd: "keyboard_dequeue a = (c', d)" "serial_echo dev c' ok (console_putchar c' d) = Some b"
      using b(1) by (auto simp: echo_key_def split: prod.splits)
    have tr: "drain_trace dev ok irqs s (cs @ ex) r"
      unfolding cs_def using has Cons by (intro drain_trace.key [OF fs_def a_def _ cd ex(4)]) simp
    have "\<exists>n \<le> timer_count (concat irqs). s_ticks r = s_ticks s + of_nat n"
      unfolding fs ex(5) b(6) a(5) using ex(6) by (intro exI [of _ "timer_count fs + n"]) (simp add: add.assoc)
    moreover have "tty_of r = fold tty_putchar (key_queue s @ cs @ ex) (tty_of s)"
      "sent_by u r = sent_by u s @ (if ok then concat (map echo_bytes (key_queue s @ cs @ ex)) else [])"
      unfolding q by (simp_all add: ex b(3,4) a(2,3))
    moreover have "same_system s r" using r(2) a(4) b(5) by (auto simp: drained_def intro: same_system_trans)
    ultimately have "drained u dev ok irqs s r" using r(2) none tr unfolding drained_def by blast
    moreover have "drain_keys dev ok irqs s = Some r"
      using Cons has b(1) r(1) by (simp add: drain_keys_unfold [of dev ok irqs] fs_def [symmetric] a_def [symmetric])
    ultimately show ?thesis by blast
  qed
qed

text \<open>Once no interrupts are left the queue shrinks; before that the schedule does.\<close>

lemma drain_keys_quiet:
  assumes "uart_drains dev" "loop_inv u s"
  shows "\<exists>t. drain_keys dev ok [] s = Some t \<and> drained u dev ok [] s t"
  using assms(2)
proof (induction "key_queue s" arbitrary: s rule: length_induct)
  case (1 s)
  show ?case
  proof (rule drain_step [OF 1(2) assms(1)])
    fix a t
    assume a: "a = take_irqs dev (if [] = [] then [] else hd []) s" "key_queue a \<noteq> []"
      and t: "loop_inv u t" "key_queue t = tl (key_queue a)"
    have "a = s" using a(1) by (simp add: take_irqs_def)
    then show "\<exists>r. drain_keys dev ok (tl []) t = Some r \<and> drained u dev ok (tl []) t r"
      using 1(1) t a(2) by (cases "key_queue s") auto
  qed
qed

lemma drain_keys_loop:
  assumes "uart_drains dev" "loop_inv u s"
  shows "\<exists>t. drain_keys dev ok irqs s = Some t \<and> drained u dev ok irqs s t"
  using assms(2)
proof (induction irqs arbitrary: s)
  case Nil
  then show ?case by (rule drain_keys_quiet [OF assms(1)])
next
  case (Cons i irqs)
  show ?case by (rule drain_step [OF Cons.prems assms(1)]) (simp add: Cons.IH)
qed

section \<open>A pass\<close>

text \<open>
  The text of a log line printed at tick \<open>T\<close>, and of the uptime line: its time stamp is the tick at
  which it is printed, its value the one read after \<open>hlt\<close>.
\<close>

definition line_text :: "u64 \<Rightarrow> u8 list \<Rightarrow> u8 list \<Rightarrow> u8 list" where
  "line_text T sub msg = prefix_text (unat T) sub @ msg @ [0x0A]"

definition uptime_text :: "u64 \<Rightarrow> u64 \<Rightarrow> u8 list" where
  "uptime_text T now = line_text T (cstr ''nadir'')
     (cstr ''uptime '' @ nat_dec (unat now div 100) @ cstr ''.'' @ nat_dec (unat now div 10 mod 10)
      @ cstr ''s (ticks '' @ cstr ''0x'' @ hex_string 16 now @ cstr '')'')"

lemma prefix_text_no_nul: "0 \<notin> set sub \<Longrightarrow> 0 \<notin> set (prefix_text t sub)"
  by (simp add: prefix_text_def nat_dec_no_nul frac_digits_no_nul)

lemma hex_string_no_nul: "0 \<notin> set (hex_string n v)"
  using hex_string_props by blast

lemma uptime_text_no_nul: "0 \<notin> set (uptime_text T now)"
  by (simp add: uptime_text_def line_text_def prefix_text_no_nul nat_dec_no_nul hex_string_no_nul)

lemma console_putchar_puts: "c \<noteq> 0 \<Longrightarrow> console_putchar c s = console_puts [c] s"
  by simp

lemma uptime_line_puts:
  "klog_end (klog_str (cstr '')'') (klog_hex64 now (klog_str (cstr ''s (ticks '') (klog_dec ((now div 10) mod 10)
    (klog_str (cstr ''.'') (klog_dec (now div 100) (klog_str (cstr ''uptime '') (klog_begin (cstr ''nadir'') s))))))))
    = console_puts (uptime_text (s_ticks s) now) s"
proof -
  have n: "unat (now div 100) = unat now div 100" "unat ((now div 10) mod 10) = unat now div 10 mod 10"
    by (simp_all add: unat_div_distrib unat_mod_distrib)
  have "0 \<notin> set (cstr ''nadir'')" by simp
  note pre = klog_prefix_puts [OF this]
  show ?thesis
    by (simp add: klog_begin_def pre klog_str_def klog_dec_puts n klog_hex64_def console_puthex64_puts klog_end_def
        console_putchar_puts [of "0x0A"] console_puts_puts uptime_text_def line_text_def prefix_text_no_nul
        nat_dec_no_nul hex_string_no_nul del: console_puts.simps)
qed

definition uptime_notice :: "u8 list" where
  "uptime_notice = cstr (''uptime (see VGA for value)'' @ [CHR 0x0A])"

text \<open>The uptime line is due when 100 ticks have passed since the last one, also across wrap-around.\<close>

definition due :: "u64 \<Rightarrow> u64 \<Rightarrow> bool" where
  "due last_uptime now \<longleftrightarrow> 100 \<le> now - last_uptime"

text \<open>The timer interrupts of a pass after its counter has been read.\<close>

definition later_ticks :: "pass_irqs \<Rightarrow> nat" where
  "later_ticks irqs = timer_count (at_report irqs) + timer_count (at_notice irqs) + timer_count (concat (at_tests irqs))"

definition passed :: "uart \<Rightarrow> bool \<Rightarrow> pass_irqs \<Rightarrow> u64 \<times> kernel \<Rightarrow> u64 \<times> kernel \<Rightarrow> bool" where
  "passed u ok irqs ls lt \<longleftrightarrow> (case ls of (prev, s) \<Rightarrow> case lt of (last', t) \<Rightarrow>
     let now = s_ticks s + of_nat (timer_count (at_hlt irqs));
         line = (if due prev now then uptime_text (now + of_nat (timer_count (at_report irqs))) now else [])
     in last' = (if due prev now then now else prev) \<and> loop_inv u t \<and> key_queue t = [] \<and> same_system s t
      \<and> (\<exists>later. tty_of t = fold tty_putchar (line @ key_queue s @ later) (tty_of s)
          \<and> sent_by u t = sent_by u s @ (if ok then (if due prev now then uptime_notice else [])
               @ concat (map echo_bytes (key_queue s @ later)) else []))
      \<and> (\<exists>n \<le> later_ticks irqs. s_ticks t = now + of_nat n))"

text \<open>The uptime part of a pass.\<close>

definition report_uptime :: "device \<Rightarrow> bool \<Rightarrow> pass_irqs \<Rightarrow> u64 \<Rightarrow> u64 \<Rightarrow> kernel \<Rightarrow> (u64 \<times> kernel) option" where
  "report_uptime dev ok irqs prev now s =
     (if due prev now
      then let s = take_irqs dev (at_report irqs) s;
               s = console_puts (uptime_text (s_ticks s) now) s;
               s = take_irqs dev (at_notice irqs) s
        in Option.bind (if ok then serial_puts dev (Some uptime_notice) s else Some s) (\<lambda>s. Some (now, s))
      else Some (prev, s))"

lemma kmain_pass_unfold: "kmain_pass dev ok irqs (prev, s) =
  (let s = take_irqs dev (at_hlt irqs) s
   in Option.bind (report_uptime dev ok irqs prev (s_ticks s) s)
        (\<lambda>(prev, s). map_option (Pair prev) (drain_keys dev ok (at_tests irqs) s)))"
  unfolding kmain_pass_def report_uptime_def Let_def prod.case pit_ticks_def due_def uptime_notice_def
  by (simp only: uptime_line_puts)

lemma report_uptime_loop:
  assumes "loop_inv u s" "uart_drains dev"
  shows "\<exists>t n cs. report_uptime dev ok irqs prev now s = Some (if due prev now then now else prev, t)
    \<and> loop_inv u t \<and> same_system s t \<and> key_queue t = key_queue s @ cs
    \<and> tty_of t = fold tty_putchar
        (if due prev now then uptime_text (s_ticks s + of_nat (timer_count (at_report irqs))) now else []) (tty_of s)
    \<and> sent_by u t = sent_by u s @ (if ok \<and> due prev now then uptime_notice else [])
    \<and> s_ticks t = s_ticks s + of_nat n \<and> n \<le> timer_count (at_report irqs) + timer_count (at_notice irqs)"
proof (cases "due prev now")
  case False
  with assms(1) show ?thesis
    by (intro exI [of _ s] exI [of _ 0] exI [of _ "[]"]) (simp add: report_uptime_def same_system_def)
next
  case True
  define a where "a = take_irqs dev (at_report irqs) s"
  obtain cs where a: "loop_inv u a" "tty_of a = tty_of s" "sent_by u a = sent_by u s" "same_system s a"
    "s_ticks a = s_ticks s + of_nat (timer_count (at_report irqs))" "key_queue a = key_queue s @ cs"
    using take_irqs_loop [OF assms(1) a_def] by blast
  define b where "b = console_puts (uptime_text (s_ticks a) now) a"
  note b = puts_loop [OF a(1) uptime_text_no_nul b_def]
  define d where "d = take_irqs dev (at_notice irqs) b"
  obtain ds where d: "loop_inv u d" "tty_of d = tty_of b" "sent_by u d = sent_by u b" "same_system b d"
    "s_ticks d = s_ticks b + of_nat (timer_count (at_notice irqs))" "key_queue d = key_queue b @ ds"
    using take_irqs_loop [OF _ d_def, of u] b by blast
  have nz: "0 \<notin> set uptime_notice" by (simp add: uptime_notice_def)
  obtain t where t: "(if ok then serial_puts dev (Some uptime_notice) d else Some d) = Some t" "loop_inv u t"
    "tty_of t = tty_of d" "sent_by u t = sent_by u d @ (if ok then uptime_notice else [])" "same_system d t"
    "s_ticks t = s_ticks d" "key_queue t = key_queue d"
  proof (cases ok)
    case True
    from that True show ?thesis by (auto intro: serial_loop [OF d(1) assms(2) nz])
  qed (use that [of d] d(1) in \<open>simp add: same_system_def\<close>)
  have "report_uptime dev ok irqs prev now s = Some (now, t)"
    using True t(1) by (simp add: report_uptime_def a_def [symmetric] b_def [symmetric] d_def [symmetric])
  moreover have "same_system s t" using a(4) b d(4) t(5) by (blast intro: same_system_trans)
  moreover have "key_queue t = key_queue s @ cs @ ds" by (simp add: t(7) d(6) b a(6))
  moreover have "s_ticks t = s_ticks s + of_nat (timer_count (at_report irqs) + timer_count (at_notice irqs))"
    by (simp add: t(6) d(5) b a(5) add.assoc)
  ultimately show ?thesis using True t(2-4) d(2,3) b a(2,3)
    by (intro exI [of _ t] exI [of _ "timer_count (at_report irqs) + timer_count (at_notice irqs)"] exI [of _ "cs @ ds"])
      (simp add: a(5))
qed

lemma kmain_pass_loop:
  assumes "loop_inv u s" "uart_drains dev"
  shows "\<exists>prev' t. kmain_pass dev ok irqs (prev, s) = Some (prev', t) \<and> passed u ok irqs (prev, s) (prev', t)"
proof -
  define a where "a = take_irqs dev (at_hlt irqs) s"
  obtain cs where a: "loop_inv u a" "tty_of a = tty_of s" "sent_by u a = sent_by u s" "same_system s a"
    "s_ticks a = s_ticks s + of_nat (timer_count (at_hlt irqs))" "key_queue a = key_queue s @ cs"
    using take_irqs_loop [OF assms(1) a_def] by blast
  define now where "now = s_ticks a"
  define line where "line = (if due prev now then uptime_text (now + of_nat (timer_count (at_report irqs))) now else [])"
  obtain b n ds where b: "report_uptime dev ok irqs prev now a = Some (if due prev now then now else prev, b)"
    "loop_inv u b" "same_system a b" "key_queue b = key_queue a @ ds" "tty_of b = fold tty_putchar line (tty_of a)"
    "sent_by u b = sent_by u a @ (if ok \<and> due prev now then uptime_notice else [])"
    "s_ticks b = now + of_nat n" "n \<le> timer_count (at_report irqs) + timer_count (at_notice irqs)"
    using report_uptime_loop [OF a(1) assms(2), of ok irqs prev now] unfolding line_def now_def by blast
  obtain t where t: "drain_keys dev ok (at_tests irqs) b = Some t" "drained u dev ok (at_tests irqs) b t"
    using drain_keys_loop [OF assms(2) b(2)] by blast
  then obtain ex k where r: "tty_of t = fold tty_putchar (key_queue b @ ex) (tty_of b)"
    "sent_by u t = sent_by u b @ (if ok then concat (map echo_bytes (key_queue b @ ex)) else [])"
    "k \<le> timer_count (concat (at_tests irqs))" "s_ticks t = s_ticks b + of_nat k"
    by (auto simp: drained_def)
  have "tty_of t = fold tty_putchar (line @ key_queue s @ cs @ ds @ ex) (tty_of s)"
    "sent_by u t = sent_by u s @ (if ok then (if due prev now then uptime_notice else [])
       @ concat (map echo_bytes (key_queue s @ cs @ ds @ ex)) else [])"
    using r(1,2) b(4-6) a(2,3,6) by simp_all
  moreover have "loop_inv u t" "key_queue t = []" "same_system s t"
    using t(2) a(4) b(3) by (auto simp: drained_def intro: same_system_trans)
  moreover have "s_ticks t = now + of_nat (n + k)" "n + k \<le> later_ticks irqs"
    using r(3,4) b(7,8) by (simp_all add: later_ticks_def add.assoc)
  ultimately have "passed u ok irqs (prev, s) (if due prev now then now else prev, t)"
    unfolding passed_def prod.case Let_def a(5) [symmetric] now_def [symmetric] line_def [symmetric] by blast
  moreover have "kmain_pass dev ok irqs (prev, s) = Some (if due prev now then now else prev, t)"
    unfolding kmain_pass_unfold a_def [symmetric] Let_def now_def [symmetric] b(1) using t(1) by simp
  ultimately show ?thesis by blast
qed

section \<open>The loop\<close>

lemma kmain_loop_runs:
  assumes "uart_drains dev" "loop_inv u s"
  shows "\<exists>prev' t. kmain_loop dev ok sched (prev, s) = Some (prev', t) \<and> loop_inv u t \<and> same_system s t
    \<and> (sched \<noteq> [] \<longrightarrow> key_queue t = [])"
  using assms(2)
proof (induction sched arbitrary: prev s)
  case Nil
  then show ?case by (simp add: same_system_def)
next
  case (Cons irqs sched)
  obtain prev1 t1 where p: "kmain_pass dev ok irqs (prev, s) = Some (prev1, t1)" "loop_inv u t1" "same_system s t1"
    "key_queue t1 = []"
    using kmain_pass_loop [OF Cons.prems assms(1), of ok irqs prev] by (auto simp: passed_def Let_def)
  from Cons.IH [OF p(2), of prev1] obtain prev2 t2 where l: "kmain_loop dev ok sched (prev1, t1) = Some (prev2, t2)"
    "loop_inv u t2" "same_system t1 t2" "sched \<noteq> [] \<longrightarrow> key_queue t2 = []" by blast
  have "sched = [] \<Longrightarrow> t2 = t1" using l(1) by simp
  with p l show ?case by (cases "sched = []") (auto intro: same_system_trans)
qed

text \<open>The number of uptime lines a run of the loop prints, counted by the changes of \<open>last_uptime\<close>.\<close>

fun uptime_lines :: "device \<Rightarrow> bool \<Rightarrow> pass_irqs list \<Rightarrow> u64 \<times> kernel \<Rightarrow> nat" where
  "uptime_lines dev ok [] ls = 0"
| "uptime_lines dev ok (irqs # sched) (prev, s) =
     (case kmain_pass dev ok irqs (prev, s) of None \<Rightarrow> 0
      | Some lt \<Rightarrow> (if fst lt = prev then 0 else 1) + uptime_lines dev ok sched lt)"

definition sched_ticks :: "pass_irqs list \<Rightarrow> nat" where
  "sched_ticks sched = sum_list (map (\<lambda>irqs. timer_count (at_hlt irqs) + later_ticks irqs) sched)"

lemma unat_add_le: "unat (a + of_nat n :: u64) \<le> unat a + n"
  by (simp add: unat_word_ariths unat_of_nat)

lemma uptime_rate:
  assumes "uart_drains dev" "loop_inv u s"
  shows "100 * uptime_lines dev ok sched (prev, s) \<le> unat (s_ticks s - prev) + sched_ticks sched"
  using assms(2)
proof (induction sched arbitrary: prev s)
  case (Cons irqs sched)
  define w now where "w = timer_count (at_hlt irqs)" and "now = s_ticks s + of_nat w"
  obtain prev1 t where p: "kmain_pass dev ok irqs (prev, s) = Some (prev1, t)" "passed u ok irqs (prev, s) (prev1, t)"
    using kmain_pass_loop [OF Cons.prems assms(1)] by blast
  then obtain j where l: "prev1 = (if due prev now then now else prev)" "loop_inv u t"
    and k: "s_ticks t = now + of_nat j" and j: "j \<le> later_ticks irqs"
    unfolding passed_def prod.case Let_def w_def now_def by blast
  have ih: "100 * uptime_lines dev ok sched (prev1, t) \<le> unat (s_ticks t - prev1) + sched_ticks sched"
    by (rule Cons.IH [OF l(2)])
  have st: "sched_ticks (irqs # sched) = w + later_ticks irqs + sched_ticks sched"
    by (simp add: sched_ticks_def w_def)
  have "now - prev = (s_ticks s - prev) + of_nat w" by (simp add: now_def)
  then have d: "unat (now - prev) \<le> unat (s_ticks s - prev) + w" by (metis unat_add_le)
  have lines: "uptime_lines dev ok (irqs # sched) (prev, s) = (if due prev now then 1 else 0) + uptime_lines dev ok sched (prev1, t)"
    by (auto simp: p(1) l(1) due_def)
  show ?case
  proof (cases "due prev now")
    case True
    then have "100 \<le> unat (now - prev)" by (simp add: due_def word_le_nat_alt)
    moreover have "unat (s_ticks t - prev1) \<le> j" using True unat_add_le [of 0 j] by (simp add: l(1) k)
    ultimately show ?thesis using True ih j d unfolding lines st by simp
  next
    case False
    have "s_ticks t - prev1 = (now - prev) + of_nat j" using False by (simp add: l(1) k)
    then have "unat (s_ticks t - prev1) \<le> unat (now - prev) + j" by (metis unat_add_le)
    with False ih j d show ?thesis unfolding lines st by simp
  qed
qed simp

end
