(* ===== verification/Kmain_Booted.thy ===== *)
theory Kmain_Booted
  imports Kmain_Loop
begin

unbundle bit_operations_syntax

text \<open>
  The stages of the boot put together: the view of the kernel when interrupts are enabled, and the
  variables and chips when the main loop is entered.
\<close>

section \<open>Interrupts and log lines\<close>

lemma view_sent [simp]:
  "c_master (sent cs v) = c_master v" "c_slave (sent cs v) = c_slave v" "c_pit (sent cs v) = c_pit v"
  "v_core (sent cs v) = v_core v"
  "c_uart (sent cs v) = (c_uart v)\<lparr>u_sent := u_sent (c_uart v) @ cs\<rparr>"
  by (simp_all add: sent_def)

text \<open>
  From \<open>s\<close> to \<open>t\<close> the interrupts \<open>fs\<close> have been taken and \<open>line\<close> has been sent over COM1, with any
  printing in between: the tick counter and the acknowledgments follow the interrupts, keys have been
  queued behind those waiting, and nothing else has changed.
\<close>

definition after_irqs :: "chips \<Rightarrow> interrupt_frame list \<Rightarrow> u8 list \<Rightarrow> kernel \<Rightarrow> kernel \<Rightarrow> bool" where
  "after_irqs c fs line s t \<longleftrightarrow> (irq_handlers s = wired \<and> ring_inv s \<longrightarrow>
     irq_handlers t = wired \<and> ring_inv t \<and> s_ticks t = s_ticks s + of_nat (timer_count fs)
     \<and> c_master (view c t) = (c_master (view c s))\<lparr>eois := eois (c_master (view c s)) + length (filter is_irq fs)\<rparr>
     \<and> c_slave (view c t) = (c_slave (view c s))\<lparr>eois := eois (c_slave (view c s)) + length (filter is_slave_irq fs)\<rparr>
     \<and> c_pit (view c t) = c_pit (view c s)
     \<and> c_uart (view c t) = (c_uart (view c s))\<lparr>u_sent := u_sent (c_uart (view c s)) @ line\<rparr>
     \<and> same_system s t
     \<and> (0 \<notin> set (key_queue s) \<longrightarrow> (\<exists>cs. key_queue t = key_queue s @ cs \<and> 0 \<notin> set cs)))"

lemma after_trans:
  assumes "after_irqs c fs l s t" "after_irqs c gs k t u"
  shows "after_irqs c (fs @ gs) (l @ k) s u"
proof (cases "irq_handlers s = wired \<and> ring_inv s")
  case True
  note a = assms(1) [unfolded after_irqs_def, rule_format, OF True]
  then have "irq_handlers t = wired \<and> ring_inv t" by blast
  note b = assms(2) [unfolded after_irqs_def, rule_format, OF this]
  have q: "\<exists>cs. key_queue u = key_queue s @ cs \<and> 0 \<notin> set cs" if z: "0 \<notin> set (key_queue s)"
  proof -
    obtain cs where cs: "key_queue t = key_queue s @ cs" "0 \<notin> set cs" using a z by blast
    then obtain ds where "key_queue u = key_queue t @ ds" "0 \<notin> set ds" using b z by auto
    with cs show ?thesis by auto
  qed
  from a b q same_system_trans [of s t u] show ?thesis
    unfolding after_irqs_def by (simp add: add.assoc del: view_simps)
qed (auto simp: after_irqs_def)

text \<open>Sending a line, or nothing.\<close>

lemma after_line:
  assumes "view c t = sent l (view c s)"
  shows "after_irqs c [] l s t"
proof -
  have "core t = core s" using assms by (metis view_simps(5) view_sent(4))
  then have same: "x (core t) = x (core s)" for x :: "kernel \<Rightarrow> 'z" by simp
  have "irq_handlers t = irq_handlers s" "ring_inv t = ring_inv s" "s_ticks t = s_ticks s" "key_queue t = key_queue s"
    "same_system s t"
    using same [of if_flag] same [of irq_handlers] same [of k_head] same [of k_tail] same [of k_buf] same [of cpu_idtr]
      same [of idt] same [of s_ticks] same [of k_pmm] same [of k_heap]
    by (simp_all add: ring_inv_def key_queue_def same_system_def)
  then show ?thesis by (simp add: after_irqs_def assms del: view_simps)
qed

lemma after_quiet: "view c t = view c s \<Longrightarrow> after_irqs c [] [] s t"
  by (rule after_line) (simp add: sent_def)

lemma after_take: "after_irqs c fs [] s (take_irqs dev fs s)"
proof -
  define t where "t = take_irqs dev fs s"
  have t: "t = fold (irq_dispatch dev) fs s" by (simp add: t_def take_irqs_def)
  have "keyboard.more t = keyboard.more s" by (simp add: t_def take_irqs_frame)
  then have "k_pmm t = k_pmm s" "k_heap t = k_heap s" "if_flag t = if_flag s" by (cases t, cases s, simp)+
  then have ss: "same_system s t" by (simp add: same_system_def t_def take_irqs_frame)
  have "after_irqs c fs [] s t"
  proof (cases "irq_handlers s = wired \<and> ring_inv s")
    case True
    then have "irq_handlers s = wired" "ring_inv s" by simp_all
    note f = irq_fold [OF this t] and q = take_irqs_queue [OF this, of dev fs, folded t_def]
    show ?thesis
      using f [of "c_master c"] f [of "c_slave c"] q ss
      by (simp add: after_irqs_def) (simp add: t_def take_irqs_frame)
  qed (auto simp: after_irqs_def)
  then show ?thesis by (simp add: t_def)
qed

text \<open>The last stage: the two lines are unmasked, interrupts are enabled and arrive.\<close>

definition live_line :: "u8 list" where
  "live_line = cstr (''nadir: interrupts enabled (IRQs 0-1)'' @ [CHR 0x0A])"

lemma boot_irqs_append: "boot_irqs irqs =
  irqs 0 @ irqs 1 @ irqs 2 @ irqs 3 @ irqs 4 @ irqs 5 @ irqs 6 @ irqs 7"
proof -
  have "[0..<8] = [0, 1, 2, 3, 4, 5, 6, 7 :: nat]" by (simp add: upt_conv_Cons)
  then show ?thesis by (simp only: boot_irqs_def) simp
qed

text \<open>The log lines behind the serial announcement.\<close>

definition live_tail :: "device \<Rightarrow> (nat \<Rightarrow> interrupt_frame list) \<Rightarrow> kernel \<Rightarrow> kernel" where
  "live_tail dev irqs s = take_irqs dev (irqs 7)
     (klog (cstr ''nadir'') (cstr ''halting in hlt loop (timer + keyboard live)'') (take_irqs dev (irqs 6)
     (klog_end (take_irqs dev (irqs 5) (klog_hex64 PROOF_VALUE (take_irqs dev (irqs 4)
     (klog_str (cstr ''64-bit proof value: '') (take_irqs dev (irqs 3) (klog_begin (cstr ''nadir'')
     (take_irqs dev (irqs 2) s))))))))))"

lemma kmain_live_unfold: "kmain_live dev present irqs s =
  andthen (serial_line dev present (''nadir: interrupts enabled (IRQs 0-1)'' @ [CHR 0x0A])
    (take_irqs dev (irqs 1) (klog (cstr ''nadir'') (cstr ''interrupts enabled (IRQs 0-1)'')
      (take_irqs dev (irqs 0) ((pic_unmask dev 1 (pic_unmask dev 0 s))\<lparr>if_flag := True\<rparr>)))))
    (\<lambda>s. returns (live_tail dev irqs s))"
  by (simp add: kmain_live_def live_tail_def Let_def)

lemma after_then_quiet: "after_irqs c fs l s t \<Longrightarrow> view c u = view c t \<Longrightarrow> after_irqs c fs l s u"
  using after_trans [OF _ after_quiet, of c fs l s t u] by simp

lemma after_then_take: "after_irqs c fs l s t \<Longrightarrow> after_irqs c (fs @ gs) l s (take_irqs dev gs t)"
  using after_trans [OF _ after_take, of c fs l s t gs dev] by simp

lemma after_live_tail: "after_irqs c (irqs 2 @ irqs 3 @ irqs 4 @ irqs 5 @ irqs 6 @ irqs 7) [] s (live_tail dev irqs s)"
proof -
  have "after_irqs c ((((((irqs 2 @ irqs 3) @ irqs 4) @ irqs 5) @ irqs 6)) @ irqs 7) [] s (live_tail dev irqs s)"
    unfolding live_tail_def
    by (rule after_then_take after_then_quiet [OF _ view_printing(2)] after_then_quiet [OF _ view_printing(3)]
        after_then_quiet [OF _ view_printing(4)] after_then_quiet [OF _ view_printing(5)]
        after_then_quiet [OF _ view_printing(6)] after_then_quiet [OF _ view_printing(7)] after_then_quiet [OF _ view_printing(8)] after_take | simp)+
  then show ?thesis by simp
qed

lemma kmain_live_view:
  assumes rb: "pic_readback (c_master c) (c_slave c) dev" and ut: "uart_drains dev"
    and m: "phase (c_master (view c s)) = Operating" and u: "\<not> bit (u_lcr (c_uart (view c s))) 7"
  shows "\<exists>s1 t. kmain_live dev present irqs s = returns t
    \<and> view c s1 = (view c s)\<lparr>c_master := unmasked 1 (unmasked 0 (c_master (view c s))),
        v_core := (v_core (view c s))\<lparr>if_flag := True\<rparr>\<rparr>
    \<and> after_irqs c (boot_irqs irqs) (if present then live_line else []) s1 t"
proof -
  define s1 where "s1 = (pic_unmask dev 1 (pic_unmask dev 0 s))\<lparr>if_flag := True\<rparr>"
  define a where "a = klog (cstr ''nadir'') (cstr ''interrupts enabled (IRQs 0-1)'') (take_irqs dev (irqs 0) s1)"
  define s2 where "s2 = take_irqs dev (irqs 1) a"
  have "phase (c_master (view c (pic_unmask dev 0 s))) = Operating"
    using view_pic_unmask [OF rb _ m, of 0] m by (simp add: unmasked_def del: view_simps)
  then have v1: "view c s1 = (view c s)\<lparr>c_master := unmasked 1 (unmasked 0 (c_master (view c s))),
        v_core := (v_core (view c s))\<lparr>if_flag := True\<rparr>\<rparr>"
    using view_pic_unmask [OF rb _ m, of 0] view_pic_unmask [OF rb, of 1 "pic_unmask dev 0 s"]
    by (simp add: s1_def view_upd del: view_simps)
  have a: "view c a = view c (take_irqs dev (irqs 0) s1)" by (simp add: a_def view_printing del: view_simps)
  have "after_irqs c (irqs 0 @ irqs 1) [] s1 s2"
    unfolding s2_def by (rule after_then_take [OF after_then_quiet [OF after_take a]])
  moreover have "c_uart (view c s2) = c_uart (view c s1)"
    using arg_cong [OF a, of c_uart] by (simp add: s2_def take_irqs_frame)
  then have "\<not> bit (u_lcr (c_uart (view c s2))) 7" using u by (simp add: v1 del: view_simps)
  then obtain s3 where s3: "serial_line dev present (''nadir: interrupts enabled (IRQs 0-1)'' @ [CHR 0x0A]) s2 = returns s3"
    "view c s3 = sent (if present then live_line else []) (view c s2)"
    using serial_line_view [OF ut, of "''nadir: interrupts enabled (IRQs 0-1)'' @ [CHR 0x0A]" c s2 present]
    by (auto simp: live_line_def)
  ultimately have "after_irqs c (((irqs 0 @ irqs 1) @ []) @ irqs 2 @ irqs 3 @ irqs 4 @ irqs 5 @ irqs 6 @ irqs 7)
      (([] @ (if present then live_line else [])) @ []) s1 (live_tail dev irqs s3)"
    by (intro after_trans [OF after_trans [OF _ after_line] after_live_tail])
  moreover have "kmain_live dev present irqs s = returns (live_tail dev irqs s3)"
    using s3(1) unfolding kmain_live_unfold s1_def [symmetric] a_def [symmetric] s2_def [symmetric] by simp
  ultimately show ?thesis using v1 by (intro exI [of _ s1] exI [of _ "live_tail dev irqs s3"]) (simp add: boot_irqs_append)
qed

section \<open>The whole boot\<close>

text \<open>The state when interrupts are enabled.\<close>

definition boot_pmm :: "link_layout \<Rightarrow> kernel \<Rightarrow> pmm" where
  "boot_pmm lay s = pmm_init (kernel_start lay) (kernel_end lay) (memmap_count s) (Some (memmap_entries s)) (k_pmm s)"

definition booted :: "link_layout \<Rightarrow> u8 list \<Rightarrow> pmm \<Rightarrow> heap \<Rightarrow> kview \<Rightarrow> kview" where
  "booted lay lines q h v = (let w = devices_ready lay lines v
     in w\<lparr>c_master := unmasked 1 (unmasked 0 (c_master w)),
          v_core := (v_core w)\<lparr>k_pmm := q, k_heap := h, if_flag := True\<rparr>\<rparr>)"

lemma kmain_boot_stages:
  assumes rb: "pic_readback (c_master c) (c_slave c) dev" and ut: "uart_drains dev" and s0: "s_initialized s = 0"
  obtains present a d t log s1 q h fl where "kmain_devices dev lay s = returns (present, a)"
    "kmain_heap (kmain_memory lay a) = returns d" "kmain_live dev present irqs d = returns t"
    "present = (dev log COM_LSR \<noteq> 0xFF)"
    "view c a = devices_ready lay (if present then device_lines else []) (view c s)"
    "view c d = (view c a)\<lparr>v_core := (v_core (view c a))\<lparr>k_pmm := q, k_heap := h\<rparr>\<rparr>"
    "view c s1 = booted lay (if present then device_lines else []) q h (view c s)"
    "after_irqs c (boot_irqs irqs) (if present then live_line else []) s1 t"
    "heap_inv h fl []" "pmm_inv q" "length (all_frames fl) \<le> 64"
    "set (all_frames fl) \<union> free_frames q \<subseteq> free_frames (boot_pmm lay s)"
    "set (all_frames fl) \<inter> free_frames q = {}"
proof -
  have "s_initialized (v_core (view c s)) = 0" using s0 by simp
  from kmain_devices_view [OF rb ut this] obtain present a log where a: "kmain_devices dev lay s = returns (present, a)"
    "view c a = devices_ready lay (if present then device_lines else []) (view c s)"
    "present = (dev log COM_LSR \<noteq> 0xFF)" by blast
  define b where "b = kmain_memory lay a"
  have b: "view c b = (view c a)\<lparr>v_core := (v_core (view c a))\<lparr>k_pmm := boot_pmm lay s\<rparr>\<rparr>"
    unfolding b_def kmain_memory_view a(2) by (simp add: devices_ready_def boot_pmm_def)
  have p: "k_pmm (v_core (view c b)) = boot_pmm lay s" by (simp add: b del: view_simps)
  have "pmm_inv (boot_pmm lay s)"
    using pmm_init_spec [of "kernel_start lay" "kernel_end lay" "memmap_count s" "Some (memmap_entries s)" "k_pmm s"]
    by (simp add: boot_pmm_def pmm_inv_def)
  then obtain d q h fl where d: "kmain_heap b = returns d"
    "view c d = (view c b)\<lparr>v_core := (v_core (view c b))\<lparr>k_pmm := q, k_heap := h\<rparr>\<rparr>"
    and mem: "heap_inv h fl []" "pmm_inv q" "length (all_frames fl) \<le> 64"
      "set (all_frames fl) \<union> free_frames q \<subseteq> free_frames (boot_pmm lay s)"
      "set (all_frames fl) \<inter> free_frames q = {}"
    using kmain_heap_view [of c b] unfolding p by metis
  have v: "phase (c_master (view c d)) = Operating" "\<not> bit (u_lcr (c_uart (view c d))) 7"
    by (simp_all add: d(2) b a(2) devices_ready_def unmasked_def remapped_def bit_numeral_simps del: view_simps)
  obtain s1 t where s1: "kmain_live dev present irqs d = returns t"
    "view c s1 = (view c d)\<lparr>c_master := unmasked 1 (unmasked 0 (c_master (view c d))),
        v_core := (v_core (view c d))\<lparr>if_flag := True\<rparr>\<rparr>"
    "after_irqs c (boot_irqs irqs) (if present then live_line else []) s1 t"
    using kmain_live_view [OF rb ut v] by blast
  have "view c s1 = booted lay (if present then device_lines else []) q h (view c s)"
    by (simp add: s1(2) d(2) b a(2) booted_def Let_def devices_ready_def del: view_simps)
  moreover have "view c d = (view c a)\<lparr>v_core := (v_core (view c a))\<lparr>k_pmm := q, k_heap := h\<rparr>\<rparr>"
    by (simp add: d(2) b del: view_simps)
  ultimately show ?thesis using that a d(1) s1(1,3) mem unfolding b_def by blast
qed

lemma kmain_boot_state:
  assumes rb: "pic_readback (c_master c) (c_slave c) dev" and ut: "uart_drains dev" and s0: "s_initialized s = 0"
  obtains present t log s1 q h fl where "kmain_boot dev lay irqs s = returns (present, t)"
    "present = (dev log COM_LSR \<noteq> 0xFF)"
    "view c s1 = booted lay (if present then device_lines else []) q h (view c s)"
    "after_irqs c (boot_irqs irqs) (if present then live_line else []) s1 t"
    "heap_inv h fl []" "pmm_inv q" "length (all_frames fl) \<le> 64"
    "set (all_frames fl) \<union> free_frames q \<subseteq> free_frames (boot_pmm lay s)"
    "set (all_frames fl) \<inter> free_frames q = {}"
proof -
  obtain present a d t log s1 q h fl where r: "kmain_devices dev lay s = returns (present, a)"
    "kmain_heap (kmain_memory lay a) = returns d" "kmain_live dev present irqs d = returns t"
    and f: "present = (dev log COM_LSR \<noteq> 0xFF)"
    "view c s1 = booted lay (if present then device_lines else []) q h (view c s)"
    "after_irqs c (boot_irqs irqs) (if present then live_line else []) s1 t"
    "heap_inv h fl []" "pmm_inv q" "length (all_frames fl) \<le> 64"
    "set (all_frames fl) \<union> free_frames q \<subseteq> free_frames (boot_pmm lay s)"
    "set (all_frames fl) \<inter> free_frames q = {}"
    by (rule kmain_boot_stages [OF assms])
  have "kmain_boot dev lay irqs s = returns (present, t)" using r by (simp add: kmain_boot_def)
  from that [OF this f] show ?thesis .
qed

lemma boot_masks:
  "imr (unmasked 1 (unmasked 0 (unmasked 1 (remapped b k m)))) = 0xFC" "imr (remapped b k m) = 0xFF"
  by (simp_all add: unmasked_def remapped_def)

lemma boot_mask_bits: "j < 8 \<Longrightarrow> bit (0xFC :: u8) j \<longleftrightarrow> 2 \<le> j" "j < 8 \<Longrightarrow> bit (0xFF :: u8) j"
proof -
  assume "j < 8"
  then have "j \<in> {0, 1, 2, 3, 4, 5, 6, 7}" by auto
  then show "bit (0xFC :: u8) j \<longleftrightarrow> 2 \<le> j" "bit (0xFF :: u8) j" by (auto simp: bit_numeral_simps)
qed

lemma booted_wired:
  assumes "view c s1 = booted lay lines q h (view c s)" "irq_handlers s = (\<lambda>_. None)"
  shows "irq_handlers s1 = wired" "ring_inv s1" "key_queue s1 = []" "s_ticks s1 = s_ticks s"
proof -
  have c: "core s1 = v_core (booted lay lines q h (view c s))" using assms(1) by (metis view_simps(5))
  have "irq_handlers (core s1) = wired" "k_head (core s1) = 0" "k_tail (core s1) = 0" "s_ticks (core s1) = s_ticks s"
    unfolding c using assms(2) by (simp_all add: booted_def Let_def devices_ready_def wired_def)
  then show "irq_handlers s1 = wired" "ring_inv s1" "key_queue s1 = []" "s_ticks s1 = s_ticks s"
    by (simp_all add: ring_inv_def key_queue_def ring_list_def ring_len_def)
qed

text \<open>The kernel at the main loop, in terms of the one that was started.\<close>

lemma booted_after_irqs:
  assumes v1: "view c s1 = booted lay lines q h (view c s)" and "irq_handlers s = (\<lambda>_. None)"
    and vt: "after_irqs c irqs line s1 t"
  shows "irq_handlers t = wired" "ring_inv t" "if_flag t" "idt t = boot_gates lay (idt s)"
    "cpu_idtr t = \<lparr>idtr_limit = 0xFFF, idtr_base = idt_address lay\<rparr>" "k_pmm t = q" "k_heap t = h"
    "s_ticks t = s_ticks s + of_nat (length (filter (\<lambda>f. unat (f_vector f) = 32) irqs))"
    "master (c_master c) (io_log t) = (unmasked 1 (unmasked 0 (unmasked 1 (remapped 32 4 (master (c_master c) (io_log s))))))
      \<lparr>eois := eois (master (c_master c) (io_log s)) + length (filter is_irq irqs)\<rparr>"
    "slave (c_slave c) (io_log t) = (remapped 40 2 (slave (c_slave c) (io_log s)))
      \<lparr>eois := eois (slave (c_slave c) (io_log s)) + length (filter is_slave_irq irqs)\<rparr>"
    "pit_channel0 (c_pit c) (io_log t)
      = (pit_channel0 (c_pit c) (io_log s))\<lparr>pit_access := 3, pit_mode := 3, pit_low := None, pit_count := 11931\<rparr>"
    "u_sent (uart_of (c_uart c) (io_log t)) = u_sent (uart_of (c_uart c) (io_log s)) @ lines @ line"
    "\<not> bit (u_lcr (uart_of (c_uart c) (io_log t))) 7" "0 \<notin> set (key_queue t)"
proof -
  note w = booted_wired [OF v1 assms(2)]
  have "irq_handlers s1 = wired \<and> ring_inv s1" using w by simp
  note r = vt [unfolded after_irqs_def, rule_format, OF this]
  have "core s1 = v_core (booted lay lines q h (view c s))" using v1 by (metis view_simps(5))
  then have c1: "x (core s1) = x (v_core (booted lay lines q h (view c s)))" for x :: "kernel \<Rightarrow> 'z" by simp
  have "idt s1 = boot_gates lay (idt s)" "cpu_idtr s1 = \<lparr>idtr_limit = 0xFFF, idtr_base = idt_address lay\<rparr>"
    "if_flag s1" "k_pmm s1 = q" "k_heap s1 = h"
    using c1 [of idt] c1 [of cpu_idtr] c1 [of if_flag] c1 [of k_pmm] c1 [of k_heap]
    by (simp_all add: booted_def Let_def devices_ready_def)
  with r w(4) show "irq_handlers t = wired" "ring_inv t" "if_flag t" "idt t = boot_gates lay (idt s)"
    "cpu_idtr t = \<lparr>idtr_limit = 0xFFF, idtr_base = idt_address lay\<rparr>" "k_pmm t = q" "k_heap t = h"
    "s_ticks t = s_ticks s + of_nat (length (filter (\<lambda>f. unat (f_vector f) = 32) irqs))"
    by (simp_all add: same_system_def)
  show "0 \<notin> set (key_queue t)" using r w(3) by auto
  note chips = r [THEN conjunct2, THEN conjunct2, THEN conjunct2, unfolded v1]
  then show "master (c_master c) (io_log t) = (unmasked 1 (unmasked 0 (unmasked 1 (remapped 32 4 (master (c_master c) (io_log s))))))
      \<lparr>eois := eois (master (c_master c) (io_log s)) + length (filter is_irq irqs)\<rparr>"
    "slave (c_slave c) (io_log t) = (remapped 40 2 (slave (c_slave c) (io_log s)))
      \<lparr>eois := eois (slave (c_slave c) (io_log s)) + length (filter is_slave_irq irqs)\<rparr>"
    "pit_channel0 (c_pit c) (io_log t)
      = (pit_channel0 (c_pit c) (io_log s))\<lparr>pit_access := 3, pit_mode := 3, pit_low := None, pit_count := 11931\<rparr>"
    "u_sent (uart_of (c_uart c) (io_log t)) = u_sent (uart_of (c_uart c) (io_log s)) @ lines @ line"
    "\<not> bit (u_lcr (uart_of (c_uart c) (io_log t))) 7"
    by (simp_all add: booted_def Let_def devices_ready_def remapped_def unmasked_def bit_numeral_simps)
qed

lemma boot_lines_masked:
  assumes "imr (master m log) = 0xFC" "imr (slave sl log) = 0xFF" "j < 16"
  shows "line_masked m sl log j \<longleftrightarrow> 2 \<le> j"
  using assms boot_mask_bits [of j] boot_mask_bits [of "j - 8"] by (auto simp: line_masked_def)

end
