(* ===== verification/Kmain_Screen.thy ===== *)
theory Kmain_Screen
  imports Kmain_Booted
begin

unbundle bit_operations_syntax

text \<open>
  What the boot sequence puts on the screen.  Everything it prints goes through the console, so the
  screen is that of a terminal fed one text: the text of each stage is written down in closed form
  and followed through the operations of the boot.
\<close>

section \<open>Printing a text\<close>

text \<open>\<open>t\<close> is \<open>s\<close> after printing \<open>cs\<close>, with the tick counter at \<open>T\<close>.\<close>

definition prints :: "u64 \<Rightarrow> kernel \<Rightarrow> u8 list \<Rightarrow> kernel \<Rightarrow> bool" where
  "prints T s cs t \<longleftrightarrow> (s_ticks s = T \<and> console_inv s \<longrightarrow>
     s_ticks t = T \<and> console_inv t \<and> tty_of t = fold tty_putchar cs (tty_of s))"

lemma prints_trans [trans]: "prints T s a t \<Longrightarrow> prints T t b u \<Longrightarrow> prints T s (a @ b) u"
  by (simp add: prints_def)

lemma prints_then: "prints T s a t \<Longrightarrow> prints T t b u \<Longrightarrow> c = a @ b \<Longrightarrow> prints T s c u"
  by (simp add: prints_trans)

lemma prints_silent:
  "s_ticks t = s_ticks s \<Longrightarrow> tty_of t = tty_of s \<Longrightarrow> console_inv t = console_inv s \<Longrightarrow> prints T s [] t"
  by (simp add: prints_def)

lemma s_ticks_puts [simp]: "s_ticks (console_puts cs s) = s_ticks s" for s :: kernel
  by (rule console_more_fields(4)) simp

lemma prints_puts: "0 \<notin> set cs \<Longrightarrow> prints T s cs (console_puts cs s)"
  by (simp add: prints_def tty_of_puts)

lemma prints_klog_begin: "0 \<notin> set sub \<Longrightarrow> prints T s (prefix_text (unat T) sub) (klog_begin sub s)"
  using prints_puts [OF prefix_text_no_nul [of sub "unat T"], of T s]
  by (auto simp: prints_def klog_begin_def klog_prefix_puts)

lemma prints_klog_str: "0 \<notin> set cs \<Longrightarrow> prints T s cs (klog_str cs s)"
  by (simp add: klog_str_def prints_puts)

lemma prints_klog_dec: "prints T s (nat_dec (unat v)) (klog_dec v s)"
  by (simp add: klog_dec_puts prints_puts nat_dec_no_nul)

lemma prints_klog_hex64: "prints T s (cstr ''0x'' @ hex_string 16 v) (klog_hex64 v s)"
  by (simp add: klog_hex64_def console_puthex64_puts prints_puts hex_string_no_nul)

lemma prints_klog_end: "prints T s [0x0A] (klog_end s)"
  using prints_puts [of "[0x0A]" T s] by (simp add: klog_end_def)

lemma prints_klog: "0 \<notin> set sub \<Longrightarrow> 0 \<notin> set msg \<Longrightarrow> prints T s (line_text T sub msg) (klog sub msg s)"
  unfolding klog_def line_text_def
  by (rule prints_trans [OF prints_klog_begin prints_trans [OF prints_klog_str prints_klog_end]])

text \<open>Port traffic and the initialization steps print nothing.\<close>

lemma prints_ports:
  fixes s t :: kernel
  assumes "ports.more t = ports.more s"
  shows "prints T s [] t"
  using assms by (intro prints_silent) (cases s; cases t; simp add: tty_of_def console_inv_def)+

lemma prints_idt:
  "prints T s [] (idt_init isr addr s)" "prints T s [] (idt_install_irqs irq s)"
  by (rule prints_silent; simp add: idt_init_eq idt_install_irqs_eq tty_of_def console_inv_def)+

lemma prints_pic: "prints T s [] (pic_remap s)" "prints T s [] (pic_unmask dev irq s)"
  by (rule prints_ports; simp add: pic_remap_def pic_unmask_def Let_def split_beta)+

lemma prints_pit_init: "prints T s [] (pit_init s)"
  by (rule prints_silent; simp add: pit_init_def Let_def irq_register_handler_def outb_def tty_of_def console_inv_def)

lemma prints_serial: "prints T s [] (serial_init s)" "prints T s [] (snd (serial_ok dev s))"
  by (rule prints_ports; simp add: serial_init_def serial_ok_def Let_def split_beta)+

lemma prints_keyboard_init: "prints T s [] (keyboard_init dev s)" for s :: kernel
  unfolding keyboard_init_def Let_def
  by (rule prints_then [OF prints_silent prints_pic(2)])
    (simp_all add: irq_register_handler_def tty_of_def console_inv_def)

lemma prints_serial_line:
  assumes "uart_drains dev" "0 \<notin> set (cstr msg)" "serial_line dev present msg s = returns t"
  shows "prints T s [] t"
proof (cases present)
  case True
  with serial_puts_loop_sends [OF assms(1,2), of s] assms(3) show ?thesis
    by (intro prints_ports) (auto simp: serial_line_def serial_puts_def returns_def)
next
  case False
  with assms(3) show ?thesis by (intro prints_ports) (simp add: serial_line_def returns_def)
qed

section \<open>The text of the boot\<close>

definition device_text :: "u64 \<Rightarrow> u8 list" where
  "device_text T =
     line_text T (cstr ''nadir'') (cstr ''Hello World from Nadir kernel (64-bit long mode, Ring 0)'')
   @ line_text T (cstr ''idt'') (cstr ''exceptions 0-31 installed'')
   @ line_text T (cstr ''pic'') (cstr ''remapped IRQ 0-15 to vectors 32-47'')
   @ line_text T (cstr ''idt'') (cstr ''IRQ gates 32-47 installed'')
   @ line_text T (cstr ''serial'') (cstr ''COM1 38400 8N1 ready'')
   @ line_text T (cstr ''pit'') (cstr ''100Hz on IRQ0'')
   @ line_text T (cstr ''keyboard'') (cstr ''PS/2 ready on IRQ1'')"

definition memory_text :: "u64 \<Rightarrow> u32 \<Rightarrow> pmm \<Rightarrow> u8 list" where
  "memory_text T n p =
     prefix_text (unat T) (cstr ''pmm'') @ cstr ''E820 entries '' @ nat_dec (unat n)
   @ cstr '', usable frames '' @ nat_dec (unat (pmm_usable_count p))
   @ cstr '' / total frames '' @ nat_dec 262144
   @ cstr '', free frames '' @ nat_dec (unat (pmm_free_count p))
   @ cstr '', reserved '' @ nat_dec (unat (pmm_usable_count p - pmm_free_count p)) @ [0x0A]"

definition heap_text :: "u64 \<Rightarrow> heap \<Rightarrow> u8 list" where
  "heap_text T h =
     prefix_text (unat T) (cstr ''kmalloc'') @ cstr ''self-test ''
   @ cstr (if 4 \<le> unat (kmalloc_free_frames h) then ''ok'' else ''FAILED'')
   @ cstr '', free frames '' @ nat_dec (unat (kmalloc_free_frames h))
   @ cstr '', used frames '' @ nat_dec (unat (kmalloc_used_frames h)) @ [0x0A]"

text \<open>The last lines are printed with interrupts enabled, each with a time stamp of its own.\<close>

definition live_text :: "u64 \<Rightarrow> u64 \<Rightarrow> u64 \<Rightarrow> u8 list" where
  "live_text T1 T2 T3 =
     line_text T1 (cstr ''nadir'') (cstr ''interrupts enabled (IRQs 0-1)'')
   @ line_text T2 (cstr ''nadir'') (cstr ''64-bit proof value: 0x0123456789ABCDEF'')
   @ line_text T3 (cstr ''nadir'') (cstr ''halting in hlt loop (timer + keyboard live)'')"

text \<open>The timer interrupts at the points up to \<open>k\<close> of the last stage.\<close>

definition ticks_until :: "(nat \<Rightarrow> interrupt_frame list) \<Rightarrow> nat \<Rightarrow> nat" where
  "ticks_until irqs k = timer_count (concat (map irqs [0..<Suc k]))"

section \<open>The stages\<close>

lemma prints_snoc: "prints T t b u \<Longrightarrow> prints T s a t \<Longrightarrow> prints T s (a @ b) u"
  by (rule prints_trans)

lemma prints_quietly: "prints T t [] u \<Longrightarrow> prints T s a t \<Longrightarrow> prints T s a u"
  using prints_trans by fastforce

lemma andthen_returns: "andthen m f = returns y \<longleftrightarrow> (\<exists>x. m = returns x \<and> f x = returns y)"
  by (auto simp: andthen_def returns_def split: option.splits sum.splits)

lemma kmain_devices_prints:
  assumes "uart_drains dev" "kmain_devices dev lay s = returns (present, t)"
  shows "prints T (console_clear s) (device_text T) t"
proof -
  define s1 where "s1 = snd (tables_loaded dev lay s)"
  obtain s2 s4 where s2: "serial_line dev present (''Hello World from Nadir kernel'' @ [CHR 0x0A]) s1 = returns s2"
    and s4: "serial_line dev present (''pit: 100Hz on IRQ0'' @ [CHR 0x0A])
      (klog (cstr ''pit'') (cstr ''100Hz on IRQ0'') (pit_init s2)) = returns s4"
    and t: "serial_line dev present (''keyboard: PS/2 ready on IRQ1'' @ [CHR 0x0A])
      (klog (cstr ''keyboard'') (cstr ''PS/2 ready on IRQ1'') (keyboard_init dev s4)) = returns t"
    using assms(2) unfolding kmain_devices_unfold s1_def
    by (auto simp: andthen_returns split_beta) (simp add: returns_def)
  have "prints T (console_clear s)
      ((((line_text T (cstr ''nadir'') (cstr ''Hello World from Nadir kernel (64-bit long mode, Ring 0)'')
      @ line_text T (cstr ''idt'') (cstr ''exceptions 0-31 installed''))
      @ line_text T (cstr ''pic'') (cstr ''remapped IRQ 0-15 to vectors 32-47''))
      @ line_text T (cstr ''idt'') (cstr ''IRQ gates 32-47 installed''))
      @ line_text T (cstr ''serial'') (cstr ''COM1 38400 8N1 ready'')) s1"
    unfolding s1_def tables_loaded_def Let_def snd_conv
    by (rule prints_snoc prints_klog prints_quietly [OF prints_serial(2)] prints_quietly [OF prints_serial(1)]
        prints_quietly [OF prints_pic(1)] prints_quietly [OF prints_idt(2)] prints_quietly [OF prints_idt(1)] | simp)+
  note p1 = prints_quietly [OF prints_serial_line [OF assms(1) _ s2] this]
  note p2 = prints_snoc [OF prints_klog prints_quietly [OF prints_pit_init p1], of "cstr ''pit''" "cstr ''100Hz on IRQ0''"]
  note p3 = prints_quietly [OF prints_serial_line [OF assms(1) _ s4] p2]
  note p4 = prints_snoc [OF prints_klog prints_quietly [OF prints_keyboard_init p3], of "cstr ''keyboard''" "cstr ''PS/2 ready on IRQ1''"]
  note p5 = prints_quietly [OF prints_serial_line [OF assms(1) _ t] p4]
  show ?thesis using p5 by (simp add: device_text_def)
qed

text \<open>The log operations leave the memory variables alone.\<close>

lemma quiet_memory:
  fixes s t :: kernel
  assumes "quiet s t"
  shows "k_pmm t = k_pmm s" "k_heap t = k_heap s" "memmap_count t = memmap_count s"
proof -
  have m: "console.more t = console.more s" using assms by (simp add: quiet_def)
  show "k_pmm t = k_pmm s" "k_heap t = k_heap s" by (rule console_more_fields [OF m])+
  show "memmap_count t = memmap_count s" using m by (cases s; cases t; simp)
qed

lemmas log_memory = quiet_klog(1) [THEN quiet_memory(1)] quiet_klog(1) [THEN quiet_memory(2)] quiet_klog(1) [THEN quiet_memory(3)]
  quiet_klog(2) [THEN quiet_memory(1)] quiet_klog(2) [THEN quiet_memory(2)] quiet_klog(2) [THEN quiet_memory(3)]
  quiet_klog(4) [THEN quiet_memory(1)] quiet_klog(4) [THEN quiet_memory(2)] quiet_klog(4) [THEN quiet_memory(3)]
  quiet_klog_line(1) [THEN quiet_memory(1)] quiet_klog_line(1) [THEN quiet_memory(2)] quiet_klog_line(1) [THEN quiet_memory(3)]

lemma kmain_memory_prints:
  assumes "p = pmm_init (kernel_start lay) (kernel_end lay) (memmap_count s) (Some (memmap_entries s)) (k_pmm s)"
  shows "prints T s (memory_text T (memmap_count s) p) (kmain_memory lay s) \<and> k_pmm (kmain_memory lay s) = p"
proof -
  define s1 where "s1 = s\<lparr>k_pmm := p\<rparr>"
  have s1: "k_pmm s1 = p" "memmap_count s1 = memmap_count s" by (simp_all add: s1_def)
  have eq: "kmain_memory lay s = klog_end (klog_dec (pmm_usable_count p - pmm_free_count p) (klog_str (cstr '', reserved '')
      (klog_dec (pmm_free_count p) (klog_str (cstr '', free frames '') (klog_dec pmm_total_count
      (klog_str (cstr '' / total frames '') (klog_dec (pmm_usable_count p) (klog_str (cstr '', usable frames '')
      (klog_dec (ucast (memmap_count s)) (klog_str (cstr ''E820 entries '') (klog_begin (cstr ''pmm'') s1)))))))))))"
    unfolding kmain_memory_def assms [symmetric] s1_def [symmetric] Let_def by (simp add: log_memory s1)
  have n: "unat (ucast (memmap_count s) :: u64) = unat (memmap_count s)" "unat pmm_total_count = 262144"
    using unsigned_less [of "memmap_count s", where 'a = nat]
    by (simp_all add: unsigned_ucast_eq take_bit_eq_mod pmm_total_count_def PMM_MAX_FRAMES_def PMM_MAX_BYTES_def
        PMM_FRAME_SIZE_def)
  have "prints T s [] s1" by (rule prints_silent) (simp_all add: s1_def tty_of_def console_inv_def)
  from prints_trans [OF this prints_klog_begin, of "cstr ''pmm''"]
  have b: "prints T s (prefix_text (unat T) (cstr ''pmm'')) (klog_begin (cstr ''pmm'') s1)" by simp
  have "prints T s (memory_text T (memmap_count s) p) (kmain_memory lay s)"
    unfolding memory_text_def eq append_assoc [symmetric] n(1) [symmetric] n(2) [symmetric]
    by (rule prints_snoc prints_klog_end prints_klog_dec prints_klog_str b | simp)+
  then show ?thesis by (simp add: eq log_memory s1)
qed

text \<open>On what \<open>kmalloc_init\<close> made of the frame allocator, the self-test passes with four frames or more.\<close>

lemma heap_self_test_splits:
  assumes "heap_inv h fl []" "fl = [] \<or> (\<exists>f n. fl = [(f, n)])"
  shows "\<exists>h' fl'. heap_self_test h = returns (4 \<le> unat (kmalloc_free_frames h'), h') \<and> heap_inv h' fl' []
    \<and> mset (all_frames fl') = mset (all_frames fl)"
proof -
  obtain h' fl' where r: "heap_self_test h = returns (4 \<le> length (all_frames fl), h')" "heap_inv h' fl' []"
    "mset (all_frames fl') = mset (all_frames fl)"
    using assms(2)
  proof
    assume "fl = []"
    with heap_self_test_outcome [OF assms(1)] that show ?thesis by fastforce
  next
    assume "\<exists>f n. fl = [(f, n)]"
    with heap_self_test_pool assms(1) that show ?thesis by (fastforce simp: run_list_def)
  qed
  have "unat (kmalloc_free_frames h') = length (all_frames fl')"
    using r(2) by (simp add: heap_inv_def kmalloc_free_frames_def)
  also have "\<dots> = length (all_frames fl)" using r(3) by (rule mset_eq_length)
  finally show ?thesis using r by (intro exI [of _ h'] exI [of _ fl']) simp
qed

lemma kmain_heap_prints:
  assumes "pmm_inv (k_pmm s)"
  shows "\<exists>t. kmain_heap s = returns t \<and> prints T s (heap_text T (k_heap t)) t"
proof -
  obtain q h1 fl where i: "kmalloc_init (k_pmm s) (k_heap s) = Inr (q, h1)" "heap_inv h1 fl []"
    "fl = [] \<or> (\<exists>f n. fl = [(f, n)])"
    by (rule kmalloc_init_splits [OF assms])
  obtain h where h: "heap_self_test h1 = returns (4 \<le> unat (kmalloc_free_frames h), h)"
    using heap_self_test_splits [OF i(2,3)] by blast
  define s1 where "s1 = s\<lparr>k_pmm := q, k_heap := h\<rparr>"
  have s1: "k_heap s1 = h" by (simp add: s1_def)
  define t where "t = klog_end (klog_dec (kmalloc_used_frames h) (klog_str (cstr '', used frames '')
    (klog_dec (kmalloc_free_frames h) (klog_str (cstr '', free frames '')
    (klog_str (cstr (if 4 \<le> unat (kmalloc_free_frames h) then ''ok'' else ''FAILED'')) (klog_str (cstr ''self-test '')
    (klog_begin (cstr ''kmalloc'') s1)))))))"
  have "kmain_heap s = returns t"
    using i(1) h unfolding kmain_heap_def t_def
    by (simp add: returns_def Let_def s1_def [symmetric] log_memory s1)
  moreover have "k_heap t = h" by (simp add: t_def log_memory s1)
  moreover have "prints T s (heap_text T h) t"
  proof -
    have "prints T s [] s1" by (rule prints_silent) (simp_all add: s1_def tty_of_def console_inv_def)
    from prints_trans [OF this prints_klog_begin, of "cstr ''kmalloc''"]
    have b: "prints T s (prefix_text (unat T) (cstr ''kmalloc'')) (klog_begin (cstr ''kmalloc'') s1)" by simp
    show ?thesis unfolding heap_text_def t_def append_assoc [symmetric]
      by (rule prints_snoc prints_klog_end prints_klog_dec prints_klog_str b | simp)+
  qed
  ultimately show ?thesis by blast
qed

lemma hex_string_numeral: "hex_string (numeral k) v =
  hex_digits ! (unat v div 16 ^ pred_numeral k mod 16) # hex_string (pred_numeral k) v"
  by (subst numeral_eq_Suc) (simp only: hex_string.simps nibble)

lemma proof_value_text: "cstr ''0x'' @ hex_string 16 PROOF_VALUE = cstr ''0x0123456789ABCDEF''"
proof -
  have "unat PROOF_VALUE = 0x0123456789ABCDEF" by (simp add: PROOF_VALUE_def)
  then show ?thesis by (simp add: hex_string_numeral nibble nibble [of 0, simplified] hex_digits_def cstr_def)
qed

text \<open>Printing while interrupts arrive: the tick counter moves from \<open>T\<close> to \<open>T'\<close>.\<close>

definition prints_live :: "u64 \<Rightarrow> kernel \<Rightarrow> u8 list \<Rightarrow> u64 \<Rightarrow> kernel \<Rightarrow> bool" where
  "prints_live T s cs T' t \<longleftrightarrow> (s_ticks s = T \<and> console_inv s \<and> irq_handlers s = wired \<and> ring_inv s \<longrightarrow>
     s_ticks t = T' \<and> console_inv t \<and> irq_handlers t = wired \<and> ring_inv t \<and> tty_of t = fold tty_putchar cs (tty_of s))"

lemma live_refl: "prints_live T s [] T s"
  by (simp add: prints_live_def)

lemma live_take: "prints_live T s cs T' t \<Longrightarrow> prints_live T s cs (T' + of_nat (timer_count fs)) (take_irqs dev fs t)"
  unfolding prints_live_def take_irqs_def
proof (intro impI)
  assume "s_ticks s = T \<and> console_inv s \<and> irq_handlers s = wired \<and> ring_inv s \<longrightarrow>
     s_ticks t = T' \<and> console_inv t \<and> irq_handlers t = wired \<and> ring_inv t \<and> tty_of t = fold tty_putchar cs (tty_of s)"
    and "s_ticks s = T \<and> console_inv s \<and> irq_handlers s = wired \<and> ring_inv s"
  then have t: "s_ticks t = T'" "console_inv t" "irq_handlers t = wired" "ring_inv t" "tty_of t = fold tty_putchar cs (tty_of s)"
    by simp_all
  with irq_fold [OF t(3,4) refl, of dev fs] show "s_ticks (fold (irq_dispatch dev) fs t) = T' + of_nat (timer_count fs)
    \<and> console_inv (fold (irq_dispatch dev) fs t) \<and> irq_handlers (fold (irq_dispatch dev) fs t) = wired
    \<and> ring_inv (fold (irq_dispatch dev) fs t) \<and> tty_of (fold (irq_dispatch dev) fs t) = fold tty_putchar cs (tty_of s)"
    by (simp add: tty_of_def console_inv_def)
qed

lemma live_print: "prints T' t b u \<Longrightarrow> console.more u = console.more t \<Longrightarrow> prints_live T s a T' t \<Longrightarrow>
  prints_live T s (a @ b) T' u"
  using console_more_fields(1,2) [of u t] by (auto simp: prints_live_def prints_def)

lemma quiet_more: "quiet s t \<Longrightarrow> console.more t = console.more s"
  by (simp add: quiet_def)

lemmas live_log = live_print [OF prints_klog quiet_klog_line(2) [THEN quiet_more]]
  live_print [OF prints_klog_end quiet_klog(4) [THEN quiet_more]]
  live_print [OF prints_klog_hex64 quiet_klog(3) [THEN quiet_more]]
  live_print [OF prints_klog_str quiet_klog(2) [THEN quiet_more]]
  live_print [OF prints_klog_begin quiet_klog_line(1) [THEN quiet_more]]

lemma serial_line_more:
  assumes "uart_drains dev" "0 \<notin> set (cstr msg)" "serial_line dev present msg s = returns t"
  shows "console.more t = console.more s"
proof (cases present)
  case True
  with serial_puts_loop_sends [OF assms(1,2), of s] assms(3) show ?thesis
    by (intro ports_more_console) (auto simp: serial_line_def serial_puts_def returns_def)
qed (use assms(3) in \<open>simp add: serial_line_def returns_def\<close>)

lemma live_line_printed:
  assumes "prints_live T s a T' t" "uart_drains dev" "0 \<notin> set (cstr msg)" "serial_line dev present msg t = returns u"
  shows "prints_live T s a T' u"
  using live_print [OF prints_serial_line [OF assms(2-4)] serial_line_more [OF assms(2-4)] assms(1)] by simp

lemma kmain_live_prints:
  assumes ut: "uart_drains dev" and r: "kmain_live dev present irqs s = returns t"
    and i: "irq_handlers s = wired" "ring_inv s" "console_inv s"
  shows "console_inv t \<and> tty_of t = fold tty_putchar (live_text (s_ticks s + of_nat (ticks_until irqs 0))
    (s_ticks s + of_nat (ticks_until irqs 2)) (s_ticks s + of_nat (ticks_until irqs 6))) (tty_of s)"
proof -
  define s1 where "s1 = (pic_unmask dev 1 (pic_unmask dev 0 s))\<lparr>if_flag := True\<rparr>"
  define T where "T = s_ticks s"
  have "ports.more (pic_unmask dev 1 (pic_unmask dev 0 s)) = ports.more s"
    by (simp add: pic_unmask_def Let_def split_beta)
  note c = ports_more_console [OF this]
  have s1: "irq_handlers s1 = wired" "ring_inv s1" "s_ticks s1 = T" "tty_of s1 = tty_of s" "console_inv s1"
    using i c(2,3) console_more_fields [OF c(1)]
    by (simp_all add: s1_def T_def ring_inv_def tty_of_def console_inv_def)
  define s2 where "s2 = take_irqs dev (irqs 1) (klog (cstr ''nadir'') (cstr ''interrupts enabled (IRQs 0-1)'')
      (take_irqs dev (irqs 0) s1))"
  obtain s3 where s3: "serial_line dev present (''nadir: interrupts enabled (IRQs 0-1)'' @ [CHR 0x0A]) s2 = returns s3"
    and t: "t = live_tail dev irqs s3"
    using r unfolding kmain_live_unfold s1_def [symmetric] s2_def [symmetric]
    by (auto simp: andthen_returns) (simp add: returns_def)
  let ?n = "\<lambda>k. of_nat (timer_count (irqs k)) :: u64"
  let ?T1 = "T + ?n 0"
  let ?T2 = "?T1 + ?n 1 + ?n 2"
  let ?T3 = "?T2 + ?n 3 + ?n 4 + ?n 5 + ?n 6"
  have p2: "prints_live T s1 ([] @ line_text ?T1 (cstr ''nadir'') (cstr ''interrupts enabled (IRQs 0-1)'')) (?T1 + ?n 1) s2"
    unfolding s2_def by (rule live_take live_log live_refl | simp)+
  note p3 = live_line_printed [OF p2 ut _ s3]
  have "prints_live T s1 (((((([] @ line_text ?T1 (cstr ''nadir'') (cstr ''interrupts enabled (IRQs 0-1)''))
      @ prefix_text (unat ?T2) (cstr ''nadir'')) @ cstr ''64-bit proof value: '') @ (cstr ''0x'' @ hex_string 16 PROOF_VALUE))
      @ [0x0A]) @ line_text ?T3 (cstr ''nadir'') (cstr ''halting in hlt loop (timer + keyboard live)'')) (?T3 + ?n 7) t"
    unfolding t live_tail_def by (rule live_take live_log p3 | simp)+
  moreover have e: "cstr ''64-bit proof value: 0x0123456789ABCDEF'' = cstr ''64-bit proof value: '' @ cstr ''0x0123456789ABCDEF''"
    by (simp add: cstr_append [symmetric])
  ultimately have p: "prints_live T s1 (live_text ?T1 ?T2 ?T3) (?T3 + ?n 7) t"
    unfolding proof_value_text live_text_def line_text_def e by simp
  have "[0..<Suc 0] = [0]" "[0..<Suc 2] = [0, 1, 2]" "[0..<Suc 6] = [0, 1, 2, 3, 4, 5, 6 :: nat]"
    by (simp_all add: upt_conv_Cons)
  then have "s_ticks s + of_nat (ticks_until irqs 0) = ?T1" "s_ticks s + of_nat (ticks_until irqs 2) = ?T2"
    "s_ticks s + of_nat (ticks_until irqs 6) = ?T3"
    by (simp_all only: ticks_until_def) (simp_all add: T_def add.assoc)
  with p s1 show ?thesis by (simp add: prints_live_def)
qed

lemma clear_screen:
  "tty_of (console_clear s) = \<lparr>tty_lines = replicate 25 tty_blank, tty_row = 0, tty_col = 0\<rparr>"
  "console_inv (console_clear s)"
proof -
  have v: "vga (console_clear s) = (\<lambda>i. if i < 2000 then 0x0F20 else vga s i)" "cursor_row (console_clear s) = 0"
    "cursor_col (console_clear s) = 0"
    by (simp_all add: console_clear_def vga_consts clear_vga)
  have "screen_of (vga (console_clear s)) = replicate 25 tty_blank"
    unfolding v screen_of_def tty_blank_def by (rule nth_equalityI) (auto intro: nth_equalityI)
  then show "tty_of (console_clear s) = \<lparr>tty_lines = replicate 25 tty_blank, tty_row = 0, tty_col = 0\<rparr>"
    "console_inv (console_clear s)"
    by (simp_all add: tty_of_def v console_inv_def)
qed

section \<open>The boot screen\<close>

definition boot_text :: "u64 \<Rightarrow> (nat \<Rightarrow> interrupt_frame list) \<Rightarrow> u32 \<Rightarrow> pmm \<Rightarrow> heap \<Rightarrow> u8 list" where
  "boot_text T irqs n p h = device_text T @ memory_text T n p @ heap_text T h
     @ live_text (T + of_nat (ticks_until irqs 0)) (T + of_nat (ticks_until irqs 2)) (T + of_nat (ticks_until irqs 6))"

lemma kmain_boot_prints:
  assumes rb: "pic_readback m sl dev" and ut: "uart_drains dev"
    and s0: "s_initialized s = 0" "irq_handlers s = (\<lambda>_. None)"
  shows "\<exists>present t. kmain_boot dev lay irqs s = returns (present, t) \<and> console_inv t
    \<and> tty_of t = fold tty_putchar (boot_text (s_ticks s) irqs (memmap_count s)
        (boot_pmm lay s) (k_heap t)) \<lparr>tty_lines = replicate 25 tty_blank, tty_row = 0, tty_col = 0\<rparr>"
proof -
  let ?T = "s_ticks s"
  define c where "c = \<lparr>c_master = m, c_slave = sl, c_pit = undefined, c_uart = undefined\<rparr>"
  have rb': "pic_readback (c_master c) (c_slave c) dev" using rb by (simp add: c_def)
  obtain present a d t s1 q h where r: "kmain_devices dev lay s = returns (present, a)"
    "kmain_heap (kmain_memory lay a) = returns d" "kmain_live dev present irqs d = returns t"
    and v: "view c a = devices_ready lay (if present then device_lines else []) (view c s)"
    "view c d = (view c a)\<lparr>v_core := (v_core (view c a))\<lparr>k_pmm := q, k_heap := h\<rparr>\<rparr>"
    "view c s1 = booted lay (if present then device_lines else []) q h (view c s)"
    "after_irqs c (boot_irqs irqs) (if present then live_line else []) s1 t"
    by (rule kmain_boot_stages [OF rb' ut s0(1)])
  have boot: "kmain_boot dev lay irqs s = returns (present, t)" using r by (simp add: kmain_boot_def)
  have va: "x (core a) = x (v_core (devices_ready lay (if present then device_lines else []) (view c s)))"
    for x :: "kernel \<Rightarrow> 'z" using v(1) by (metis view_simps(5))
  have fa: "memmap_count a = memmap_count s" "memmap_entries a = memmap_entries s" "k_pmm a = k_pmm s" "s_ticks a = ?T"
    "irq_handlers a = wired" "k_head a = 0" "k_tail a = 0"
    using va [of memmap_count] va [of memmap_entries] va [of k_pmm] va [of s_ticks] va [of irq_handlers]
      va [of k_head] va [of k_tail] s0(2)
    by (simp_all add: devices_ready_def wired_def)
  have vd: "x (core d) = x ((core a)\<lparr>k_pmm := q, k_heap := h\<rparr>)" for x :: "kernel \<Rightarrow> 'z"
    using v(2) by (metis view_simps(5) kview.select_convs(1) kview.update_convs(1) kview.surjective)
  have fd: "irq_handlers d = wired" "ring_inv d" "k_heap d = h" "s_ticks d = ?T"
    using vd [of irq_handlers] vd [of k_head] vd [of k_tail] vd [of k_heap] vd [of s_ticks] fa
    by (simp_all add: ring_inv_def)
  have ft: "k_heap t = h" by (rule booted_after_irqs(7) [OF v(3) s0(2) v(4)])
  define b where "b = kmain_memory lay a"
  have b: "prints ?T a (memory_text ?T (memmap_count s) (boot_pmm lay s)) b" "k_pmm b = boot_pmm lay s"
    using kmain_memory_prints [of "boot_pmm lay s" lay a ?T] by (simp_all add: fa boot_pmm_def b_def)
  have "pmm_inv (k_pmm b)" unfolding b(2) boot_pmm_def
    using pmm_init_spec [of "kernel_start lay" "kernel_end lay" "memmap_count s" "Some (memmap_entries s)" "k_pmm s"]
    by (simp add: pmm_inv_def)
  then have d: "prints ?T b (heap_text ?T h) d"
    using kmain_heap_prints [of b ?T] r(2) fd(3) by (auto simp: b_def returns_def)
  note all = prints_trans [OF kmain_devices_prints [OF ut r(1)] prints_trans [OF b(1) d]]
  have "s_ticks (console_clear s) = ?T" by (rule console_more_fields(4)) simp
  with all clear_screen [of s] have "console_inv d"
    and td: "tty_of d = fold tty_putchar (device_text ?T @ memory_text ?T (memmap_count s) (boot_pmm lay s) @ heap_text ?T h)
      \<lparr>tty_lines = replicate 25 tty_blank, tty_row = 0, tty_col = 0\<rparr>"
    by (simp_all add: prints_def)
  from kmain_live_prints [OF ut r(3) fd(1,2) this(1)] boot show ?thesis
    by (intro exI [of _ present] exI [of _ t]) (simp add: td fd(4) ft boot_text_def)
qed

end
