(* ===== verification/Kmain_Properties.thy ===== *)
theory Kmain_Properties
  imports Kmain_Screen Heap_Properties
begin

unbundle bit_operations_syntax

text \<open>
  The properties of the kernel entry: what the boot sequence leaves behind, the outcome of the heap
  self-test, and the main loop.
\<close>

section \<open>After the boot\<close>

text \<open>
  C5: after the boot sequence interrupts are enabled and everything they need is in place, whatever
  interrupts arrive meanwhile: the loaded table has the stub of each of the vectors 0 to 47, lines 0
  and 1 have the timer and the keyboard driver, both 8259s are initialized at vectors 32 and 40,
  exactly lines 0 and 1 are unmasked, the timer runs as a square wave with count 11931, the tick
  counter has counted the timer interrupts so far, and every interrupt has been acknowledged.  The
  boot always gets there: no step faults or hangs, however much memory the map offers.
\<close>

theorem kmain_boot_interrupts:
  fixes c :: chips
  assumes "pic_readback (c_master c) (c_slave c) dev" "uart_drains dev"
    and "s_initialized s = 0" "irq_handlers s = (\<lambda>_. None)"
  shows "\<exists>present t. kmain_boot dev lay irqs s = returns (present, t)
    \<and> if_flag t \<and> irq_handlers t = wired \<and> ring_inv t
    \<and> cpu_idtr t = \<lparr>idtr_limit = 0xFFF, idtr_base = idt_address lay\<rparr>
    \<and> (\<forall>v. unat v < 48 \<longrightarrow> idt t v = int_gate (if unat v < 32 then isr_stub_table lay (unat v)
          else irq_stub_table lay (unat v - 32)))
    \<and> phase (master (c_master c) (io_log t)) = Operating \<and> vector_base (master (c_master c) (io_log t)) = 32
    \<and> phase (slave (c_slave c) (io_log t)) = Operating \<and> vector_base (slave (c_slave c) (io_log t)) = 40
    \<and> (\<forall>j<16. line_masked (c_master c) (c_slave c) (io_log t) j \<longleftrightarrow> 2 \<le> j)
    \<and> pit_mode (pit_channel0 (c_pit c) (io_log t)) = 3 \<and> pit_count (pit_channel0 (c_pit c) (io_log t)) = 11931
    \<and> s_ticks t = s_ticks s + of_nat (length (filter (\<lambda>f. unat (f_vector f) = 32) (boot_irqs irqs)))
    \<and> eois (master (c_master c) (io_log t)) = eois (master (c_master c) (io_log s)) + length (filter is_irq (boot_irqs irqs))"
proof -
  obtain present t s1 q h where b: "kmain_boot dev lay irqs s = returns (present, t)"
    "view c s1 = booted lay (if present then device_lines else []) q h (view c s)"
    "after_irqs c (boot_irqs irqs) (if present then live_line else []) s1 t"
    using kmain_boot_state [OF assms(1-3)] by metis
  note f = booted_after_irqs [OF b(2) assms(4) b(3)]
  have "line_masked (c_master c) (c_slave c) (io_log t) j \<longleftrightarrow> 2 \<le> j" if "j < 16" for j
    using that by (intro boot_lines_masked) (simp_all add: f boot_masks)
  with b(1) f show ?thesis
    by (intro exI [of _ present] exI [of _ t]) (simp add: remapped_def unmasked_def boot_gates_def)
qed

lemma kmain_boot_divides:
  assumes "pic_readback m sl dev" "uart_drains dev"
    and "s_initialized s = 0" "irq_handlers s = (\<lambda>_. None)"
  shows "\<exists>present t fl. kmain_boot dev lay irqs s = returns (present, t)
    \<and> heap_inv (k_heap t) fl [] \<and> pmm_inv (k_pmm t) \<and> kmalloc_used_frames (k_heap t) = 0
    \<and> unat (kmalloc_free_frames (k_heap t)) = length (all_frames fl) \<and> length (all_frames fl) \<le> 64
    \<and> set (all_frames fl) \<inter> free_frames (k_pmm t) = {}
    \<and> set (all_frames fl) \<union> free_frames (k_pmm t) \<subseteq>
        (\<Union>en\<in>set (e820_map (memmap_count s) (Some (memmap_entries s))). usable_frames en)
          - carved_frames (e820_map (memmap_count s) (Some (memmap_entries s))) - {..<256}
          - range_frames (kernel_start lay) (kernel_end lay - kernel_start lay)"
proof -
  define c where "c = \<lparr>c_master = m, c_slave = sl, c_pit = undefined, c_uart = undefined\<rparr>"
  have rb: "pic_readback (c_master c) (c_slave c) dev" using assms(1) by (simp add: c_def)
  obtain present t s1 q h fl where b: "kmain_boot dev lay irqs s = returns (present, t)"
    "view c s1 = booted lay (if present then device_lines else []) q h (view c s)"
    "after_irqs c (boot_irqs irqs) (if present then live_line else []) s1 t"
    and mem: "heap_inv h fl []" "pmm_inv q" "length (all_frames fl) \<le> 64"
      "set (all_frames fl) \<union> free_frames q \<subseteq> free_frames (boot_pmm lay s)"
      "set (all_frames fl) \<inter> free_frames q = {}"
    using kmain_boot_state [OF rb assms(2,3)] by metis
  note f = booted_after_irqs(6,7) [OF b(2) assms(4) b(3)]
  have "unat (kmalloc_used_frames h) = 0" "unat (kmalloc_free_frames h) = length (all_frames fl)"
    using mem(1) by (simp_all add: heap_inv_def kmalloc_used_frames_def kmalloc_free_frames_def)
  then have "kmalloc_used_frames h = 0" "unat (kmalloc_free_frames h) = length (all_frames fl)"
    by (simp_all add: unat_eq_0)
  moreover note pmm_init_spec [of "kernel_start lay" "kernel_end lay" "memmap_count s" "Some (memmap_entries s)" "k_pmm s"]
  ultimately show ?thesis using b(1) mem unfolding boot_pmm_def
    by (intro exI [of _ present] exI [of _ t] exI [of _ fl]) (simp add: f)
qed

text \<open>
  C7: after the boot sequence memory is divided without overlap.  Every frame the heap or the frame
  allocator can hand out lies wholly in a usable E820 entry, in no other entry, above the first
  megabyte and outside the kernel image; the heap owns at most 64 of them, the frame allocator none
  of those, and the heap, whose self-test has run, has nothing allocated.
\<close>

theorem kmain_boot_memory:
  assumes "pic_readback m sl dev" "uart_drains dev"
    and "s_initialized s = 0" "irq_handlers s = (\<lambda>_. None)"
  shows "\<exists>present t fl. kmain_boot dev lay irqs s = returns (present, t)
    \<and> heap_inv (k_heap t) fl [] \<and> pmm_inv (k_pmm t) \<and> kmalloc_used_frames (k_heap t) = 0
    \<and> unat (kmalloc_free_frames (k_heap t)) = length (all_frames fl) \<and> length (all_frames fl) \<le> 64
    \<and> set (all_frames fl) \<inter> free_frames (k_pmm t) = {}
    \<and> set (all_frames fl) \<union> free_frames (k_pmm t) \<subseteq>
        (\<Union>en\<in>set (e820_map (memmap_count s) (Some (memmap_entries s))). usable_frames en)
          - carved_frames (e820_map (memmap_count s) (Some (memmap_entries s))) - {..<256}
          - range_frames (kernel_start lay) (kernel_end lay - kernel_start lay)"
  by (rule kmain_boot_divides [OF assms])

text \<open>
  C37: what the boot sends over COM1 is exactly the four announcements, in order, on a port whose
  status register does not read as all ones, and nothing on an absent one, which does.
\<close>

theorem kmain_boot_serial_transcript:
  assumes "pic_readback m sl dev" "uart_drains dev"
    and "s_initialized s = 0" "irq_handlers s = (\<lambda>_. None)"
    and "\<And>log. (dev log COM_LSR \<noteq> 0xFF) = present"
  shows "\<exists>t. kmain_boot dev lay irqs s = returns (present, t)
    \<and> u_sent (uart_of u (io_log t)) = u_sent (uart_of u (io_log s)) @
        (if present then cstr (''Hello World from Nadir kernel'' @ [CHR 0x0A]
           @ ''pit: 100Hz on IRQ0'' @ [CHR 0x0A] @ ''keyboard: PS/2 ready on IRQ1'' @ [CHR 0x0A]
           @ ''nadir: interrupts enabled (IRQs 0-1)'' @ [CHR 0x0A]) else [])"
proof -
  define c where "c = \<lparr>c_master = m, c_slave = sl, c_pit = undefined, c_uart = u\<rparr>"
  have rb: "pic_readback (c_master c) (c_slave c) dev" using assms(1) by (simp add: c_def)
  obtain present' t log s1 q h where p: "kmain_boot dev lay irqs s = returns (present', t)"
    "present' = (dev log COM_LSR \<noteq> 0xFF)"
    "view c s1 = booted lay (if present' then device_lines else []) q h (view c s)"
    "after_irqs c (boot_irqs irqs) (if present' then live_line else []) s1 t"
    using kmain_boot_state [OF rb assms(2,3)] by metis
  have "present' = present" using p(2) assms(5) by metis
  note b = p(1,3,4) [unfolded this]
  note f = booted_after_irqs(12) [OF b(2) assms(4) b(3)]
  have "c_uart c = u" by (simp add: c_def)
  with f b(1) show ?thesis
    by (intro exI [of _ t]) (simp add: device_lines_def live_line_def cstr_append [symmetric])
qed

text \<open>
  C21: the screen after the boot is that of a cleared 25 by 80 terminal fed exactly this text: the log
  lines of the device stage, the memory report with the counters of the frame allocator, the heap
  line, which says "ok" exactly if the heap has at least four frames, and the three last lines.
  Interrupts are enabled before those, so each has the time stamp of its own moment: the tick counter
  at the start plus the timer interrupts taken before that line, wherever in between they arrive.  In
  particular the 64-bit marker the boot check looks for is in the first line.
\<close>

theorem kmain_boot_screen:
  assumes "pic_readback m sl dev" "uart_drains dev"
    and "s_initialized s = 0" "irq_handlers s = (\<lambda>_. None)"
  shows "\<exists>present t. kmain_boot dev lay irqs s = returns (present, t) \<and> console_inv t
    \<and> tty_of t = fold tty_putchar
        (device_text (s_ticks s)
         @ memory_text (s_ticks s) (memmap_count s)
             (pmm_init (kernel_start lay) (kernel_end lay) (memmap_count s) (Some (memmap_entries s)) (k_pmm s))
         @ heap_text (s_ticks s) (k_heap t)
         @ live_text (s_ticks s + of_nat (ticks_until irqs 0)) (s_ticks s + of_nat (ticks_until irqs 2))
             (s_ticks s + of_nat (ticks_until irqs 6)))
        \<lparr>tty_lines = replicate 25 tty_blank, tty_row = 0, tty_col = 0\<rparr>"
  using kmain_boot_prints [OF assms, of lay irqs] by (simp add: boot_text_def boot_pmm_def)

subsection \<open>A concrete machine\<close>

text \<open>One megabyte of usable memory above the first, a kernel image at 0x10000.\<close>

definition zero_pmm :: pmm where
  "zero_pmm = \<lparr>bitmap = (\<lambda>_. 0), g_usable = 0, g_free = 0\<rparr>"

definition zero_heap :: heap where
  "zero_heap = \<lparr>mem = (\<lambda>_. 0), g_free_list = 0, g_free_frames = 0, g_used_frames = 0\<rparr>"

definition zero_kernel :: kernel where
  "zero_kernel = keyboard.extend (wired_kbd\<lparr>irq_handlers := (\<lambda>_. None), s_initialized := 0\<rparr>)
     \<lparr>memmap_count = 1,
      memmap_entries = (\<lambda>_. \<lparr>e_base = 0x100000, e_length = 0x100000, e_type = 1, e_acpi_attr = 0\<rparr>),
      k_pmm = zero_pmm, k_heap = zero_heap, if_flag = False\<rparr>"

definition sample_layout :: link_layout where
  "sample_layout = \<lparr>kernel_start = 0x10000, kernel_end = 0x20000, isr_stub_table = (\<lambda>i. 0x11000 + 16 * of_nat i),
     irq_stub_table = (\<lambda>i. 0x12000 + 16 * of_nat i), idt_address = 0x18000\<rparr>"

definition reset_chips :: chips where
  "reset_chips = \<lparr>c_master = reset_chip, c_slave = reset_chip,
     c_pit = \<lparr>pit_access = 0, pit_mode = 0, pit_low = None, pit_count = 0\<rparr>,
     c_uart = \<lparr>u_lcr = 0, u_ier = 0, u_fcr = 0, u_mcr = 0, u_divisor_low = 0, u_divisor_high = 0, u_sent = []\<rparr>\<rparr>"

text \<open>Mask registers that read back, and a COM1 that is always ready.\<close>

definition ready_dev :: device where
  "ready_dev log port = (if port = COM_LSR then 0x60 else readback_dev log port)"

lemma ready_dev_ok: "pic_readback reset_chip reset_chip ready_dev" "uart_drains ready_dev"
  using readback_dev_ok
  by (auto simp: pic_readback_def ready_dev_def uart_drains_def com_consts PIC1_DATA_def PIC2_DATA_def)

lemma zero_kernel_fields [simp]:
  "s_initialized zero_kernel = 0" "irq_handlers zero_kernel = (\<lambda>_. None)" "s_ticks zero_kernel = 0"
  "io_log zero_kernel = []" "memmap_count zero_kernel = 1"
  "memmap_entries zero_kernel = (\<lambda>_. \<lparr>e_base = 0x100000, e_length = 0x100000, e_type = 1, e_acpi_attr = 0\<rparr>)"
  by (simp_all add: zero_kernel_def keyboard.extend_def wired_kbd_def)

text \<open>A timer interrupt right after \<open>sti\<close>, and one while the proof value is printed.\<close>

definition two_ticks :: "nat \<Rightarrow> interrupt_frame list" where
  "two_ticks k = (if k = 0 \<or> k = 4 then [timer_frame] else [])"

lemma timer_frame_counts: "unat (f_vector timer_frame) = 32"
  by (simp add: timer_frame_def)

lemma two_ticks_counts: "boot_irqs two_ticks = [timer_frame, timer_frame]"
  "ticks_until two_ticks 0 = 1" "ticks_until two_ticks 2 = 1" "ticks_until two_ticks 6 = 2"
proof -
  have "[0..<Suc 0] = [0]" "[0..<Suc 2] = [0, 1, 2]" "[0..<Suc 6] = [0, 1, 2, 3, 4, 5, 6 :: nat]"
    by (simp_all add: upt_conv_Cons)
  then show "ticks_until two_ticks 0 = 1" "ticks_until two_ticks 2 = 1" "ticks_until two_ticks 6 = 2"
    by (simp_all only: ticks_until_def) (simp_all add: two_ticks_def timer_frame_counts)
qed (simp add: boot_irqs_append two_ticks_def)

theorem kmain_boot_interrupts_witness:
  "\<exists>present t. kmain_boot ready_dev sample_layout two_ticks zero_kernel = returns (present, t)
     \<and> if_flag t \<and> s_ticks t = 2 \<and> irq_handlers t 1 = Some Keyboard_on_irq \<and> idt t 33 = int_gate 0x12010"
proof -
  have n: "length (filter (\<lambda>f. unat (f_vector f) = 32) (boot_irqs two_ticks)) = 2"
    by (simp add: two_ticks_counts timer_frame_counts)
  obtain present t where "kmain_boot ready_dev sample_layout two_ticks zero_kernel = returns (present, t)"
    "if_flag t" "irq_handlers t = wired" "s_ticks t = s_ticks zero_kernel + of_nat 2"
    "\<forall>v. unat v < 48 \<longrightarrow> idt t v = int_gate (if unat v < 32 then isr_stub_table sample_layout (unat v)
          else irq_stub_table sample_layout (unat v - 32))"
    using kmain_boot_interrupts [of reset_chips ready_dev zero_kernel sample_layout two_ticks,
        unfolded n] ready_dev_ok by (auto simp: reset_chips_def)
  then show ?thesis
    by (intro exI [of _ present] exI [of _ t]) (simp add: wired_def sample_layout_def)
qed

theorem kmain_boot_memory_witness:
  "\<exists>present t fl. kmain_boot ready_dev sample_layout (\<lambda>_. []) zero_kernel = returns (present, t)
     \<and> heap_inv (k_heap t) fl [] \<and> set (all_frames fl) \<subseteq> {256..<512} \<and> length (all_frames fl) \<le> 64"
proof -
  have sub: "A \<subseteq> S" if "A \<union> B \<subseteq> S - C - D - E" for A B C D E S :: "nat set" using that by blast
  have "e820_map 1 (Some (\<lambda>_. x)) = [x]" for x by (simp add: e820_map_def)
  moreover have "usable_frames \<lparr>e_base = 0x100000, e_length = 0x100000, e_type = 1, e_acpi_attr = 0\<rparr> \<subseteq> {256..<512}"
    by (auto simp: usable_frames_def)
  moreover obtain present t fl where "kmain_boot ready_dev sample_layout (\<lambda>_. []) zero_kernel = returns (present, t)"
    "heap_inv (k_heap t) fl []" "length (all_frames fl) \<le> 64"
    "set (all_frames fl) \<subseteq> (\<Union>en\<in>set (e820_map (memmap_count zero_kernel) (Some (memmap_entries zero_kernel))). usable_frames en)"
    using kmain_boot_memory [OF ready_dev_ok zero_kernel_fields(1,2), of sample_layout "\<lambda>_. []"]
    by (elim exE conjE, intro that) (assumption | erule sub)+
  ultimately show ?thesis by (intro exI [of _ present] exI [of _ t] exI [of _ fl]) (simp; blast)
qed

theorem kmain_boot_serial_transcript_witness:
  "\<exists>t. kmain_boot ready_dev sample_layout (\<lambda>_. []) zero_kernel = returns (True, t)
    \<and> take 6 (u_sent (uart_of (c_uart reset_chips) (io_log t))) = cstr ''Hello ''"
proof -
  have u: "u_sent (uart_of (c_uart reset_chips) (io_log zero_kernel)) = []" by (simp add: reset_chips_def uart_of_def)
  have "\<And>log. (ready_dev log COM_LSR \<noteq> 0xFF) = True" by (simp add: ready_dev_def)
  from kmain_boot_serial_transcript [OF ready_dev_ok zero_kernel_fields(1,2) this, of sample_layout "\<lambda>_. []" "c_uart reset_chips"]
  obtain t where "kmain_boot ready_dev sample_layout (\<lambda>_. []) zero_kernel = returns (True, t)"
    "u_sent (uart_of (c_uart reset_chips) (io_log t)) = cstr (''Hello World from Nadir kernel'' @ [CHR 0x0A]
           @ ''pit: 100Hz on IRQ0'' @ [CHR 0x0A] @ ''keyboard: PS/2 ready on IRQ1'' @ [CHR 0x0A]
           @ ''nadir: interrupts enabled (IRQs 0-1)'' @ [CHR 0x0A])"
    unfolding u if_True append_Nil by blast
  then show ?thesis by (intro exI [of _ t]) (simp add: cstr_def)
qed

theorem kmain_boot_screen_witness:
  "\<exists>present t rest. kmain_boot ready_dev sample_layout two_ticks zero_kernel = returns (present, t)
     \<and> tty_of t = fold tty_putchar (device_text 0 @ rest @ live_text 1 1 2)
          \<lparr>tty_lines = replicate 25 tty_blank, tty_row = 0, tty_col = 0\<rparr>"
proof -
  obtain present t where "kmain_boot ready_dev sample_layout two_ticks zero_kernel = returns (present, t)"
    "tty_of t = fold tty_putchar (device_text 0
         @ memory_text 0 1 (pmm_init (kernel_start sample_layout) (kernel_end sample_layout) 1
             (Some (memmap_entries zero_kernel)) (k_pmm zero_kernel))
         @ heap_text 0 (k_heap t) @ live_text 1 1 2) \<lparr>tty_lines = replicate 25 tty_blank, tty_row = 0, tty_col = 0\<rparr>"
    using kmain_boot_screen [OF ready_dev_ok zero_kernel_fields(1,2), of sample_layout two_ticks]
    unfolding two_ticks_counts zero_kernel_fields(3,5) by (elim exE conjE, intro that) (assumption | simp)+
  then show ?thesis by (metis append.assoc)
qed

section \<open>The heap self-test\<close>

text \<open>
  C23: on the pool of \<open>n\<close> frames that \<open>kmalloc_init\<close> sets up, the self-test ends without fault, reports
  success exactly if there are at least four frames (what its three requests need together), and
  leaves every frame free again with both counters as before.
\<close>

theorem heap_self_test_verdict:
  assumes "heap_inv h [(f, n)] []"
  shows "\<exists>h' fl. heap_self_test h = returns (4 \<le> n, h') \<and> heap_inv h' fl []
    \<and> mset (all_frames fl) = mset [f..<f + n]
    \<and> kmalloc_used_frames h' = 0 \<and> kmalloc_free_frames h' = kmalloc_free_frames h"
proof -
  obtain h' fl where r: "heap_self_test h = returns (4 \<le> n, h')" "heap_inv h' fl []"
    "mset (all_frames fl) = mset (all_frames [(f, n)])"
    using heap_self_test_pool [OF assms] by blast
  have "unat (g_used_frames h') = 0" "unat (g_free_frames h') = unat (g_free_frames h)"
    using r(2) r(3) [THEN mset_eq_length] assms by (simp_all add: heap_inv_def)
  then have "kmalloc_used_frames h' = 0" "kmalloc_free_frames h' = kmalloc_free_frames h"
    by (simp_all add: kmalloc_used_frames_def kmalloc_free_frames_def word_unat_eq_iff)
  with r show ?thesis by (intro exI [of _ h'] exI [of _ fl]) (simp add: run_list_def)
qed

theorem heap_self_test_verdict_witness:
  "\<exists>h'. heap_self_test sample_heap = returns (True, h') \<and> kmalloc_used_frames h' = 0"
  using heap_self_test_verdict [OF sample_heap_inv] by auto

section \<open>The main loop\<close>

lemma kmain_boot_loop_inv:
  assumes rb: "pic_readback m sl dev" and ut: "uart_drains dev"
    and s0: "s_initialized s = 0" "irq_handlers s = (\<lambda>_. None)"
  obtains present t fl where "kmain_boot dev lay irqs s = returns (present, t)" "loop_inv u t" "if_flag t"
    "heap_inv (k_heap t) fl []" "pmm_inv (k_pmm t)" "set (all_frames fl) \<inter> free_frames (k_pmm t) = {}"
    "s_ticks t = s_ticks s + of_nat (timer_count (boot_irqs irqs))"
proof -
  define c where "c = \<lparr>c_master = m, c_slave = sl, c_pit = undefined, c_uart = u\<rparr>"
  have rb': "pic_readback (c_master c) (c_slave c) dev" and u: "c_uart c = u" using rb by (simp_all add: c_def)
  obtain present t s1 q h fl where b: "kmain_boot dev lay irqs s = returns (present, t)"
    "view c s1 = booted lay (if present then device_lines else []) q h (view c s)"
    "after_irqs c (boot_irqs irqs) (if present then live_line else []) s1 t"
    and mem: "heap_inv h fl []" "pmm_inv q" "set (all_frames fl) \<inter> free_frames q = {}"
    using kmain_boot_state [OF rb' ut s0(1)] by metis
  note f = booted_after_irqs [OF b(2) s0(2) b(3)]
  have "console_inv t" using kmain_boot_prints [OF rb ut s0, of lay irqs] b(1) by (auto simp: returns_def)
  then have "loop_inv u t" using f(1,2,13,14) by (simp add: loop_inv_def u)
  with that [of present t fl] b(1) f(3,6,7,8) mem show ?thesis by simp
qed

text \<open>
  C6: the kernel runs for as long as it is left running.  From a zeroed start, for every sequence of
  interrupts during the boot and in every pass of the main loop, no step faults or hangs; after any
  number of passes interrupts are still enabled, the drivers are still wired, the cursor is on the
  screen, heap and frame allocator are intact and disjoint, and no key is left waiting.
\<close>

theorem kmain_runs:
  assumes "pic_readback m sl dev" "uart_drains dev"
    and "s_initialized s = 0" "irq_handlers s = (\<lambda>_. None)"
  shows "\<exists>last_uptime t fl. kmain dev lay irqs sched s = returns (last_uptime, t)
    \<and> if_flag t \<and> irq_handlers t = wired \<and> console_inv t
    \<and> heap_inv (k_heap t) fl [] \<and> pmm_inv (k_pmm t) \<and> set (all_frames fl) \<inter> free_frames (k_pmm t) = {}
    \<and> (if sched = [] then True else key_queue t = [])"
proof -
  let ?u = "undefined :: uart"
  obtain present t1 fl where b: "kmain_boot dev lay irqs s = returns (present, t1)" "loop_inv ?u t1" "if_flag t1"
    "heap_inv (k_heap t1) fl []" "pmm_inv (k_pmm t1)" "set (all_frames fl) \<inter> free_frames (k_pmm t1) = {}"
    by (rule kmain_boot_loop_inv [OF assms])
  obtain l t where "kmain_loop dev present sched (0, t1) = Some (l, t)" "loop_inv ?u t" "same_system t1 t"
    "sched \<noteq> [] \<longrightarrow> key_queue t = []"
    using kmain_loop_runs [OF assms(2) b(2)] by blast
  with b show ?thesis
    by (intro exI [of _ l] exI [of _ t] exI [of _ fl])
      (simp add: kmain_def returns_def loop_inv_def same_system_def)
qed

text \<open>Two passes: the first is woken by the timer and two key presses, with a tick and a third key in the echo loop.\<close>

definition key_frame :: interrupt_frame where
  "key_frame = timer_frame\<lparr>f_vector := 33\<rparr>"

definition sample_passes :: "pass_irqs list" where
  "sample_passes =
     [\<lparr>at_hlt = [timer_frame, key_frame, key_frame], at_report = [timer_frame], at_notice = [],
        at_tests = [[], [timer_frame, key_frame], []]\<rparr>,
      \<lparr>at_hlt = [], at_report = [], at_notice = [], at_tests = []\<rparr>]"

theorem kmain_runs_witness:
  "\<exists>last_uptime t. kmain ready_dev sample_layout two_ticks sample_passes zero_kernel
     = returns (last_uptime, t) \<and> if_flag t \<and> key_queue t = []"
proof -
  have "(sample_passes = []) = False" by (simp add: sample_passes_def)
  from kmain_runs [OF ready_dev_ok zero_kernel_fields(1,2), of sample_layout two_ticks sample_passes, unfolded this]
  obtain l t where "kmain ready_dev sample_layout two_ticks sample_passes zero_kernel = returns (l, t)" "if_flag t"
    "key_queue t = []"
    by (elim exE conjE, intro that) (assumption | simp)+
  then show ?thesis by blast
qed

text \<open>
  C22: the echo loop ends and loses nothing, however interrupts interleave with it.  When it returns
  the key queue is empty; the bytes that were in it, followed by those that the keyboard interrupts of
  the run have put into it, in that order, have been drawn on the screen and, when the port is present,
  echoed over COM1, with backspace as back, blank, back and newline as carriage return, newline.  The
  bytes that arrive are those the interrupt handlers append to the queue, read off the run of the loop.
  Without interrupts the bytes are exactly those that were queued.
\<close>

theorem drain_keys_echoes:
  assumes "uart_drains dev" "loop_inv u s"
  shows "\<exists>t later. drain_keys dev ok irqs s = Some t \<and> drain_trace dev ok irqs s later t
    \<and> key_queue t = [] \<and> \<not> keyboard_has_key t
    \<and> tty_of t = fold tty_putchar (key_queue s @ later) (tty_of s)
    \<and> u_sent (uart_of u (io_log t)) = u_sent (uart_of u (io_log s)) @
        (if ok then concat (map (\<lambda>c. if c = 0x08 then [0x08, 0x20, 0x08] else if c = 0x0A then [0x0D, 0x0A] else [c])
           (key_queue s @ later)) else [])
    \<and> (if concat irqs = [] then later = [] else True)
    \<and> k_heap t = k_heap s \<and> k_pmm t = k_pmm s \<and> if_flag t = if_flag s"
proof -
  obtain t where t: "drain_keys dev ok irqs s = Some t" "drained u dev ok irqs s t"
    using drain_keys_loop [OF assms] by blast
  then obtain later where m: "drain_trace dev ok irqs s later t" "tty_of t = fold tty_putchar (key_queue s @ later) (tty_of s)"
    "sent_by u t = sent_by u s @ (if ok then concat (map echo_bytes (key_queue s @ later)) else [])"
    "concat irqs = [] \<longrightarrow> later = []" by (auto simp: drained_def)
  have q: "key_queue t = []" "ring_inv t" "same_system s t" using t(2) by (simp_all add: drained_def loop_inv_def)
  then have "\<not> keyboard_has_key t" by (simp add: keys.has_iff)
  with t(1) m q show ?thesis
    by (intro exI [of _ t] exI [of _ later]) (simp add: same_system_def echo_bytes_def [abs_def])
qed

text \<open>A kernel in its main loop with the keys \<^verbatim>\<open>h\<close>, \<^verbatim>\<open>i\<close> and backspace waiting.\<close>

definition keys_waiting :: kernel where
  "keys_waiting = zero_kernel\<lparr>irq_handlers := wired, k_buf := (\<lambda>_. 0)(0 := 0x68, 1 := 0x69, 2 := 0x08), k_head := 3, k_tail := 0\<rparr>"

lemma keys_waiting_inv: "key_queue keys_waiting = [0x68, 0x69, 0x08]" "loop_inv (c_uart reset_chips) keys_waiting"
proof -
  show q: "key_queue keys_waiting = [0x68, 0x69, 0x08]"
    by (simp add: keys_waiting_def key_queue_def ring_list_def ring_len_def upt_conv_Cons)
  have "console_inv keys_waiting" "io_log keys_waiting = []"
    by (simp_all add: keys_waiting_def zero_kernel_def keyboard.extend_def wired_kbd_def console_inv_def)
  then show "loop_inv (c_uart reset_chips) keys_waiting"
    using q by (simp add: loop_inv_def reset_chips_def uart_of_def)
      (simp add: keys_waiting_def ring_inv_def)
qed

text \<open>A keyboard on which \<^verbatim>\<open>a\<close> is pressed; its interrupt arrives before the first key is taken off.\<close>

definition key_dev :: device where
  "key_dev log port = (if port = 0x60 then 0x1E else ready_dev log port)"

lemma key_dev_ok: "uart_drains key_dev"
  by (auto simp: uart_drains_def key_dev_def ready_dev_def com_consts)

lemma key_arrives: "arriving key_dev [key_frame] keys_waiting = [0x61]"
proof -
  let ?s = "after_read key_dev keys_waiting"
  have "unat (f_vector key_frame) = 33" by (simp add: key_frame_def)
  moreover have "char_table k_unshifted 0x1E = 0x61" "char_table k_shifted 0x1E = 0x41"
    by (simp_all add: char_table_def k_unshifted_def k_shifted_def of_char_def)
  moreover have "k_e0 keys_waiting = 0" "k_shift keys_waiting = 0" "k_caps keys_waiting = 0"
    by (simp_all add: keys_waiting_def zero_kernel_def keyboard.extend_def wired_kbd_def)
  moreover have "irq_handlers keys_waiting (Suc 0) = Some Keyboard_on_irq" by (simp add: keys_waiting_def wired_def)
  ultimately have "take_irqs key_dev [key_frame] keys_waiting = pic_eoi 1 (enqueue 0x61 ?s)"
    by (simp add: take_irqs_def irq_dispatch_eq call_irq_handler_def keyboard_on_irq_unfold Let_def key_dev_def
        key_byte_def)
  moreover have "key_queue (pic_eoi n t) = key_queue t" for n and t :: kernel by (simp add: key_queue_def)
  moreover have "key_queue (enqueue 0x61 ?s) = key_queue keys_waiting @ [0x61]"
    using enqueue_queue [of ?s] keys_waiting_inv by (simp add: loop_inv_def)
  ultimately show ?thesis by (simp add: arriving_def)
qed

theorem drain_keys_echoes_witness:
  "\<exists>t. drain_keys key_dev True [[key_frame]] keys_waiting = Some t \<and> key_queue t = []
     \<and> u_sent (uart_of (c_uart reset_chips) (io_log t)) = [0x68, 0x69, 0x08, 0x20, 0x08, 0x61]"
proof -
  have u: "u_sent (uart_of (c_uart reset_chips) (io_log keys_waiting)) = []"
    by (simp add: keys_waiting_def reset_chips_def uart_of_def)
  obtain t later where t: "drain_keys key_dev True [[key_frame]] keys_waiting = Some t" "key_queue t = []"
    "drain_trace key_dev True [[key_frame]] keys_waiting later t"
    "u_sent (uart_of (c_uart reset_chips) (io_log t)) =
       concat (map (\<lambda>c. if c = 0x08 then [0x08, 0x20, 0x08] else if c = 0x0A then [0x0D, 0x0A] else [c])
         ([0x68, 0x69, 0x08] @ later))"
    using drain_keys_echoes [OF key_dev_ok keys_waiting_inv(2), of True "[[key_frame]]"]
    unfolding u keys_waiting_inv(1) if_True append_Nil by blast
  have "later = [0x61]" using drain_trace_first [OF t(3)] by (simp add: key_arrives)
  with t show ?thesis by (intro exI [of _ t]) simp
qed

text \<open>
  The uptime line comes at most once per 100 timer ticks.  Over any run of the main loop, the
  number of uptime lines times 100 is at most the ticks since the last one plus the timer interrupts
  of the run, also when the tick counter wraps around.
\<close>

theorem kmain_uptime_rate:
  assumes "uart_drains dev" "loop_inv u s"
  shows "100 * uptime_lines dev ok sched (last_uptime, s) \<le> unat (s_ticks s - last_uptime) + sched_ticks sched"
  by (rule uptime_rate [OF assms])

theorem kmain_uptime_rate_witness:
  "uptime_lines ready_dev True sample_passes (0, keys_waiting) = 0"
proof -
  have "sched_ticks sample_passes = 3"
    by (simp add: sched_ticks_def sample_passes_def later_ticks_def timer_frame_counts key_frame_def)
  moreover have "s_ticks keys_waiting = 0" by (simp add: keys_waiting_def)
  ultimately show ?thesis
    using kmain_uptime_rate [OF ready_dev_ok(2) keys_waiting_inv(2), of True sample_passes 0]
    by simp
qed

end
