(* ===== verification/Entry.thy ===== *)
theory Entry
  imports Kmain
begin

unbundle bit_operations_syntax

text \<open>
  The stage-2 entry, \<^verbatim>\<open>kernel/arch/x86_64/entry.asm\<close>: the long-mode check, the construction of the
  page tables, the descriptor table, and the 64-bit entry that zeroes the statics, copies the staged
  memory map and calls \<open>kmain\<close>.  The CPU's four-level page walk is written out, so that the identity
  map the rest of the development assumes (\<open>mapped\<close> and \<open>access_fault\<close> of theory \<open>Phys_Memory\<close>) is
  a theorem about the tables this code builds.  The \<open>cpuid\<close> instruction's answers and the addresses
  the linker assigns are arguments.
\<close>

section \<open>32-bit cells\<close>

definition get32 :: "memory \<Rightarrow> u64 \<Rightarrow> u32" where
  "get32 m a = foldr (\<lambda>i acc. acc OR push_bit (8 * i) (ucast (m (a + of_nat i)))) [0..<4] 0"

definition put32 :: "u64 \<Rightarrow> u32 \<Rightarrow> memory \<Rightarrow> memory" where
  "put32 a v m = (\<lambda>x. if unat a \<le> unat x \<and> unat x < unat a + 4
     then ucast (drop_bit (8 * (unat x - unat a)) v) else m x)"

section \<open>Long mode\<close>

text \<open>\<open>cpuid\<close>, by leaf: the answers in \<open>eax\<close> and \<open>edx\<close>.\<close>

definition has_longmode :: "(u32 \<Rightarrow> u32 \<times> u32) \<Rightarrow> bool" where
  "has_longmode cpuid = (if fst (cpuid 0x80000000) < 0x80000001 then False
     else bit (snd (cpuid 0x80000001)) 29)"

section \<open>The page tables\<close>

definition PML4 :: u32 where "PML4 = 0x70000"
definition PDPT :: u32 where "PDPT = 0x71000"
definition PD :: u32 where "PD = 0x72000"
definition STACK64_TOP :: u64 where "STACK64_TOP = 0x90000"

lemmas table_consts = PML4_def PDPT_def PD_def

text \<open>\<open>rep stosd\<close> with count \<open>n\<close> and \<open>eax = v\<close>: \<open>edi\<close> and memory.\<close>

primrec rep_stosd :: "nat \<Rightarrow> u32 \<Rightarrow> u32 \<times> memory \<Rightarrow> u32 \<times> memory" where
  "rep_stosd 0 v = (\<lambda>(edi, m). (edi, m))"
| "rep_stosd (Suc n) v = (\<lambda>(edi, m). rep_stosd n v (edi + 4, put32 (ucast edi) v m))"

text \<open>\<open>.fill_pd\<close>, whose \<open>loop\<close> counts \<open>ecx\<close> down from \<open>n\<close>: \<open>eax\<close>, \<open>edi\<close> and memory.\<close>

primrec fill_pd :: "nat \<Rightarrow> u32 \<times> u32 \<times> memory \<Rightarrow> u32 \<times> u32 \<times> memory" where
  "fill_pd 0 = (\<lambda>(eax, edi, m). (eax, edi, m))"
| "fill_pd (Suc n) = (\<lambda>(eax, edi, m). fill_pd n (eax + 0x200000, edi + 8, put32 (ucast edi) eax m))"

definition build_page_tables :: "memory \<Rightarrow> memory" where
  "build_page_tables m =
     (let (edi, m) = rep_stosd 0x1000 0 (PML4, m);
          m = put32 (ucast PML4) (PDPT OR 0x03) m;
          m = put32 (ucast PDPT) (PD OR 0x03) m;
          (eax, edi, m) = fill_pd 512 (0x83, PD, m)
      in m)"

section \<open>The 32-bit entry\<close>

text \<open>The control registers, and the IA32_EFER register that \<open>rdmsr\<close> and \<open>wrmsr\<close> name.\<close>

record control =
  cr0 :: u32
  cr3 :: u32
  cr4 :: u32
  efer :: u64

definition enable_long_mode :: "control \<Rightarrow> control" where
  "enable_long_mode k =
     (let k = k\<lparr>cr3 := PML4\<rparr>;
          k = k\<lparr>cr4 := cr4 k OR push_bit 5 1\<rparr>;
          k = k\<lparr>efer := efer k OR push_bit 8 1\<rparr>
      in k\<lparr>cr0 := cr0 k OR push_bit 31 1\<rparr>)"

definition long_mode_active :: "control \<Rightarrow> bool" where
  "long_mode_active k \<longleftrightarrow> bit (cr0 k) 31 \<and> bit (cr0 k) 0 \<and> bit (cr4 k) 5 \<and> bit (efer k) 8"

lemma enable_long_mode_active: "long_mode_active (enable_long_mode k) = bit (cr0 k) 0"
  by (simp add: long_mode_active_def enable_long_mode_def Let_def bit_simps)

definition err_nolm :: "u8 list" where
  "err_nolm = cstr ''ERR: CPU has no 64-bit long mode''"

text \<open>\<open>.print\<close>: every character with the attribute byte 0x4F, from \<open>edi\<close> on.\<close>

primrec print_nolm :: "u8 list \<Rightarrow> u32 \<times> memory \<Rightarrow> memory" where
  "print_nolm [] = (\<lambda>(edi, m). m)"
| "print_nolm (c # cs) = (\<lambda>(edi, m). print_nolm cs (edi + 2, m(ucast edi := c, ucast edi + 1 := 0x4F)))"

text \<open>
  \<open>Inl\<close> is the CPU without long mode, parked with the message on the screen.  After the control
  registers the code loads \<open>gdt64\<close> and jumps through selector 0x18 to \<open>long_entry\<close>: the loads are in
  theory \<open>Segments\<close>, the jump is the order of the two functions.
\<close>

definition boot32_entry :: "(u32 \<Rightarrow> u32 \<times> u32) \<Rightarrow> control \<times> memory \<Rightarrow> memory + control \<times> memory" where
  "boot32_entry cpuid = (\<lambda>(k, m).
     if \<not> has_longmode cpuid then Inl (print_nolm (takeWhile (\<lambda>c. c \<noteq> 0) (err_nolm @ [0])) (0xB8000, m))
     else Inr (enable_long_mode k, build_page_tables m))"

section \<open>The page walk\<close>

text \<open>
  The CPU's translation of a linear address through the four levels from the root \<open>cr3\<close> names: bit 0 of an entry is
  present, bit 1 writable (required here whatever the access), bit 7 of the middle levels ends the
  walk at a 1GB or 2MB page.
\<close>

definition canonical :: "u64 \<Rightarrow> bool" where
  "canonical a \<longleftrightarrow> drop_bit 47 a = 0 \<or> drop_bit 47 a = 0x1FFFF"

definition table_slot :: "u64 \<Rightarrow> nat \<Rightarrow> u64 \<Rightarrow> u64" where
  "table_slot e sh a = push_bit 12 (take_bit 40 (drop_bit 12 e)) + 8 * take_bit 9 (drop_bit sh a)"

definition in_page :: "nat \<Rightarrow> u64 \<Rightarrow> u64 \<Rightarrow> u64" where
  "in_page sh e a = push_bit sh (take_bit (52 - sh) (drop_bit sh e)) + take_bit sh a"

definition usable_entry :: "u64 \<Rightarrow> bool" where
  "usable_entry e \<longleftrightarrow> bit e 0 \<and> bit e 1"

definition translate :: "memory \<Rightarrow> u64 \<Rightarrow> u64 \<Rightarrow> fault + u64" where
  "translate m root a =
     (if \<not> canonical a then Inl (General_protection a)
      else let e4 = get64 m (table_slot root 39 a) in
        if \<not> usable_entry e4 then Inl (Page_fault a)
      else let e3 = get64 m (table_slot e4 30 a) in
        if \<not> usable_entry e3 then Inl (Page_fault a)
        else if bit e3 7 then Inr (in_page 30 e3 a)
      else let e2 = get64 m (table_slot e3 21 a) in
        if \<not> usable_entry e2 then Inl (Page_fault a)
        else if bit e2 7 then Inr (in_page 21 e2 a)
      else let e1 = get64 m (table_slot e2 12 a) in
        if \<not> usable_entry e1 then Inl (Page_fault a)
        else Inr (in_page 12 e1 a))"

section \<open>The tables, byte by byte\<close>

definition byte_of :: "u32 \<Rightarrow> nat \<Rightarrow> u8" where
  "byte_of v k = ucast (drop_bit (8 * k) v)"

lemma unat_ucast_32 [simp]: "unat (ucast (a :: u32) :: u64) = unat a"
  by (simp add: unat_ucast_up)

lemma rep_stosd_zero:
  "unat edi + 4 * n < 2 ^ 32 \<Longrightarrow> snd (rep_stosd n 0 (edi, m))
     = (\<lambda>x. if unat edi \<le> unat x \<and> unat x < unat edi + 4 * n then 0 else m x)"
proof (induction n arbitrary: edi m)
  case (Suc n)
  have "unat (edi + 4) = unat edi + 4" using Suc.prems by (simp add: unat_ops)
  with Suc show ?case by (auto simp: put32_def fun_eq_iff)
qed (auto simp: fun_eq_iff)

lemma fill_pd_bytes:
  "unat edi + 8 * n < 2 ^ 32 \<Longrightarrow> snd (snd (fill_pd n (v, edi, m)))
     = (\<lambda>x. let k = unat x - unat edi in if unat edi \<le> unat x \<and> k < 8 * n \<and> k mod 8 < 4
         then byte_of (v + of_nat (k div 8) * 0x200000) (k mod 8) else m x)"
proof (induction n arbitrary: v edi m)
  case (Suc n)
  have e: "unat (edi + 8) = unat edi + 8" using Suc.prems by (simp add: unat_ops)
  show ?case
  proof
    fix x :: u64
    define k where "k = unat x - unat edi"
    show "snd (snd (fill_pd (Suc n) (v, edi, m))) x
      = (let k = unat x - unat edi in if unat edi \<le> unat x \<and> k < 8 * Suc n \<and> k mod 8 < 4
         then byte_of (v + of_nat (k div 8) * 0x200000) (k mod 8) else m x)"
    proof (cases "unat edi + 8 \<le> unat x")
      case True
      then have "unat x - (unat edi + 8) = k - 8" "8 \<le> k" by (simp_all add: k_def)
      moreover from this have "k div 8 = Suc ((k - 8) div 8)" "(k - 8) mod 8 = k mod 8" "k < 8 * Suc n \<longleftrightarrow> k - 8 < 8 * n"
        by (simp_all add: le_div_geq le_mod_geq) linarith
      ultimately show ?thesis using Suc e True
        by (simp add: Let_def k_def [symmetric] put32_def algebra_simps)
    next
      case False
      then have "snd (snd (fill_pd (Suc n) (v, edi, m))) x = put32 (ucast edi) v m x"
        using Suc e by (simp add: Let_def)
      moreover have "k < 8" "k div 8 = 0" "k mod 8 = k" using False by (auto simp: k_def)
      ultimately show ?thesis by (auto simp: Let_def k_def [symmetric] put32_def byte_of_def) (auto simp: k_def)
    qed
  qed
qed (simp add: Let_def)

lemma build_page_tables_bytes:
  "build_page_tables m x = (let a = unat x in
     if 0x72000 \<le> a \<and> a - 0x72000 < 0x1000 \<and> (a - 0x72000) mod 8 < 4
       then byte_of (0x83 + of_nat ((a - 0x72000) div 8) * 0x200000) ((a - 0x72000) mod 8)
     else if 0x71000 \<le> a \<and> a < 0x71004 then byte_of 0x72003 (a - 0x71000)
     else if 0x70000 \<le> a \<and> a < 0x70004 then byte_of 0x71003 (a - 0x70000)
     else if 0x70000 \<le> a \<and> a < 0x74000 then 0 else m x)"
proof -
  have "snd (rep_stosd 0x1000 0 (0x70000, m)) = (\<lambda>x. if 0x70000 \<le> unat x \<and> unat x < 0x74000 then 0 else m x)"
    using rep_stosd_zero [of "0x70000" "0x1000" m] by simp
  moreover have "snd (snd (fill_pd 512 (0x83, 0x72000, m'))) y
     = (let k = unat y - 0x72000 in if 0x72000 \<le> unat y \<and> k < 0x1000 \<and> k mod 8 < 4
         then byte_of (0x83 + of_nat (k div 8) * 0x200000) (k mod 8) else m' y)" for m' y
    using fill_pd_bytes [of "0x72000" 512 "0x83" m'] by simp
  ultimately show ?thesis
    by (simp add: build_page_tables_def table_consts case_prod_unfold Let_def put32_def byte_of_def)
qed

text \<open>Memory whose page-table area is as \<open>build_page_tables\<close> left it.\<close>

definition tables_intact :: "memory \<Rightarrow> bool" where
  "tables_intact m \<longleftrightarrow> (\<forall>x. 0x70000 \<le> unat x \<and> unat x < 0x73000 \<longrightarrow> m x = build_page_tables (\<lambda>_. 0) x)"

lemma build_tables_intact: "tables_intact (build_page_tables m)"
  by (simp add: tables_intact_def build_page_tables_bytes Let_def)

lemma get64_low:
  assumes "\<And>k. k < 8 \<Longrightarrow> m (a + of_nat k) = (if k < 4 then byte_of v k else 0)"
  shows "get64 m a = ucast v"
proof (rule bit_word_eqI)
  fix n
  assume "n < LENGTH(64)"
  then have n: "n < 64" "n div 8 < 8" by (simp_all add: less_mult_imp_div_less)
  have "8 * (n div 8) + n mod 8 = n" by simp
  moreover have "n div 8 < 4 \<longleftrightarrow> n < 32" by auto
  ultimately show "bit (get64 m a) n = bit (ucast v :: u64) n"
    using n by (auto simp: bit_get64 assms byte_of_def bit_simps dest: bit_imp_le_length)
qed

lemma page_table_entries:
  assumes "tables_intact m" "i < 512"
  shows "get64 m (0x70000 + 8 * of_nat i) = (if i = 0 then 0x71003 else 0)"
    and "get64 m (0x71000 + 8 * of_nat i) = (if i = 0 then 0x72003 else 0)"
    and "get64 m (0x72000 + 8 * of_nat i) = ucast (0x83 + of_nat i * 0x200000 :: u32)"
proof -
  have b: "m (b + 8 * of_nat i + of_nat k) = build_page_tables (\<lambda>_. 0) (b + 8 * of_nat i + of_nat k)
      \<and> unat (b + 8 * of_nat i + of_nat k) = unat b + (8 * i + k)"
    if "0x70000 \<le> unat b" "unat b \<le> 0x72000" "k < 8" for b :: u64 and k
    using unat_add_of_nat [of b "8 * i + k"] that assms by (simp add: add.assoc tables_intact_def)
  note bytes = b [THEN conjunct1, unfolded build_page_tables_bytes Let_def] b [THEN conjunct2]
  have "get64 m (0x70000 + 8 * of_nat i) = ucast (if i = 0 then 0x71003 else 0 :: u32)"
  proof (rule get64_low)
    fix k :: nat
    assume "k < 8"
    with bytes [of "0x70000" k] assms(2)
    show "m (0x70000 + 8 * of_nat i + of_nat k) = (if k < 4 then byte_of (if i = 0 then 0x71003 else 0) k else 0)"
      by (cases "i = 0") (auto simp: byte_of_def)
  qed
  then show "get64 m (0x70000 + 8 * of_nat i) = (if i = 0 then 0x71003 else 0)" by simp
  have "get64 m (0x71000 + 8 * of_nat i) = ucast (if i = 0 then 0x72003 else 0 :: u32)"
  proof (rule get64_low)
    fix k :: nat
    assume "k < 8"
    with bytes [of "0x71000" k] assms(2)
    show "m (0x71000 + 8 * of_nat i + of_nat k) = (if k < 4 then byte_of (if i = 0 then 0x72003 else 0) k else 0)"
      by (cases "i = 0") (auto simp: byte_of_def)
  qed
  then show "get64 m (0x71000 + 8 * of_nat i) = (if i = 0 then 0x72003 else 0)" by simp
  show "get64 m (0x72000 + 8 * of_nat i) = ucast (0x83 + of_nat i * 0x200000 :: u32)"
  proof (rule get64_low)
    fix k :: nat
    assume "k < 8"
    with bytes [of "0x72000" k] assms(2)
    show "m (0x72000 + 8 * of_nat i + of_nat k) = (if k < 4 then byte_of (0x83 + of_nat i * 0x200000) k else 0)"
      by (simp add: Let_def)
  qed
qed

section \<open>The walk over these tables\<close>

lemma unat_drop: "unat (drop_bit n a) = unat a div 2 ^ n" for a :: "'a::len word"
  by (subst unat_drop_bit_eq) (rule drop_bit_eq_div)

lemma unat_take: "unat (take_bit n a) = unat a mod 2 ^ n" for a :: "'a::len word"
  by (subst unsigned_take_bit_eq) (rule take_bit_eq_mod)

lemma unat_of_nat_64: "n < 2 ^ 64 \<Longrightarrow> unat (of_nat n :: u64) = n"
  by (simp add: unat_of_nat)

lemma take_drop_of_nat: "take_bit 9 (drop_bit sh a) = of_nat (unat a div 2 ^ sh mod 512)" for a :: u64
  unfolding word_unat_eq_iff unat_take unat_drop by (subst unat_of_nat_64) (auto intro: less_trans [of _ 512])

lemma canonical_unat: "canonical a \<longleftrightarrow> unat a < 2 ^ 47 \<or> 2 ^ 64 - 2 ^ 47 \<le> unat a"
proof -
  note unat_drop [of 47 a]
  moreover have "unat a < 2 ^ 64" using unsigned_less [of a, where 'a = nat] by simp
  ultimately show ?thesis unfolding canonical_def word_unat_eq_iff unat_drop by auto
qed

lemma access_fault_canonical: "access_fault a = (if canonical a then Page_fault a else General_protection a)"
  by (simp add: access_fault_def canonical_unat)

lemma small_slots:
  "table_slot 0x70000 39 a = 0x70000 + 8 * of_nat (unat a div 2 ^ 39 mod 512)"
  "table_slot 0x71003 30 a = 0x71000 + 8 * of_nat (unat a div 2 ^ 30 mod 512)"
  "table_slot 0x72003 21 a = 0x72000 + 8 * of_nat (unat a div 2 ^ 21 mod 512)"
  unfolding table_slot_def take_drop_of_nat by (simp_all add: drop_bit_eq_div take_bit_eq_mod push_bit_eq_mult)

lemma pd_entry:
  assumes "i < 512"
  defines "e \<equiv> ucast (0x83 + of_nat i * 0x200000 :: u32) :: u64"
  shows "usable_entry e" "bit e 7" "take_bit 31 (drop_bit 21 e) = of_nat i"
proof -
  have "unat (0x83 + of_nat i * 0x200000 :: u32) = 0x83 + i * 0x200000"
    unfolding unat_word_ariths using assms(1) by (simp add: unat_of_nat)
  then have u: "unat e = 0x83 + i * 0x200000" by (simp add: e_def unat_ucast_up)
  have b: "bit e n \<longleftrightarrow> odd ((0x83 + i * 0x200000) div 2 ^ n)" for n
  proof -
    have "bit e n \<longleftrightarrow> bit (unat e) n" by (simp add: bit_unsigned_iff)
    then show ?thesis unfolding u by (simp only: bit_iff_odd [of "_ :: nat"])
  qed
  have "(0x83 + i * 0x200000) div 2 = 65 + i * 1048576" "(0x83 + i * 0x200000) div 128 = 1 + i * 16384"
    by (auto intro: div_nat_eqI)
  then show "usable_entry e" "bit e 7" unfolding usable_entry_def b by simp_all
  show "take_bit 31 (drop_bit 21 e) = of_nat i" using assms(1)
    unfolding word_unat_eq_iff unat_take unat_drop u by (subst unat_of_nat_64) auto
qed

text \<open>A canonical address above the first 1GB leaves a slot 0 at one of the two upper levels.\<close>

lemma absent_slots:
  assumes "canonical a" and ge: "2 ^ 30 \<le> unat a"
  shows "unat a div 2 ^ 39 mod 512 \<noteq> 0 \<or> unat a div 2 ^ 39 mod 512 = 0 \<and> unat a div 2 ^ 30 mod 512 \<noteq> 0"
proof -
  have a64: "unat a < 2 ^ 64" using unsigned_less [of a, where 'a = nat] by simp
  consider "unat a < 2 ^ 39" | "2 ^ 39 \<le> unat a" "unat a < 2 ^ 47" | "2 ^ 64 - 2 ^ 47 \<le> unat a"
    using assms(1) unfolding canonical_unat by linarith
  then show ?thesis
  proof cases
    case 1
    with ge have "1 \<le> unat a div 2 ^ 30" "unat a div 2 ^ 30 < 512" by auto
    then show ?thesis by simp
  next
    case 2
    then have "1 \<le> unat a div 2 ^ 39" "unat a div 2 ^ 39 < 512" by auto
    then show ?thesis by simp
  next
    case 3
    with a64 have x: "2 ^ 25 - 256 \<le> unat a div 2 ^ 39" "unat a div 2 ^ 39 < 2 ^ 25" by auto
    then have "unat a div 2 ^ 39 div 512 = 65535" by (intro div_nat_eqI) simp_all
    then have "unat a div 2 ^ 39 mod 512 = unat a div 2 ^ 39 - 512 * 65535" by (simp add: modulo_nat_def)
    with x show ?thesis by simp
  qed
qed

lemma translate_intact:
  assumes "tables_intact m"
  shows "translate m (ucast PML4) a = (if mapped a 1 then Inr a else Inl (access_fault a))"
proof (cases "mapped a 1")
  case True
  then have a: "unat a < 2 ^ 30" by (simp add: mapped_def)
  then have c: "canonical a" by (simp add: canonical_unat)
  have i: "unat a div 2 ^ 39 = 0" "unat a div 2 ^ 30 = 0" "unat a div 2 ^ 21 < 512" using a by auto
  note pd = pd_entry [OF i(3)]
  have "of_nat (unat a div 2 ^ 21) = drop_bit 21 a"
    unfolding word_unat_eq_iff unat_drop using i(3) by (subst unat_of_nat_64) auto
  then have "in_page 21 (ucast (0x83 + of_nat (unat a div 2 ^ 21) * 0x200000 :: u32)) a = a"
    using pd(3) by (simp add: in_page_def bits_ident)
  then show ?thesis using True i pd(1,2) c page_table_entries [OF assms, of 0] page_table_entries(3) [OF assms i(3)]
    by (simp add: translate_def table_consts small_slots usable_entry_def bit_numeral_simps)
next
  case False
  show ?thesis
  proof (cases "canonical a")
    case True
    have n: "\<not> usable_entry 0" by (simp add: usable_entry_def)
    have "2 ^ 30 \<le> unat a" using False by (simp add: mapped_def)
    from absent_slots [OF True this] show ?thesis using False True n page_table_entries(1,2) [OF assms]
      by (auto simp: translate_def table_consts small_slots access_fault_canonical Let_def)
  qed (use False in \<open>simp add: translate_def access_fault_canonical\<close>)
qed

text \<open>The walk over tables that stay intact keeps the laws the memory model rests on.\<close>

lemma override_tables_intact:
  "tables_intact (override_on m' (build_page_tables m) {x. 0x70000 \<le> unat x \<and> unat x < 0x73000})"
  using build_tables_intact [of m] by (simp add: tables_intact_def)

interpretation boot_paging: identity_paging
  "translate (override_on m' (build_page_tables m) {x. 0x70000 \<le> unat x \<and> unat x < 0x73000}) (ucast PML4)" for m m'
  by unfold_locales (simp_all add: translate_intact [OF override_tables_intact])

text \<open>
  C13: the tables the stage-2 entry builds are the memory map the rest of the kernel is modelled on.
  Whatever memory held before and whatever is written outside the three table pages afterwards, the
  CPU's walk takes every address of the first 1GB to itself, writable; every other canonical address
  is a page fault, and every non-canonical one a general-protection fault.  So an eight-byte access
  succeeds in the model exactly if the walk takes all of its bytes to themselves.
\<close>

theorem page_tables_identity:
  "let walk = translate (override_on m' (build_page_tables m) {x. 0x70000 \<le> unat x \<and> unat x < 0x73000}) (ucast PML4)
   in walk a = (if mapped a 1 then Inr a else Inl (access_fault a))
    \<and> list_all (\<lambda>i. walk (a + of_nat i) = Inr (a + of_nat i)) [0..<8] = mapped a 8"
  unfolding Let_def using boot_paging.walk_inside boot_paging.walk_outside boot_paging.access_ok_iff [of 8] by auto

lemma print_nolm_bytes:
  "unat edi + 2 * length cs < 2 ^ 32 \<Longrightarrow> print_nolm cs (edi, m)
     = (\<lambda>x. let k = unat x - unat edi in if unat edi \<le> unat x \<and> k < 2 * length cs
         then (if even k then cs ! (k div 2) else 0x4F) else m x)"
proof (induction cs arbitrary: edi m)
  case (Cons c cs)
  have e: "unat (edi + 2) = unat edi + 2" using Cons.prems by (simp add: unat_ops)
  have e1: "unat (ucast edi + 1 :: u64) = unat edi + 1" using Cons.prems by (subst unat_add_small) simp_all
  show ?case
  proof
    fix x :: u64
    define k where "k = unat x - unat edi"
    show "print_nolm (c # cs) (edi, m) x = (let k = unat x - unat edi in if unat edi \<le> unat x \<and> k < 2 * length (c # cs)
         then (if even k then (c # cs) ! (k div 2) else 0x4F) else m x)"
    proof (cases "unat edi + 2 \<le> unat x")
      case True
      define j where "j = unat x - (unat edi + 2)"
      have j: "k = Suc (Suc j)" "unat x - (unat edi + 2) = j" using True by (simp_all add: k_def j_def)
      have "x \<noteq> ucast edi" "x \<noteq> ucast edi + 1" using True e1 by (auto simp: word_unat_eq_iff)
      with True j show ?thesis using Cons e by (simp add: Let_def k_def [symmetric])
    next
      case False
      then have "print_nolm (c # cs) (edi, m) x = (m(ucast edi := c, ucast edi + 1 := 0x4F)) x"
        using Cons e by (simp add: Let_def)
      moreover have "x = ucast edi \<longleftrightarrow> unat edi \<le> unat x \<and> k = 0" "x = ucast edi + 1 \<longleftrightarrow> unat edi \<le> unat x \<and> k = 1"
        "unat edi \<le> unat x \<longrightarrow> k = 0 \<or> k = 1"
        using False e1 by (auto simp: word_unat_eq_iff k_def)
      ultimately show ?thesis by (auto simp: Let_def k_def [symmetric])
    qed
  qed
qed (auto simp: fun_eq_iff)

text \<open>
  The 32-bit entry has two outcomes.  On a CPU with long mode, paging, the page-address extension
  and long mode are enabled over the identity map, as far as protected mode was on before.
  On any other CPU the error message is on the first line of the screen in white on red, nothing
  else in memory has changed, and the CPU is parked.
\<close>

theorem boot32_entry_outcome:
  "case boot32_entry cpuid (k, m) of
     Inr (k', m') \<Rightarrow> has_longmode cpuid \<and> long_mode_active k' = bit (cr0 k) 0
       \<and> translate m' (ucast (cr3 k')) a = (if mapped a 1 then Inr a else Inl (access_fault a))
   | Inl m' \<Rightarrow> \<not> has_longmode cpuid
       \<and> map (\<lambda>i. m' (0xB8000 + of_nat (2 * i))) [0..<32] = cstr ''ERR: CPU has no 64-bit long mode''
       \<and> map (\<lambda>i. m' (0xB8000 + of_nat (2 * i + 1))) [0..<32] = replicate 32 0x4F
       \<and> m' a = (if 0xB8000 \<le> unat a \<and> unat a < 0xB8040 then m' a else m a)"
proof (cases "has_longmode cpuid")
  case True
  have "cr3 (enable_long_mode k) = PML4" by (simp add: enable_long_mode_def Let_def)
  then show ?thesis using True translate_intact [OF build_tables_intact]
    by (simp add: boot32_entry_def enable_long_mode_active)
next
  case False
  have l: "length err_nolm = 32" by (simp add: err_nolm_def cstr_def)
  have t: "takeWhile (\<lambda>c. c \<noteq> 0) (err_nolm @ [0]) = err_nolm" by (simp add: err_nolm_def cstr_def)
  have p: "print_nolm err_nolm (0xB8000, m) = (\<lambda>x. let k = unat x - 0xB8000 in if 0xB8000 \<le> unat x \<and> k < 64
         then (if even k then err_nolm ! (k div 2) else 0x4F) else m x)"
    using print_nolm_bytes [of "0xB8000" err_nolm m] l by simp
  have u: "unat (0xB8000 + of_nat i :: u64) = 0xB8000 + i" if "i < 64" for i
    using that by (subst unat_add_of_nat) simp_all
  have "map (\<lambda>i. print_nolm err_nolm (0xB8000, m) (0xB8000 + of_nat (2 * i))) [0..<32] = err_nolm"
    "map (\<lambda>i. print_nolm err_nolm (0xB8000, m) (0xB8000 + of_nat (2 * i + 1))) [0..<32] = replicate 32 0x4F"
    by (rule nth_equalityI; simp add: l p u Let_def del: of_nat_mult of_nat_Suc of_nat_add)+
  moreover have "print_nolm err_nolm (0xB8000, m) a
      = (if 0xB8000 \<le> unat a \<and> unat a < 0xB8040 then print_nolm err_nolm (0xB8000, m) a else m a)"
    by (auto simp: p Let_def)
  ultimately show ?thesis using False
    by (simp add: boot32_entry_def t flip: err_nolm_def del: of_nat_mult of_nat_Suc of_nat_add)
qed

section \<open>The descriptor table\<close>

definition gdt64 :: "u64 list" where
  "gdt64 = [0x0000000000000000, 0x00CF9A000000FFFF, 0x00CF92000000FFFF, 0x00209A0000000000, 0x0000920000000000]"

text \<open>What the CPU reads from a descriptor: base, limit, type and privilege, and the mode bits;
  \<open>d_system\<close> is a system descriptor, \<open>d_rw\<close> writable for data and readable for code, \<open>d_ec\<close> expanding
  down for data and conforming for code.\<close>

record descriptor =
  d_base :: nat
  d_limit :: nat
  d_present :: bool
  d_dpl :: nat
  d_system :: bool
  d_code :: bool
  d_ec :: bool
  d_rw :: bool
  d_long :: bool
  d_big :: bool

definition descriptor_of :: "u64 \<Rightarrow> descriptor" where
  "descriptor_of d = (let limit = unat (take_bit 16 d) + unat (take_bit 4 (drop_bit 48 d)) * 2 ^ 16 in
     \<lparr>d_base = unat (take_bit 24 (drop_bit 16 d)) + unat (drop_bit 56 d) * 2 ^ 24,
      d_limit = (if bit d 55 then limit * 4096 + 4095 else limit), d_present = bit d 47,
      d_dpl = unat (take_bit 2 (drop_bit 45 d)), d_system = (\<not> bit d 44), d_code = (bit d 44 \<and> bit d 43), d_ec = bit d 42, d_rw = bit d 41,
      d_long = bit d 53, d_big = bit d 54\<rparr>)"

definition selected :: "u64 list \<Rightarrow> u16 \<Rightarrow> descriptor" where
  "selected table sel = descriptor_of (table ! unat (drop_bit 3 sel))"

definition code32_segment :: descriptor where
  "code32_segment = \<lparr>d_base = 0, d_limit = 0xFFFFFFFF, d_present = True, d_dpl = 0, d_system = False, d_code = True,
     d_ec = False, d_rw = True, d_long = False, d_big = True\<rparr>"

definition data32_segment :: descriptor where
  "data32_segment = \<lparr>d_base = 0, d_limit = 0xFFFFFFFF, d_present = True, d_dpl = 0, d_system = False, d_code = False,
     d_ec = False, d_rw = True, d_long = False, d_big = True\<rparr>"

definition code64_segment :: descriptor where
  "code64_segment = \<lparr>d_base = 0, d_limit = 0, d_present = True, d_dpl = 0, d_system = False, d_code = True,
     d_ec = False, d_rw = True, d_long = True, d_big = False\<rparr>"

definition data64_segment :: descriptor where
  "data64_segment = \<lparr>d_base = 0, d_limit = 0, d_present = True, d_dpl = 0, d_system = False, d_code = False,
     d_ec = False, d_rw = True, d_long = False, d_big = False\<rparr>"

lemma gdt64_segments:
  "selected gdt64 0x08 = code32_segment" "selected gdt64 0x10 = data32_segment"
  "selected gdt64 KERNEL_CS = code64_segment" "selected gdt64 0x20 = data64_segment"
  by (simp_all add: selected_def gdt64_def descriptor_of_def KERNEL_CS_def code32_segment_def data32_segment_def
      code64_segment_def data64_segment_def Let_def bit_numeral_simps drop_bit_eq_div take_bit_eq_mod)

section \<open>The 64-bit entry\<close>

text \<open>The symbols the linker resolves, and the return address of the call.\<close>

record entry_symbols =
  bss_start :: u64
  bss_end :: u64
  addr_memmap_count :: u64
  addr_memmap_entries :: u64
  kmain_return :: u64

text \<open>
  The accesses of the entry code go through the page walk, made afresh in the memory of the moment: a
  store into the tables changes what the next access finds.  An access of several bytes translates
  all of them before it stores.
\<close>

definition load_walk :: "memory \<Rightarrow> u64 \<Rightarrow> fault + u8" where
  "load_walk m a = bindE (translate m (ucast PML4) a) (\<lambda>p. Inr (m p))"

definition store_walk :: "u64 \<Rightarrow> u8 \<Rightarrow> memory \<Rightarrow> fault + memory" where
  "store_walk a v m = bindE (translate m (ucast PML4) a) (\<lambda>p. Inr (m(p := v)))"

primrec walk_bytes :: "nat \<Rightarrow> memory \<Rightarrow> u64 \<Rightarrow> fault + u64 list" where
  "walk_bytes 0 m a = Inr []"
| "walk_bytes (Suc n) m a = bindE (translate m (ucast PML4) a) (\<lambda>p.
     bindE (walk_bytes n m (a + 1)) (\<lambda>ps. Inr (p # ps)))"

definition store_bytes :: "u64 \<Rightarrow> u8 list \<Rightarrow> memory \<Rightarrow> fault + memory" where
  "store_bytes a bs m = bindE (walk_bytes (length bs) m a) (\<lambda>ps. Inr (fold (\<lambda>(p, b) m. m(p := b)) (zip ps bs) m))"

definition store32 :: "u64 \<Rightarrow> u32 \<Rightarrow> memory \<Rightarrow> fault + memory" where
  "store32 a v m = store_bytes a (map (\<lambda>k. ucast (drop_bit (8 * k) v)) [0..<4]) m"

text \<open>The return address that \<open>call\<close> pushes.\<close>

definition push_return :: "u64 \<Rightarrow> u64 \<Rightarrow> memory \<Rightarrow> fault + memory" where
  "push_return rsp v m = store_bytes (rsp - 8) (map (\<lambda>k. ucast (drop_bit (8 * k) v)) [0..<8]) m"

primrec rep_stosb :: "nat \<Rightarrow> u8 \<Rightarrow> u64 \<times> memory \<Rightarrow> fault + u64 \<times> memory" where
  "rep_stosb 0 v = (\<lambda>(rdi, m). Inr (rdi, m))"
| "rep_stosb (Suc n) v = (\<lambda>(rdi, m). bindE (store_walk rdi v m) (\<lambda>m. rep_stosb n v (rdi + 1, m)))"

primrec rep_movsb :: "nat \<Rightarrow> u64 \<times> u64 \<times> memory \<Rightarrow> fault + u64 \<times> u64 \<times> memory" where
  "rep_movsb 0 = (\<lambda>(rsi, rdi, m). Inr (rsi, rdi, m))"
| "rep_movsb (Suc n) = (\<lambda>(rsi, rdi, m). bindE (load_walk m rsi) (\<lambda>v.
     bindE (store_walk rdi v m) (\<lambda>m. rep_movsb n (rsi + 1, rdi + 1, m))))"

definition MEMMAP_COUNT_PHYS :: u64 where "MEMMAP_COUNT_PHYS = 0x5000"
definition MEMMAP_BUF_PHYS :: u64 where "MEMMAP_BUF_PHYS = 0x5020"
definition E820_ENTRY_SIZE :: u32 where "E820_ENTRY_SIZE = 24"

text \<open>Up to the entry of \<open>kmain\<close>: memory as C finds it.\<close>

definition long_entry :: "entry_symbols \<Rightarrow> memory \<Rightarrow> fault + memory" where
  "long_entry syms m =
     bindE (rep_stosb (unat (bss_end syms - bss_start syms)) 0 (bss_start syms, m)) (\<lambda>(rdi, m).
     bindE (load_walk m MEMMAP_COUNT_PHYS) (\<lambda>n.
     let eax = ucast n :: u32;
         eax = (if eax \<le> E820_MAX then eax else E820_MAX)
     in bindE (store32 (addr_memmap_count syms) eax m) (\<lambda>m.
     bindE (if eax = 0 then Inr m
            else let ecx = eax * E820_ENTRY_SIZE
                 in bindE (rep_movsb (unat ecx) (MEMMAP_BUF_PHYS, addr_memmap_entries syms, m)) (\<lambda>(rsi, rdi, m). Inr m))
     (\<lambda>m. push_return STACK64_TOP (kmain_return syms) m))))"

text \<open>\<open>struct e820_entry\<close> as C reads it.\<close>

definition e820_at :: "memory \<Rightarrow> u64 \<Rightarrow> e820_entry" where
  "e820_at m a = \<lparr>e_base = get64 m a, e_length = get64 m (a + 8), e_type = get32 m (a + 16), e_acpi_attr = get32 m (a + 20)\<rparr>"

section \<open>Accesses while the tables are intact\<close>

lemma walk_intact:
  assumes "tables_intact m" "unat a < 512 * 0x200000"
  shows "translate m (ucast PML4) a = Inr a" "load_walk m a = Inr (m a)" "store_walk a v m = Inr (m(a := v))"
  using translate_intact [OF assms(1), of a] assms(2) by (simp_all add: mapped_def load_walk_def store_walk_def)

lemma walk_bytes_intact:
  "tables_intact m \<Longrightarrow> unat a + n \<le> 512 * 0x200000 \<Longrightarrow> walk_bytes n m a = Inr (map (\<lambda>i. a + of_nat i) [0..<n])"
proof (induction n arbitrary: a)
  case (Suc n)
  have u: "unat (a + 1) = unat a + 1" using Suc.prems(2) by (subst unat_add_small) simp_all
  have "[0..<Suc n] = 0 # map Suc [0..<n]" by (simp add: map_Suc_upt upt_conv_Cons del: upt_Suc)
  then have "map (\<lambda>i. a + of_nat i) [0..<Suc n] = a # map (\<lambda>i. a + 1 + of_nat i) [0..<n]"
    by (simp add: add.assoc del: upt_Suc)
  with Suc.IH [of "a + 1"] Suc.prems u walk_intact(1) [OF Suc.prems(1), of a] show ?case by (simp del: upt_Suc)
qed simp

lemma fold_bytes:
  fixes a :: u64
  shows "unat a + length bs \<le> 512 * 0x200000 \<Longrightarrow>
   fold (\<lambda>(p, b) m. m(p := b)) (zip (map (\<lambda>i. a + of_nat i) [0..<length bs]) bs) m
     = (\<lambda>x. if unat a \<le> unat x \<and> unat x < unat a + length bs then bs ! (unat x - unat a) else m x)"
proof (induction bs arbitrary: a m)
  case (Cons b bs)
  have u: "unat (a + 1) = unat a + 1" using Cons.prems by (subst unat_add_small) simp_all
  have "[0..<Suc n] = 0 # map Suc [0..<n]" for n by (simp add: map_Suc_upt upt_conv_Cons del: upt_Suc)
  then have "map (\<lambda>i. a + of_nat i) [0..<length (b # bs)] = a # map (\<lambda>i. a + 1 + of_nat i) [0..<length bs]"
    by (simp add: add.assoc del: upt_Suc)
  then have "fold (\<lambda>(p, b) m. m(p := b)) (zip (map (\<lambda>i. a + of_nat i) [0..<length (b # bs)]) (b # bs)) m
    = fold (\<lambda>(p, b) m. m(p := b)) (zip (map (\<lambda>i. a + 1 + of_nat i) [0..<length bs]) bs) (m(a := b))"
    by (simp only: zip_Cons_Cons fold_simps prod.case)
  also have "\<dots> = (\<lambda>x. if unat (a + 1) \<le> unat x \<and> unat x < unat (a + 1) + length bs
      then bs ! (unat x - unat (a + 1)) else (m(a := b)) x)"
    by (rule Cons.IH) (use Cons.prems u in simp)
  also have "\<dots> = (\<lambda>x. if unat a \<le> unat x \<and> unat x < unat a + length (b # bs) then (b # bs) ! (unat x - unat a) else m x)"
  proof
    fix x :: u64
    have "x = a \<longleftrightarrow> unat x = unat a" by (simp add: word_unat_eq_iff)
    moreover have "(b # bs) ! (unat x - unat a) = bs ! (unat x - Suc (unat a))" if "unat a < unat x"
    proof -
      have "unat x - unat a = Suc (unat x - Suc (unat a))" using that by simp
      then show ?thesis by simp
    qed
    ultimately show "(if unat (a + 1) \<le> unat x \<and> unat x < unat (a + 1) + length bs
        then bs ! (unat x - unat (a + 1)) else (m(a := b)) x)
      = (if unat a \<le> unat x \<and> unat x < unat a + length (b # bs) then (b # bs) ! (unat x - unat a) else m x)"
      by (auto simp: u)
  qed
  finally show ?case .
qed (auto simp: fun_eq_iff)

lemma store_bytes_intact:
  assumes "tables_intact m" "unat a + length bs \<le> 512 * 0x200000"
  shows "store_bytes a bs m = Inr (\<lambda>x. if unat a \<le> unat x \<and> unat x < unat a + length bs then bs ! (unat x - unat a) else m x)"
  by (simp add: store_bytes_def walk_bytes_intact [OF assms] fold_bytes [OF assms(2)] del: upt_Suc)

lemma store32_intact:
  assumes "tables_intact m" "unat a + 4 \<le> 512 * 0x200000"
  shows "store32 a v m = Inr (put32 a v m)"
  unfolding store32_def by (subst store_bytes_intact) (use assms in \<open>auto simp: put32_def fun_eq_iff\<close>)

lemma push_return_intact:
  assumes "tables_intact m" "unat (rsp - 8) + 8 \<le> 512 * 0x200000"
  shows "push_return rsp v m = Inr (put64 (rsp - 8) v m)"
  unfolding push_return_def by (subst store_bytes_intact) (use assms in \<open>auto simp: put64_def fun_eq_iff\<close>)

text \<open>An address outside the three tables.\<close>

lemma tables_intact_upd: "tables_intact m \<Longrightarrow> unat a < 0x70000 \<or> 0x73000 \<le> unat a \<Longrightarrow> tables_intact (m(a := v))"
  by (auto simp: tables_intact_def)

lemma tables_intact_cong:
  assumes "tables_intact m" "\<And>x. 0x70000 \<le> unat x \<Longrightarrow> unat x < 0x73000 \<Longrightarrow> m' x = m x"
  shows "tables_intact m'"
  using assms by (simp add: tables_intact_def)

section \<open>The string instructions\<close>

lemma rep_stosb_eq:
  "tables_intact m \<Longrightarrow> unat rdi + n \<le> 512 * 0x200000 \<Longrightarrow> unat rdi + n \<le> 0x70000 \<or> 0x73000 \<le> unat rdi \<Longrightarrow>
   rep_stosb n v (rdi, m)
     = Inr (rdi + of_nat n, \<lambda>x. if unat rdi \<le> unat x \<and> unat x < unat rdi + n then v else m x)"
proof (induction n arbitrary: rdi m)
  case (Suc n)
  have u: "unat (rdi + 1) = unat rdi + 1" using Suc.prems(2) by (subst unat_add_small) simp_all
  have bytes: "(\<lambda>x. if unat (rdi + 1) \<le> unat x \<and> unat x < unat (rdi + 1) + n then v else (m(rdi := v)) x)
     = (\<lambda>x. if unat rdi \<le> unat x \<and> unat x < unat rdi + Suc n then v else m x)"
    using u by (auto simp: word_unat_eq_iff fun_eq_iff)
  have "tables_intact (m(rdi := v))" using Suc.prems by (intro tables_intact_upd) auto
  from Suc.IH [OF this, of "rdi + 1"]
  have tail: "rep_stosb n v (rdi + 1, m(rdi := v)) = Inr (rdi + 1 + of_nat n,
      \<lambda>x. if unat (rdi + 1) \<le> unat x \<and> unat x < unat (rdi + 1) + n then v else (m(rdi := v)) x)"
    using Suc.prems(2,3) unfolding u by linarith
  have walk: "store_walk rdi v m = Inr (m(rdi := v))" using Suc.prems by (intro walk_intact) auto
  show ?case unfolding rep_stosb.simps prod.case walk bindE_simps tail bytes by (simp add: add.assoc)
qed (auto simp: fun_eq_iff)

text \<open>The copy, for a source below its target.\<close>

lemma rep_movsb_eq:
  "tables_intact m \<Longrightarrow> unat rsi + n \<le> unat rdi \<Longrightarrow> unat rdi + n \<le> 512 * 0x200000 \<Longrightarrow>
   unat rdi + n \<le> 0x70000 \<or> 0x73000 \<le> unat rdi \<Longrightarrow> rep_movsb n (rsi, rdi, m)
     = Inr (rsi + of_nat n, rdi + of_nat n,
         \<lambda>x. if unat rdi \<le> unat x \<and> unat x < unat rdi + n then m (x - rdi + rsi) else m x)"
proof (induction n arbitrary: rsi rdi m)
  case (Suc n)
  have u: "unat (rdi + 1) = unat rdi + 1" "unat (rsi + 1) = unat rsi + 1"
    using Suc.prems by (simp_all add: unat_add_small)
  have d: "unat (x - rdi + rsi) = unat x - unat rdi + unat rsi"
    if "unat rdi \<le> unat x" "unat x < unat rdi + Suc n" for x
    using that Suc.prems by (subst unat_add_small) (simp_all add: unat_sub_small word_le_nat_alt)
  have byte: "(if unat (rdi + 1) \<le> unat x \<and> unat x < unat (rdi + 1) + n
        then (m(rdi := m rsi)) (x - (rdi + 1) + (rsi + 1)) else (m(rdi := m rsi)) x)
     = (if unat rdi \<le> unat x \<and> unat x < unat rdi + Suc n then m (x - rdi + rsi) else m x)" for x
  proof (cases "x = rdi")
    case False
    then have ne: "unat x \<noteq> unat rdi" by (simp add: word_unat_eq_iff)
    define y where "y = x - rdi + rsi"
    have y: "x - (rdi + 1) + (rsi + 1) = y" by (simp add: y_def)
    moreover have "y \<noteq> rdi" if "unat rdi \<le> unat x" "unat x < unat rdi + Suc n"
      using d [OF that, folded y_def] that Suc.prems by (auto simp: word_unat_eq_iff)
    ultimately show ?thesis using False u ne unfolding y y_def [symmetric] by auto
  qed (use u in simp)
  have "tables_intact (m(rdi := m rsi))" using Suc.prems by (intro tables_intact_upd) auto
  from Suc.IH [OF this, of "rsi + 1" "rdi + 1"]
  have tail: "rep_movsb n (rsi + 1, rdi + 1, m(rdi := m rsi)) = Inr (rsi + 1 + of_nat n, rdi + 1 + of_nat n,
      \<lambda>x. if unat (rdi + 1) \<le> unat x \<and> unat x < unat (rdi + 1) + n
        then (m(rdi := m rsi)) (x - (rdi + 1) + (rsi + 1)) else (m(rdi := m rsi)) x)"
    using Suc.prems(2-4) unfolding u by linarith
  have walk: "load_walk m rsi = Inr (m rsi)" "store_walk rdi (m rsi) m = Inr (m(rdi := m rsi))"
    using Suc.prems by (auto intro!: walk_intact)
  show ?case unfolding rep_movsb.simps prod.case walk bindE_simps tail byte by (simp add: add.assoc)
qed (auto simp: fun_eq_iff)

section \<open>Memory at the entry of \<open>kmain\<close>\<close>

lemma bit_get32:
  "bit (get32 m a) n \<longleftrightarrow> n < 32 \<and> bit (m (a + of_nat (n div 8))) (n mod 8)"
proof -
  have "bit (foldr (\<lambda>i acc. acc OR g i) xs 0 :: u32) k \<longleftrightarrow> (\<exists>i\<in>set xs. bit (g i) k)" for g :: "nat \<Rightarrow> u32" and xs k
    by (induction xs) (auto simp: bit_or_iff)
  note or = this
  show ?thesis
  proof
    assume "bit (get32 m a) n"
    then obtain i where i: "i < 4" "8 * i \<le> n" "n < 32" "bit (m (a + of_nat i)) (n - 8 * i)"
      unfolding get32_def or by (elim bexE) (auto simp: bit_simps)
    have "n - 8 * i < 8" using i(4) bit_imp_le_length by fastforce
    then have "n div 8 = i" "n mod 8 = n - 8 * i" using i(2) by (auto simp: modulo_nat_def div_nat_eqI)
    with i show "n < 32 \<and> bit (m (a + of_nat (n div 8))) (n mod 8)" by simp
  next
    assume n: "n < 32 \<and> bit (m (a + of_nat (n div 8))) (n mod 8)"
    then have "n div 8 < 4" "8 * (n div 8) \<le> n" "n - 8 * (n div 8) = n mod 8" by (auto simp: modulo_nat_def)
    with n have "\<exists>i\<in>set [0..<4]. bit (push_bit (8 * i) (ucast (m (a + of_nat i))) :: u32) n"
      by (intro bexI [of _ "n div 8"]) (auto simp: bit_simps dest: bit_imp_le_length)
    then show "bit (get32 m a) n" unfolding get32_def or .
  qed
qed

lemma get32_cong:
  "(\<And>i. i < 4 \<Longrightarrow> m (a + of_nat i) = m' (b + of_nat i)) \<Longrightarrow> get32 m a = get32 m' b"
  by (rule bit_word_eqI) (simp add: bit_get32)

lemma get32_bytes:
  assumes "\<And>k. k < 4 \<Longrightarrow> m (a + of_nat k) = byte_of v k"
  shows "get32 m a = v"
proof (rule bit_word_eqI)
  fix n
  assume "n < LENGTH(32)"
  then have n: "n < 32" "n div 8 < 4" by (simp_all add: less_mult_imp_div_less)
  have "8 * (n div 8) + n mod 8 = n" by simp
  then show "bit (get32 m a) n = bit v n" using n by (simp add: bit_get32 assms byte_of_def bit_simps)
qed

text \<open>An entry is the 24 bytes it is read from.\<close>

lemma e820_at_cong:
  assumes "\<And>i. i < 24 \<Longrightarrow> m (a + of_nat i) = m' (b + of_nat i)"
  shows "e820_at m a = e820_at m' b"
proof -
  have g64: "get64 m (a + of_nat k) = get64 m' (b + of_nat k)" if "k + 8 \<le> 24" for k
  proof (rule bit_word_eqI)
    fix n
    assume "n < LENGTH(64)"
    then have "n div 8 < 8" by (simp add: less_mult_imp_div_less)
    with assms [of "k + n div 8"] that
    show "bit (get64 m (a + of_nat k)) n = bit (get64 m' (b + of_nat k)) n" by (simp add: bit_get64 add.assoc)
  qed
  have g32: "get32 m (a + of_nat k) = get32 m' (b + of_nat k)" if "k + 4 \<le> 24" for k
  proof (rule get32_cong)
    fix i :: nat
    assume "i < 4"
    with assms [of "k + i"] that show "m (a + of_nat k + of_nat i) = m' (b + of_nat k + of_nat i)"
      by (simp add: add.assoc)
  qed
  show ?thesis using g64 [of 0] g64 [of 8] g32 [of 16] g32 [of 20] by (simp add: e820_at_def)
qed

text \<open>
  What a link of the kernel image has to satisfy: the statics lie above the staged map and below the
  page tables, and hold the two variables of the memory map, apart.
\<close>

definition entry_linked :: "entry_symbols \<Rightarrow> bool" where
  "entry_linked syms \<longleftrightarrow> 0x5620 \<le> unat (bss_start syms) \<and> unat (bss_start syms) \<le> unat (bss_end syms)
     \<and> unat (bss_end syms) \<le> 0x70000
     \<and> unat (bss_start syms) \<le> unat (addr_memmap_count syms) \<and> unat (addr_memmap_count syms) + 4 \<le> unat (bss_end syms)
     \<and> unat (bss_start syms) \<le> unat (addr_memmap_entries syms) \<and> unat (addr_memmap_entries syms) + 64 * 24 \<le> unat (bss_end syms)
     \<and> (unat (addr_memmap_count syms) + 4 \<le> unat (addr_memmap_entries syms)
        \<or> unat (addr_memmap_entries syms) + 64 * 24 \<le> unat (addr_memmap_count syms))"

definition staged_count :: "memory \<Rightarrow> nat" where
  "staged_count m = min 64 (unat (m MEMMAP_COUNT_PHYS))"

lemma staged_count_le: "staged_count m \<le> 64"
  by (simp add: staged_count_def)

lemma clamped_count:
  "(if ucast b \<le> E820_MAX then ucast b else E820_MAX) = (of_nat (min 64 (unat b)) :: u32)" for b :: u8
  by (auto simp: E820_MAX_def word_le_nat_alt word_unat_eq_iff unat_ucast_up min_def unat_of_nat)

lemma zero_bss:
  assumes "entry_linked syms" "tables_intact m"
  shows "rep_stosb (unat (bss_end syms - bss_start syms)) 0 (bss_start syms, m)
    = Inr (bss_end syms, \<lambda>x. if unat (bss_start syms) \<le> unat x \<and> unat x < unat (bss_end syms) then 0 else m x)"
proof -
  have "unat (bss_end syms - bss_start syms) = unat (bss_end syms) - unat (bss_start syms)"
    using assms by (intro unat_sub_small) (simp add: entry_linked_def word_le_nat_alt)
  moreover have "bss_start syms + of_nat (unat (bss_end syms - bss_start syms)) = bss_end syms" by simp
  ultimately show ?thesis using assms(1)
    by (subst rep_stosb_eq [OF assms(2)]) (auto simp: entry_linked_def fun_eq_iff simp del: word_of_nat_eq_0_iff)
qed

text \<open>All of memory after the entry code, apart from the return address.\<close>

definition entry_memory :: "entry_symbols \<Rightarrow> memory \<Rightarrow> memory \<Rightarrow> bool" where
  "entry_memory syms m m' \<longleftrightarrow> (\<forall>x. unat x < 0x8FFF8 \<or> 0x90000 \<le> unat x \<longrightarrow> m' x =
     (let n = staged_count m; ac = unat (addr_memmap_count syms); ae = unat (addr_memmap_entries syms) in
      if ae \<le> unat x \<and> unat x < ae + 24 * n then m (x - addr_memmap_entries syms + MEMMAP_BUF_PHYS)
      else if ac \<le> unat x \<and> unat x < ac + 4 then byte_of (of_nat n) (unat x - ac)
      else if unat (bss_start syms) \<le> unat x \<and> unat x < unat (bss_end syms) then 0 else m x))"

lemma long_entry_bytes:
  assumes l: "entry_linked syms" and i: "tables_intact m"
  shows "\<exists>m'. long_entry syms m = Inr m' \<and> entry_memory syms m m'"
proof -
  define n where "n = staged_count m"
  define ac where "ac = unat (addr_memmap_count syms)"
  define ae where "ae = unat (addr_memmap_entries syms)"
  let ?s = "unat (bss_start syms)" and ?e = "unat (bss_end syms)"
  note n = staged_count_le [of m, folded n_def]
  define m1 where "m1 = (\<lambda>x. if ?s \<le> unat x \<and> unat x < ?e then 0 else m x)"
  define m2 where "m2 = put32 (addr_memmap_count syms) (of_nat n) m1"
  define m3 where "m3 = (\<lambda>x. if ae \<le> unat x \<and> unat x < ae + 24 * n
    then m2 (x - addr_memmap_entries syms + MEMMAP_BUF_PHYS) else m2 x)"
  have low: "m1 x = m x" "m2 x = m x" if "unat x < 0x5620" for x
    using l that by (auto simp: m1_def m2_def put32_def entry_linked_def)
  have i1: "tables_intact m1" using l by (intro tables_intact_cong [OF i]) (auto simp: m1_def entry_linked_def)
  have i2: "tables_intact m2"
    using l by (intro tables_intact_cong [OF i1]) (auto simp: m2_def put32_def entry_linked_def)
  have i3: "tables_intact m3"
    using l n by (intro tables_intact_cong [OF i2]) (auto simp: m3_def ae_def entry_linked_def)
  have count: "load_walk m1 MEMMAP_COUNT_PHYS = Inr (m MEMMAP_COUNT_PHYS)"
    using walk_intact(2) [OF i1, of MEMMAP_COUNT_PHYS] by (simp add: low MEMMAP_COUNT_PHYS_def)
  have st: "store32 (addr_memmap_count syms) (of_nat n) m1 = Inr m2"
    using l by (simp add: store32_intact [OF i1] m2_def entry_linked_def)
  have u: "unat (of_nat n * E820_ENTRY_SIZE) = 24 * n"
    using n by (simp add: E820_ENTRY_SIZE_def unat_word_ariths unat_of_nat)
  have copy: "rep_movsb (24 * n) (MEMMAP_BUF_PHYS, addr_memmap_entries syms, m2)
      = Inr (MEMMAP_BUF_PHYS + of_nat (24 * n), addr_memmap_entries syms + of_nat (24 * n), m3)"
    using l n by (subst rep_movsb_eq [OF i2]) (auto simp: entry_linked_def m3_def ae_def MEMMAP_BUF_PHYS_def fun_eq_iff)
  have n0: "(of_nat n :: u32) = 0 \<longleftrightarrow> n = 0" using n by (simp add: word_unat_eq_iff unat_of_nat)
  have z: "m3 = m2" if "n = 0" using that by (auto simp: m3_def fun_eq_iff)
  have "long_entry syms m = push_return STACK64_TOP (kmain_return syms) m3"
    unfolding long_entry_def zero_bss [OF l i, folded m1_def] bindE_simps prod.case count Let_def clamped_count
      staged_count_def [symmetric] n_def [symmetric] st n0 u copy
    by (auto simp: z)
  then have "long_entry syms m = Inr (put64 0x8FFF8 (kmain_return syms) m3)"
    using push_return_intact [OF i3, of STACK64_TOP] by (simp add: STACK64_TOP_def)
  moreover have "m3 x = (if ae \<le> unat x \<and> unat x < ae + 24 * n then m (x - addr_memmap_entries syms + MEMMAP_BUF_PHYS)
       else if ac \<le> unat x \<and> unat x < ac + 4 then byte_of (of_nat n) (unat x - ac)
       else if ?s \<le> unat x \<and> unat x < ?e then 0 else m x)" for x
  proof -
    have "unat (x - addr_memmap_entries syms + MEMMAP_BUF_PHYS) < 0x5620" if "ae \<le> unat x" "unat x < ae + 24 * n"
      using that n by (subst unat_add_small) (simp_all add: unat_sub_small word_le_nat_alt MEMMAP_BUF_PHYS_def ae_def)
    then show ?thesis using low by (simp add: m3_def) (simp add: m2_def m1_def put32_def ac_def byte_of_def)
  qed
  ultimately show ?thesis
    by (intro exI [of _ "put64 0x8FFF8 (kmain_return syms) m3"])
      (auto simp: entry_memory_def put64_outside Let_def n_def ac_def ae_def)
qed

lemma entry_memory_outside:
  assumes "entry_linked syms" "entry_memory syms m m'"
    and "unat x < unat (bss_start syms) \<or> unat (bss_end syms) \<le> unat x \<and> unat x < 0x8FFF8 \<or> 0x90000 \<le> unat x"
  shows "m' x = m x"
  using assms staged_count_le [of m] by (auto simp: entry_memory_def entry_linked_def Let_def)

lemma entry_memory_count:
  assumes l: "entry_linked syms" and "entry_memory syms m m'"
  shows "get32 m' (addr_memmap_count syms) = of_nat (staged_count m)"
proof (rule get32_bytes)
  fix k :: nat
  assume k: "k < 4"
  then have "unat (addr_memmap_count syms + of_nat k) = unat (addr_memmap_count syms) + k"
    using l by (intro unat_add_of_nat) (simp add: entry_linked_def)
  with k l [unfolded entry_linked_def] staged_count_le [of m]
    assms(2) [unfolded entry_memory_def Let_def, rule_format, of "addr_memmap_count syms + of_nat k"]
  show "m' (addr_memmap_count syms + of_nat k) = byte_of (of_nat (staged_count m)) k" by auto
qed

lemma entry_memory_entries:
  assumes l: "entry_linked syms" and "entry_memory syms m m'" "i < staged_count m"
  shows "e820_at m' (addr_memmap_entries syms + of_nat (24 * i)) = e820_at m (MEMMAP_BUF_PHYS + of_nat (24 * i))"
proof (rule e820_at_cong)
  fix j :: nat
  assume j: "j < 24"
  let ?x = "addr_memmap_entries syms + of_nat (24 * i + j)"
  have "unat ?x = unat (addr_memmap_entries syms) + (24 * i + j)"
    using assms(3) staged_count_le [of m] j l by (intro unat_add_of_nat) (simp add: entry_linked_def)
  then have "m' ?x = m (?x - addr_memmap_entries syms + MEMMAP_BUF_PHYS)"
    using assms(3) j staged_count_le [of m] l [unfolded entry_linked_def]
      assms(2) [unfolded entry_memory_def Let_def, rule_format, of ?x] by auto
  also have "?x - addr_memmap_entries syms + MEMMAP_BUF_PHYS = MEMMAP_BUF_PHYS + of_nat (24 * i + j)" by simp
  finally show "m' (addr_memmap_entries syms + of_nat (24 * i) + of_nat j) = m (MEMMAP_BUF_PHYS + of_nat (24 * i) + of_nat j)"
    by (simp add: add.assoc)
qed

text \<open>
  C14: what C finds at the entry of \<open>kmain\<close>.  Over the tables that the 32-bit part has built the entry
  code runs without a fault, every access of it taken through the page walk; \<open>memmap_count\<close> is
  the staged count, never more than 64, the first \<open>memmap_count\<close> elements of \<open>memmap_entries\<close> are the
  staged entries, the remaining ones and every other static are zero, and apart from the statics and
  the return address on the stack memory is unchanged, the page tables included.
\<close>

theorem long_entry_statics:
  assumes "entry_linked syms" "tables_intact m" and n: "n = min 64 (unat (m MEMMAP_COUNT_PHYS))"
  shows "\<exists>m'. long_entry syms m = Inr m' \<and> get32 m' (addr_memmap_count syms) = of_nat n
    \<and> (\<forall>i<n. e820_at m' (addr_memmap_entries syms + of_nat (24 * i)) = e820_at m (MEMMAP_BUF_PHYS + of_nat (24 * i)))
    \<and> (\<forall>x. unat (bss_start syms) \<le> unat x \<and> unat x < unat (bss_end syms)
          \<and> \<not> (unat (addr_memmap_count syms) \<le> unat x \<and> unat x < unat (addr_memmap_count syms) + 4)
          \<and> \<not> (unat (addr_memmap_entries syms) \<le> unat x \<and> unat x < unat (addr_memmap_entries syms) + 24 * n)
          \<longrightarrow> m' x = 0)
    \<and> (\<forall>x. unat x < unat (bss_start syms) \<or> unat (bss_end syms) \<le> unat x \<and> unat x < 0x8FFF8 \<or> 0x90000 \<le> unat x
          \<longrightarrow> m' x = m x)
    \<and> tables_intact m'"
proof -
  have n': "n = staged_count m" using n by (simp add: staged_count_def)
  obtain m' where m': "long_entry syms m = Inr m'" "entry_memory syms m m'"
    using long_entry_bytes [OF assms(1,2)] by blast
  note mem = entry_memory_outside [OF assms(1) m'(2)] entry_memory_count [OF assms(1) m'(2)]
    entry_memory_entries [OF assms(1) m'(2)]
  have "tables_intact m'"
    using mem(1) assms(1) by (intro tables_intact_cong [OF assms(2)]) (auto simp: entry_linked_def)
  moreover have "m' x = 0" if "unat (bss_start syms) \<le> unat x" "unat x < unat (bss_end syms)"
    "\<not> (unat (addr_memmap_count syms) \<le> unat x \<and> unat x < unat (addr_memmap_count syms) + 4)"
    "\<not> (unat (addr_memmap_entries syms) \<le> unat x \<and> unat x < unat (addr_memmap_entries syms) + 24 * n)" for x
    using m'(2) [unfolded entry_memory_def Let_def, rule_format, of x] that assms(1) by (auto simp: n' entry_linked_def)
  ultimately show ?thesis using m'(1) mem unfolding n' by (intro exI [of _ m']) auto
qed

text \<open>A link of the image, and memory with two staged entries.\<close>

definition sample_symbols :: entry_symbols where
  "sample_symbols = \<lparr>bss_start = 0x16000, bss_end = 0x20000, addr_memmap_count = 0x16010,
     addr_memmap_entries = 0x16020, kmain_return = 0x10200\<rparr>"

definition staged_memory :: memory where
  "staged_memory = build_page_tables ((\<lambda>_. 0xFF)(0x5000 := 2))"

theorem long_entry_statics_witness:
  "entry_linked sample_symbols \<and> (\<exists>m'. long_entry sample_symbols staged_memory = Inr m' \<and> get32 m' 0x16010 = 2
    \<and> m' 0x16000 = 0 \<and> m' 0x16050 = 0 \<and> m' 0x20000 = 0xFF)"
proof -
  have f: "bss_start sample_symbols = 0x16000" "bss_end sample_symbols = 0x20000"
    "addr_memmap_count sample_symbols = 0x16010" "addr_memmap_entries sample_symbols = 0x16020"
    by (simp_all add: sample_symbols_def)
  have l: "entry_linked sample_symbols" by (simp add: entry_linked_def f)
  have t: "tables_intact staged_memory" by (simp add: staged_memory_def build_tables_intact)
  have n: "2 = min 64 (unat (staged_memory MEMMAP_COUNT_PHYS))"
    by (simp add: staged_memory_def MEMMAP_COUNT_PHYS_def build_page_tables_bytes Let_def)
  obtain m' where m': "long_entry sample_symbols staged_memory = Inr m'"
    "get32 m' (addr_memmap_count sample_symbols) = of_nat 2"
    "\<forall>x. unat (bss_start sample_symbols) \<le> unat x \<and> unat x < unat (bss_end sample_symbols)
          \<and> \<not> (unat (addr_memmap_count sample_symbols) \<le> unat x \<and> unat x < unat (addr_memmap_count sample_symbols) + 4)
          \<and> \<not> (unat (addr_memmap_entries sample_symbols) \<le> unat x \<and> unat x < unat (addr_memmap_entries sample_symbols) + 24 * 2)
          \<longrightarrow> m' x = 0"
    "\<forall>x. unat x < unat (bss_start sample_symbols) \<or> unat (bss_end sample_symbols) \<le> unat x \<and> unat x < 0x8FFF8 \<or> 0x90000 \<le> unat x
          \<longrightarrow> m' x = staged_memory x"
    using long_entry_statics [of sample_symbols staged_memory 2, OF l t n] by blast
  have "m' 0x16000 = 0" "m' 0x16050 = 0" using m'(3) [rule_format] by (simp_all add: f)
  moreover have "m' 0x20000 = 0xFF" using m'(4) [rule_format, of "0x20000"]
    by (simp add: staged_memory_def f build_page_tables_bytes Let_def)
  ultimately show ?thesis using l m'(1,2) by (simp add: f)
qed

end
