(* ===== verification/Boot.thy ===== *)
theory Boot
  imports Entry
begin

unbundle bit_operations_syntax

text \<open>
  The boot sector, \<^verbatim>\<open>kernel/arch/x86_64/boot.asm\<close>: the conversion of a sector number to the
  cylinder, head and sector registers of the BIOS, the loop that loads the kernel, the query of the
  BIOS memory map, and the order in which \<open>start\<close> runs them.  The BIOS is not part of the
  repository: its disk service \<open>int13\<close> and its memory-map service \<open>int15\<close> are arguments, functions of
  the registers, of a state \<open>'b\<close> of their own and of memory, and what their documentation promises is
  stated as named hypotheses.  The variables of the loader, which the BIOS does not know, are
  arguments of the loop.
\<close>

section \<open>Cylinder, head and sector\<close>

record disk_regs =
  d_ax :: u16
  d_bx :: u16
  d_cx :: u16
  d_dx :: u16
  d_es :: u16
  d_cf :: bool

definition spt :: u16 where "spt = 18"
definition heads :: u16 where "heads = 2"

text \<open>The two divisions have a zero high word; \<open>div\<close> leaves the quotient in \<open>ax\<close> and the remainder in \<open>dx\<close>.\<close>

definition lba_to_chs :: "disk_regs \<Rightarrow> disk_regs" where
  "lba_to_chs r =
     (let (ax, dx) = (d_ax r div spt, d_ax r mod spt);
          sector = dx + 1;
          (ax, dx) = (ax div heads, ax mod heads);
          dx = (dx AND 0xFF) OR push_bit 8 (dx AND 0xFF);
          bx = ax;
          ax = sector;
          cl = ax AND 0xFF;
          ch = bx AND 0xFF;
          bx = drop_bit 2 bx;
          bx = (bx AND 0xFF00) OR (bx AND 0xC0);
          cl = cl OR (bx AND 0xFF)
      in r\<lparr>d_ax := ax, d_bx := bx, d_cx := push_bit 8 ch OR cl, d_dx := dx\<rparr>)"

text \<open>The sector the BIOS reads for these registers, on a disk of this geometry.\<close>

definition chs_sector :: "disk_regs \<Rightarrow> nat" where
  "chs_sector r = unat (d_cx r AND 0x3F)"

definition chs_head :: "disk_regs \<Rightarrow> nat" where
  "chs_head r = unat (drop_bit 8 (d_dx r))"

definition chs_cylinder :: "disk_regs \<Rightarrow> nat" where
  "chs_cylinder r = unat (drop_bit 8 (d_cx r)) + 256 * unat (drop_bit 6 (d_cx r) AND 3)"

definition chs_lba :: "disk_regs \<Rightarrow> nat" where
  "chs_lba r = (chs_cylinder r * unat heads + chs_head r) * unat spt + chs_sector r - 1"

section \<open>Loading the kernel\<close>

type_synonym 'b io = "'b \<times> memory"

definition KERNEL_LOAD_SEG :: u16 where "KERNEL_LOAD_SEG = 0x1000"

text \<open>\<open>xor ax, ax\<close>, a logical instruction, clears the carry flag.\<close>

definition xor_ax_ax :: "disk_regs \<Rightarrow> disk_regs" where
  "xor_ax_ax r = r\<lparr>d_ax := 0, d_cf := False\<rparr>"

definition set_dl :: "u8 \<Rightarrow> u16 \<Rightarrow> u16" where
  "set_dl drive dx = (dx AND 0xFF00) OR ucast drive"

text \<open>\<open>.attempt\<close>, with \<open>tries\<close> left: \<open>Inr\<close> goes on at \<open>.ok\<close>, \<open>Inl\<close> is the disk error.\<close>

primrec attempt :: "(disk_regs \<Rightarrow> 'b io \<Rightarrow> disk_regs \<times> 'b io) \<Rightarrow> u8 \<Rightarrow> u16 \<Rightarrow> u16 \<Rightarrow> nat
    \<Rightarrow> disk_regs \<times> 'b io \<Rightarrow> 'b io + disk_regs \<times> 'b io" where
  "attempt int13 drive buf_seg buf_off 0 = (\<lambda>(r, io). Inl io)"
| "attempt int13 drive buf_seg buf_off (Suc tries) = (\<lambda>(r, io).
     let r = r\<lparr>d_es := buf_seg, d_bx := buf_off, d_dx := set_dl drive (d_dx r), d_ax := 0x0201\<rparr>;
         (r, io) = int13 r io;
         r = xor_ax_ax r
     in if \<not> d_cf r then Inr (r, io)
     else let r = r\<lparr>d_ax := d_ax r AND 0xFF, d_dx := set_dl drive (d_dx r)\<rparr>;
              (r, io) = int13 r io;
              r = xor_ax_ax r
          in attempt int13 drive buf_seg buf_off tries (r, io))"

lemma bindE_cong [fundef_cong]:
  "r = r' \<Longrightarrow> (\<And>x. r' = Inr x \<Longrightarrow> f x = g x) \<Longrightarrow> bindE r f = bindE r' g"
  by (cases r') simp_all

text \<open>
  \<open>.next\<close>, a loop that tests at its end: with \<open>sectors_left = 0\<close> on entry it runs 65536 times.
\<close>

function load_next :: "(disk_regs \<Rightarrow> 'b io \<Rightarrow> disk_regs \<times> 'b io) \<Rightarrow> u8 \<Rightarrow> u16 \<Rightarrow> u16 \<Rightarrow> u16 \<Rightarrow> u16
    \<Rightarrow> disk_regs \<times> 'b io \<Rightarrow> 'b io + disk_regs \<times> 'b io" where
  "load_next int13 drive lba buf_seg buf_off sectors_left (r, io) =
     bindE (attempt int13 drive buf_seg buf_off 3 (lba_to_chs (r\<lparr>d_ax := lba\<rparr>), io)) (\<lambda>(r, io).
     let buf_seg = (if buf_off + 512 < buf_off then buf_seg + 0x1000 else buf_seg);
         buf_off = buf_off + 512;
         lba = lba + 1;
         sectors_left = sectors_left - 1
     in if sectors_left \<noteq> 0 then load_next int13 drive lba buf_seg buf_off sectors_left (r, io) else Inr (r, io))"
  by pat_completeness auto
termination
proof (relation "measure (\<lambda>(int13, drive, lba, buf_seg, buf_off, sectors_left, r, io). unat (sectors_left - 1))", goal_cases)
  case 1
  show ?case by simp
next
  case prems: (2 int13 drive lba buf_seg buf_off sectors_left r io p r' io' seg off l left)
  then have "0 < unat (sectors_left - 1)" by (simp add: unat_gt_0)
  then have "1 \<le> sectors_left - 1" by (simp add: word_le_nat_alt)
  then have "unat (sectors_left - 1 - 1) < unat (sectors_left - 1)"
    using \<open>0 < unat (sectors_left - 1)\<close> by (subst unat_sub_small) simp_all
  with prems show ?case by simp
qed

declare load_next.simps [simp del]

definition load_kernel :: "(disk_regs \<Rightarrow> 'b io \<Rightarrow> disk_regs \<times> 'b io) \<Rightarrow> u8 \<Rightarrow> u16
    \<Rightarrow> disk_regs \<times> 'b io \<Rightarrow> 'b io + 'b io" where
  "load_kernel int13 drive KERNEL_SECTORS = (\<lambda>(r, io).
     bindE (load_next int13 drive 1 KERNEL_LOAD_SEG 0 KERNEL_SECTORS (r, io)) (\<lambda>(r, io). Inr io))"

section \<open>The conversion, read back\<close>

lemma small_masks:
  "(0xFF :: u16) = mask 8" "(0x3F :: u16) = mask 6" "(3 :: u16) = mask 2" "(0xC0 :: u16) = push_bit 6 (mask 2)"
  "(0xFF00 :: u16) = push_bit 8 (mask 8)"
  by (simp_all add: mask_eq_exp_minus_1)

lemma word_below: "unat w < 2 ^ k \<Longrightarrow> bit w n \<Longrightarrow> n < k" for w :: "'a::len word"
  by (metis bit_take_bit_iff take_bit_nat_eq_self_iff unsigned_take_bit_eq word_unat_eq_iff)

lemma packed_cx:
  fixes sector cyl :: u16
  assumes "unat sector < 64" "unat cyl < 1024"
  defines "cx \<equiv> push_bit 8 (cyl AND 0xFF) OR (sector AND 0xFF OR ((drop_bit 2 cyl AND 0xFF00 OR drop_bit 2 cyl AND 0xC0) AND 0xFF))"
  shows "cx AND 0x3F = sector" "drop_bit 8 cx = take_bit 8 cyl" "drop_bit 6 cx AND 3 = drop_bit 8 cyl"
proof -
  have s: "bit sector n \<Longrightarrow> n < 6" for n using word_below [of sector 6] assms(1) by simp
  have c: "bit cyl n \<Longrightarrow> n < 10" for n using word_below [of cyl 10] assms(2) by simp
  show "cx AND 0x3F = sector" "drop_bit 8 cx = take_bit 8 cyl" "drop_bit 6 cx AND 3 = drop_bit 8 cyl"
    unfolding cx_def small_masks
    by (rule bit_word_eqI; auto simp: bit_simps dest: s c)+
qed

lemma packed_dx:
  fixes h :: u16
  assumes "unat h < 256"
  shows "drop_bit 8 ((h AND 0xFF) OR push_bit 8 (h AND 0xFF)) = h"
proof -
  have "bit h n \<Longrightarrow> n < 8" for n using word_below [of h 8] assms by simp
  then show ?thesis unfolding small_masks by (intro bit_word_eqI) (auto simp: bit_simps)
qed

lemma lba_to_chs_decode:
  assumes "unat (d_ax r) < 18 * 2 * 1024"
  shows "chs_sector (lba_to_chs r) = unat (d_ax r) mod 18 + 1"
    and "chs_head (lba_to_chs r) = unat (d_ax r) div 18 mod 2"
    and "chs_cylinder (lba_to_chs r) = unat (d_ax r) div 36"
proof -
  define a where "a = unat (d_ax r)"
  define sec where "sec = d_ax r mod spt + 1"
  define cyl where "cyl = d_ax r div spt div heads"
  define hd where "hd = d_ax r div spt mod heads"
  have a: "a < 36864" using assms by (simp add: a_def)
  have sec: "unat sec = a mod 18 + 1" unfolding sec_def spt_def
    by (subst unat_add_small) (simp_all add: unat_mod a_def less_imp_le_nat [THEN le_less_trans] trans_less_add1)
  have cyl: "unat cyl = a div 36" by (simp add: cyl_def spt_def heads_def unat_div a_def div_mult2_eq [symmetric])
  have hd: "unat hd = a div 18 mod 2" by (simp add: hd_def spt_def heads_def unat_div unat_mod a_def)
  note cx = packed_cx [of sec cyl]
  have cx_eq: "d_cx (lba_to_chs r) = push_bit 8 (cyl AND 0xFF) OR (sec AND 0xFF OR ((drop_bit 2 cyl AND 0xFF00 OR drop_bit 2 cyl AND 0xC0) AND 0xFF))"
    and dx_eq: "d_dx (lba_to_chs r) = (hd AND 0xFF) OR push_bit 8 (hd AND 0xFF)"
    by (simp_all add: lba_to_chs_def Let_def sec_def cyl_def hd_def)
  have b: "unat sec < 64" "unat cyl < 1024" using a by (auto simp: sec cyl)
  show "chs_sector (lba_to_chs r) = unat (d_ax r) mod 18 + 1"
    using cx(1) [OF b] by (simp add: chs_sector_def cx_eq sec a_def)
  show "chs_head (lba_to_chs r) = unat (d_ax r) div 18 mod 2"
    using packed_dx [of hd] by (simp add: chs_head_def dx_eq hd a_def)
  have "chs_cylinder (lba_to_chs r) = unat (take_bit 8 cyl) + 256 * unat (drop_bit 8 cyl)"
    unfolding chs_cylinder_def cx_eq cx(2) [OF b] cx(3) [OF b] ..
  also have "\<dots> = unat cyl" unfolding unat_take unat_drop by simp
  finally show "chs_cylinder (lba_to_chs r) = unat (d_ax r) div 36" by (simp add: cyl a_def)
qed

text \<open>
  The registers \<open>lba_to_chs\<close> computes name the sector it was given: on 18 sectors and 2 heads every
  number below 36864 gives a valid sector, head and cylinder, which number back to it.
\<close>

theorem lba_to_chs_roundtrip:
  assumes "unat (d_ax r) < 18 * 2 * 1024"
  shows "chs_lba (lba_to_chs r) = unat (d_ax r) \<and> chs_sector (lba_to_chs r) \<in> {1..18}
    \<and> chs_head (lba_to_chs r) < 2 \<and> chs_cylinder (lba_to_chs r) < 1024"
proof -
  let ?a = "unat (d_ax r)"
  have "(?a div 36 * 2 + ?a div 18 mod 2) * 18 + (?a mod 18 + 1) - 1 = ?a"
    using div_mult_mod_eq [of ?a 18] div_mult_mod_eq [of "?a div 18" 2] by (simp add: div_mult2_eq [symmetric])
  with lba_to_chs_decode [OF assms] assms show ?thesis
    by (simp add: chs_lba_def spt_def heads_def)
qed

theorem lba_to_chs_roundtrip_witness:
  "chs_lba (lba_to_chs \<lparr>d_ax = 2879, d_bx = 0, d_cx = 0, d_dx = 0, d_es = 0, d_cf = False\<rparr>) = 2879"
  using lba_to_chs_roundtrip [of "\<lparr>d_ax = 2879, d_bx = 0, d_cx = 0, d_dx = 0, d_es = 0, d_cf = False\<rparr>"] by simp

section \<open>What is loaded\<close>

definition buffer_address :: "disk_regs \<Rightarrow> nat" where
  "buffer_address r = 16 * unat (d_es r) + unat (d_bx r)"

text \<open>
  The disk service on a healthy 1.44MB floppy: function 2 with one sector of one of its 80 cylinders
  and a buffer in conventional memory from 64KB on that does not cross a 64KB boundary clears the carry
  flag and puts the sector's bytes into the buffer; it changes nothing else from 64KB on.
\<close>

definition floppy_reads :: "(disk_regs \<Rightarrow> 'b io \<Rightarrow> disk_regs \<times> 'b io) \<Rightarrow> u8 \<Rightarrow> (nat \<Rightarrow> nat \<Rightarrow> u8) \<Rightarrow> bool" where
  "floppy_reads int13 drive img \<longleftrightarrow> (\<forall>r b m. d_ax r = 0x0201 \<and> d_dx r AND 0xFF = ucast drive
       \<and> chs_sector r \<in> {1..18} \<and> chs_head r < 2 \<and> chs_cylinder r < 80
       \<and> 0x10000 \<le> buffer_address r \<and> buffer_address r + 512 \<le> 0xA0000 \<and> buffer_address r mod 0x10000 + 512 \<le> 0x10000
     \<longrightarrow> (case int13 r (b, m) of (r', b', m') \<Rightarrow> \<not> d_cf r' \<and> (\<forall>x. 0x10000 \<le> unat x \<longrightarrow> m' x =
            (if buffer_address r \<le> unat x \<and> unat x < buffer_address r + 512
             then img (chs_lba r) (unat x - buffer_address r) else m x))))"

definition read_request :: "u8 \<Rightarrow> u16 \<Rightarrow> u16 \<Rightarrow> u16 \<Rightarrow> disk_regs \<Rightarrow> disk_regs" where
  "read_request drive seg off lba r = (let r = lba_to_chs (r\<lparr>d_ax := lba\<rparr>) in
     r\<lparr>d_es := seg, d_bx := off, d_dx := set_dl drive (d_dx r), d_ax := 0x0201\<rparr>)"

text \<open>The first attempt always goes on: the carry flag it tests is the one \<open>xor\<close> has cleared.\<close>

lemma attempt_goes_on:
  "attempt int13 drive seg off 3 (lba_to_chs (r\<lparr>d_ax := lba\<rparr>), io)
    = (case int13 (read_request drive seg off lba r) io of (r', io') \<Rightarrow> Inr (xor_ax_ax r', io'))"
  by (simp add: numeral_3_eq_3 xor_ax_ax_def read_request_def Let_def split: prod.split)

lemma set_dl_bits: "set_dl drive dx AND 0xFF = ucast drive" "drop_bit 8 (set_dl drive dx) = drop_bit 8 dx"
  unfolding set_dl_def small_masks by (rule bit_word_eqI; auto simp: bit_simps dest: bit_imp_le_length)+

lemma read_request_valid:
  assumes "unat lba < 18 * 2 * 1024"
  shows "d_ax (read_request drive seg off lba r) = 0x0201" "d_dx (read_request drive seg off lba r) AND 0xFF = ucast drive"
    "chs_sector (read_request drive seg off lba r) \<in> {1..18}" "chs_head (read_request drive seg off lba r) < 2"
    "chs_lba (read_request drive seg off lba r) = unat lba"
    "buffer_address (read_request drive seg off lba r) = 16 * unat seg + unat off"
    "chs_cylinder (read_request drive seg off lba r) = unat lba div 36"
proof -
  let ?r = "read_request drive seg off lba r" and ?c = "lba_to_chs (r\<lparr>d_ax := lba\<rparr>)"
  have c: "chs_sector ?r = chs_sector ?c" "chs_head ?r = chs_head ?c" "chs_cylinder ?r = chs_cylinder ?c"
    by (simp_all add: read_request_def Let_def chs_sector_def chs_head_def chs_cylinder_def set_dl_bits)
  note d = lba_to_chs_decode [of "r\<lparr>d_ax := lba\<rparr>", simplified, OF assms [simplified]]
  show "chs_sector ?r \<in> {1..18}" "chs_head ?r < 2" "chs_cylinder ?r = unat lba div 36" unfolding c d by simp_all
  have "(unat lba div 36 * 2 + unat lba div 18 mod 2) * 18 + (unat lba mod 18 + 1) - 1 = unat lba"
    using div_mult_mod_eq [of "unat lba" 18] div_mult_mod_eq [of "unat lba div 18" 2] by (simp add: div_mult2_eq [symmetric])
  then show "chs_lba ?r = unat lba" unfolding chs_lba_def c d by (simp add: spt_def heads_def)
qed (simp_all add: read_request_def Let_def set_dl_bits buffer_address_def)

text \<open>The buffer after \<open>k\<close> sectors.\<close>

definition seg_at :: "nat \<Rightarrow> u16" where
  "seg_at k = of_nat (0x1000 * Suc (k div 128))"

definition off_at :: "nat \<Rightarrow> u16" where
  "off_at k = of_nat (512 * (k mod 128))"

lemma buffer_at:
  assumes "k < 1152"
  shows "16 * unat (seg_at k) + unat (off_at k) = 0x10000 + 512 * k"
proof -
  define q where "q = k div 128"
  define p where "p = k mod 128"
  have k: "k = 128 * q + p" "q < 9" "p < 128" using assms by (auto simp: q_def p_def)
  then have "unat (seg_at k) = 0x1000 * Suc q" "unat (off_at k) = 512 * p"
    unfolding seg_at_def off_at_def q_def [symmetric] p_def [symmetric] by (subst unat_of_nat; simp)+
  with k(1) show ?thesis by simp
qed

lemma off_at_Suc:
  "off_at k + 512 = off_at (Suc k)" "off_at (Suc k) < off_at k \<longleftrightarrow> k mod 128 = 127"
proof -
  have m: "k mod 128 < 128" by simp
  then have u: "unat (off_at k) = 512 * (k mod 128)" unfolding off_at_def by (subst unat_of_nat) simp
  show "off_at k + 512 = off_at (Suc k)"
  proof (cases "k mod 128 = 127")
    case True
    then show ?thesis by (simp add: off_at_def mod_Suc)
  next
    case False
    then show ?thesis by (simp add: off_at_def mod_Suc algebra_simps)
  qed
  have "Suc k mod 128 < 128" by simp
  then have "unat (off_at (Suc k)) = 512 * (Suc k mod 128)" unfolding off_at_def by (subst unat_of_nat) simp
  then show "off_at (Suc k) < off_at k \<longleftrightarrow> k mod 128 = 127"
    by (simp add: word_less_nat_alt u mod_Suc)
qed

lemma seg_at_Suc: "(if k mod 128 = 127 then seg_at k + 0x1000 else seg_at k) = seg_at (Suc k)"
  by (simp add: seg_at_def div_Suc mod_Suc)

text \<open>One sector.\<close>

lemma load_step:
  assumes "floppy_reads int13 drive img" "k < 1152"
  shows "\<exists>r' b' m'. (\<forall>left. load_next int13 drive (of_nat (Suc k)) (seg_at k) (off_at k) left (r, b, m)
        = (if left - 1 \<noteq> 0 then load_next int13 drive (of_nat (Suc (Suc k))) (seg_at (Suc k)) (off_at (Suc k)) (left - 1) (r', b', m')
           else Inr (r', b', m')))
    \<and> (\<forall>x. 0x10000 \<le> unat x \<longrightarrow> m' x = (if 0x10000 + 512 * k \<le> unat x \<and> unat x < 0x10000 + 512 * k + 512
        then img (Suc k) (unat x - (0x10000 + 512 * k)) else m x))"
proof -
  let ?q = "read_request drive (seg_at k) (off_at k) (of_nat (Suc k)) r"
  obtain r' b' m' where i: "int13 ?q (b, m) = (r', b', m')" by (metis prod_cases3)
  have u: "unat (of_nat (Suc k) :: u16) = Suc k" using assms(2) by (subst unat_of_nat) simp
  then have u': "unat (of_nat (Suc k) :: u16) < 18 * 2 * 1024" using assms(2) by simp
  have lba: "of_nat (Suc k) + 1 = (of_nat (Suc (Suc k)) :: u16)" by simp
  note v = read_request_valid [OF u', of drive "seg_at k" "off_at k" r]
  have buf: "buffer_address ?q = 0x10000 + 512 * k" unfolding v(6) by (rule buffer_at [OF assms(2)])
  have "buffer_address ?q mod 0x10000 = 512 * (k mod 128)"
    unfolding buf using mult_mod_right [of 512 k 128] by simp
  then have "buffer_address ?q mod 0x10000 + 512 \<le> 0x10000" by simp
  moreover have "0x10000 \<le> buffer_address ?q" "buffer_address ?q + 512 \<le> 0xA0000" "chs_cylinder ?q < 80"
    unfolding buf v(7) u using assms(2) by simp_all
  ultimately have "d_ax ?q = 0x0201 \<and> d_dx ?q AND 0xFF = ucast drive \<and> chs_sector ?q \<in> {1..18} \<and> chs_head ?q < 2
      \<and> chs_cylinder ?q < 80 \<and> 0x10000 \<le> buffer_address ?q \<and> buffer_address ?q + 512 \<le> 0xA0000
      \<and> buffer_address ?q mod 0x10000 + 512 \<le> 0x10000" using v(1-4) by blast
  from assms(1) [unfolded floppy_reads_def, THEN spec, of ?q, THEN spec, of b, THEN spec, of m, THEN mp, OF this, unfolded i prod.case]
  have "\<forall>x. 0x10000 \<le> unat x \<longrightarrow> m' x =
      (if buffer_address ?q \<le> unat x \<and> unat x < buffer_address ?q + 512
       then img (chs_lba ?q) (unat x - buffer_address ?q) else m x)"
    by (rule conjunct2)
  then have "\<forall>x. 0x10000 \<le> unat x \<longrightarrow> m' x = (if 0x10000 + 512 * k \<le> unat x \<and> unat x < 0x10000 + 512 * k + 512
      then img (Suc k) (unat x - (0x10000 + 512 * k)) else m x)"
    unfolding v(5) buf u .
  moreover have "load_next int13 drive (of_nat (Suc k)) (seg_at k) (off_at k) left (r, b, m)
      = (if left - 1 \<noteq> 0 then load_next int13 drive (of_nat (Suc (Suc k))) (seg_at (Suc k)) (off_at (Suc k)) (left - 1) (xor_ax_ax r', b', m')
         else Inr (xor_ax_ax r', b', m'))" for left
    unfolding load_next.simps [of int13 drive "of_nat (Suc k)" "seg_at k" "off_at k" left r "(b, m)"]
      attempt_goes_on i prod.case bindE_simps Let_def off_at_Suc lba seg_at_Suc ..
  ultimately show ?thesis by blast
qed

text \<open>A byte of the next sector, by its distance from the start.\<close>

lemma sector_split:
  "65536 + 512 * k \<le> a \<Longrightarrow> a < 65536 + 512 * k + 512 \<Longrightarrow> (a - 65536) div 512 = k"
  "65536 + 512 * k \<le> a \<Longrightarrow> a < 65536 + 512 * k + 512 \<Longrightarrow> (a - 65536) mod 512 = a - (65536 + 512 * k)" for a k :: nat
proof -
  assume a: "65536 + 512 * k \<le> a" "a < 65536 + 512 * k + 512"
  then show d: "(a - 65536) div 512 = k" by (intro div_nat_eqI) simp_all
  show "(a - 65536) mod 512 = a - (65536 + 512 * k)"
    using a minus_mult_div_eq_mod [of "a - 65536" 512] by (simp add: d)
qed

lemma load_next_loads:
  assumes "floppy_reads int13 drive img"
  shows "k + Suc j \<le> 1152 \<Longrightarrow> \<exists>r' b' m'. load_next int13 drive (of_nat (Suc k)) (seg_at k) (off_at k) (of_nat (Suc j)) (r, b, m)
      = Inr (r', b', m')
    \<and> (\<forall>x. 0x10000 \<le> unat x \<longrightarrow> m' x = (if 0x10000 + 512 * k \<le> unat x \<and> unat x < 0x10000 + 512 * (k + Suc j)
        then img (1 + (unat x - 0x10000) div 512) ((unat x - 0x10000) mod 512) else m x))"
proof (induction j arbitrary: k r b m)
  case (0 k r b m)
  then have k: "k < 1152" by simp
  obtain r' b' m' where s: "\<And>left. load_next int13 drive (of_nat (Suc k)) (seg_at k) (off_at k) left (r, b, m)
        = (if left - 1 \<noteq> 0 then load_next int13 drive (of_nat (Suc (Suc k))) (seg_at (Suc k)) (off_at (Suc k)) (left - 1) (r', b', m')
           else Inr (r', b', m'))"
      "\<And>x. 0x10000 \<le> unat x \<Longrightarrow> m' x = (if 0x10000 + 512 * k \<le> unat x \<and> unat x < 0x10000 + 512 * k + 512
        then img (Suc k) (unat x - (0x10000 + 512 * k)) else m x)"
    using load_step [OF assms k, of r b m] by blast
  show ?case using s by (intro exI [of _ r'] exI [of _ b'] exI [of _ m']) (auto simp: sector_split)
next
  case (Suc j k r b m)
  then have k: "k < 1152" and k': "Suc k + Suc j \<le> 1152" by simp_all
  obtain r' b' m' where s: "\<And>left. load_next int13 drive (of_nat (Suc k)) (seg_at k) (off_at k) left (r, b, m)
        = (if left - 1 \<noteq> 0 then load_next int13 drive (of_nat (Suc (Suc k))) (seg_at (Suc k)) (off_at (Suc k)) (left - 1) (r', b', m')
           else Inr (r', b', m'))"
      "\<And>x. 0x10000 \<le> unat x \<Longrightarrow> m' x = (if 0x10000 + 512 * k \<le> unat x \<and> unat x < 0x10000 + 512 * k + 512
        then img (Suc k) (unat x - (0x10000 + 512 * k)) else m x)"
    using load_step [OF assms k, of r b m] by blast
  have l: "of_nat (Suc (Suc j)) - 1 = (of_nat (Suc j) :: u16)" by simp
  have "unat (of_nat (Suc j) :: u16) = Suc j" using k' by (subst unat_of_nat) simp
  then have "(of_nat (Suc j) :: u16) \<noteq> 0" by (metis nat.distinct(1) unat_0)
  with s(1) [of "of_nat (Suc (Suc j))", unfolded l] Suc.IH [OF k', of r' b' m']
  obtain r2 b2 m2 where t: "load_next int13 drive (of_nat (Suc k)) (seg_at k) (off_at k) (of_nat (Suc (Suc j))) (r, b, m) = Inr (r2, b2, m2)"
      "\<And>x. 0x10000 \<le> unat x \<Longrightarrow> m2 x = (if 0x10000 + 512 * Suc k \<le> unat x \<and> unat x < 0x10000 + 512 * (Suc k + Suc j)
        then img (1 + (unat x - 0x10000) div 512) ((unat x - 0x10000) mod 512) else m' x)"
    by auto
  show ?case using t(1) s(2) t(2)
    by (intro exI [of _ r2] exI [of _ b2] exI [of _ m2]) (auto simp: sector_split)
qed

lemma load_kernel_loads:
  assumes "floppy_reads int13 drive img" "1 \<le> unat n" "unat n \<le> 1152"
  shows "\<exists>b' m'. load_kernel int13 drive n (r, b, m) = Inr (b', m')
    \<and> (\<forall>x. 0x10000 \<le> unat x \<longrightarrow> m' x = (if unat x < 0x10000 + 512 * unat n
          then img (1 + (unat x - 0x10000) div 512) ((unat x - 0x10000) mod 512) else m x))"
proof -
  have n: "of_nat (Suc (unat n - 1)) = n" using assms(2) by simp
  have "of_nat (Suc 0) = (1 :: u16)" "seg_at 0 = KERNEL_LOAD_SEG" "off_at 0 = 0"
    by (simp_all add: seg_at_def off_at_def KERNEL_LOAD_SEG_def)
  with load_next_loads [OF assms(1), of 0 "unat n - 1" r b m] n assms(2,3) show ?thesis
    by (auto simp: load_kernel_def)
qed

text \<open>
  C15: on a healthy floppy the loader puts the image's sectors 1 to \<open>KERNEL_SECTORS\<close> one after the
  other from 64KB on, past the wrap of the segment offset every 128 sectors, and touches nothing
  above them.  The bound is the conventional memory below 640KB.
\<close>

theorem load_kernel_contiguous:
  assumes "floppy_reads int13 drive img" "1 \<le> unat n" "unat n \<le> 1152"
  shows "\<exists>b' m'. load_kernel int13 drive n (r, b, m) = Inr (b', m')
    \<and> (\<forall>x. 0x10000 \<le> unat x \<longrightarrow> m' x = (if unat x < 0x10000 + 512 * unat n
          then img (1 + (unat x - 0x10000) div 512) ((unat x - 0x10000) mod 512) else m x))"
  using assms by (rule load_kernel_loads)

text \<open>Whatever every disk call keeps of BIOS and memory, the loader keeps; and it always returns.\<close>

lemma load_kernel_keeps:
  assumes "\<And>r io. P io \<Longrightarrow> P (snd (int13 r io))" "P io"
  shows "\<exists>io'. load_kernel int13 drive n (r, io) = Inr io' \<and> P io'"
proof -
  have "P (snd p) \<Longrightarrow> \<exists>r' io'. load_next int13 drive lba seg off left p = Inr (r', io') \<and> P io'" for lba seg off left p
    using assms(1)
  proof (induction int13 drive lba seg off left p rule: load_next.induct)
    case (1 int13 drive lba seg off left r io)
    obtain r1 b1 m1 where q: "int13 (read_request drive seg off lba r) io = (r1, b1, m1)" by (metis prod_cases3)
    have i: "attempt int13 drive seg off 3 (lba_to_chs (r\<lparr>d_ax := lba\<rparr>), io) = Inr (xor_ax_ax r1, b1, m1)"
      by (simp add: attempt_goes_on q)
    have "P (b1, m1)" using 1(3) [of io "read_request drive seg off lba r"] 1(2) q by simp
    then show ?case using 1(1) [OF i] 1(3) by (subst load_next.simps) (simp add: i Let_def)
  qed
  from this [of "(r, io)" 1 KERNEL_LOAD_SEG 0 n] assms(2)
  obtain r' io' where "load_next int13 drive 1 KERNEL_LOAD_SEG 0 n (r, io) = Inr (r', io')" "P io'" by auto
  then show ?thesis by (simp add: load_kernel_def)
qed

lemma load_kernel_returns: "\<exists>io'. load_kernel int13 drive n (r, io) = Inr io'"
  using load_kernel_keeps [of "\<lambda>_. True"] by blast

text \<open>A disk that fails every call, with the carry flag set and nothing transferred.\<close>

definition dead_disk :: "disk_regs \<Rightarrow> 'b io \<Rightarrow> disk_regs \<times> 'b io" where
  "dead_disk r io = (r\<lparr>d_cf := True\<rparr>, io)"

text \<open>
  C39: the loader reports no disk error, whatever the BIOS answers.  The \<open>xor ax, ax\<close> between the disk
  call and the test of its carry flag clears that flag, so the retries and the error message are
  dead code: a disk that fails every read, and delivers nothing, is taken for one that delivered the
  kernel.
\<close>

theorem load_kernel_ignores_errors:
  "(\<exists>io'. load_kernel int13 drive n (r, io) = Inr io') \<and> load_kernel dead_disk drive n (r', io2) = Inr io2"
  using load_kernel_returns [of int13 drive n r io]
    load_kernel_keeps [of "\<lambda>io. io = io2" dead_disk io2 drive n r'] by (auto simp: dead_disk_def)

text \<open>A disk whose sector \<open>i\<close> is filled with the byte \<open>i\<close>.\<close>

definition sample_disk :: "disk_regs \<Rightarrow> unit io \<Rightarrow> disk_regs \<times> unit io" where
  "sample_disk r = (\<lambda>(b, m). (r\<lparr>d_cf := False\<rparr>, b,
     \<lambda>x. if buffer_address r \<le> unat x \<and> unat x < buffer_address r + 512 then of_nat (chs_lba r) else m x))"

lemma sample_disk_reads: "floppy_reads sample_disk 0 (\<lambda>i j. of_nat i)"
  by (simp add: floppy_reads_def sample_disk_def)

definition reset_regs :: disk_regs where
  "reset_regs = \<lparr>d_ax = 0, d_bx = 0, d_cx = 0, d_dx = 0, d_es = 0, d_cf = False\<rparr>"

theorem load_kernel_contiguous_witness:
  "\<exists>b' m'. load_kernel sample_disk 0 200 (reset_regs, (), \<lambda>_. 0) = Inr (b', m')
    \<and> m' 0x10000 = 1 \<and> m' 0x20000 = 129 \<and> m' 0x28FFF = 200 \<and> m' 0x29000 = 0"
proof -
  obtain b' m' where m': "load_kernel sample_disk 0 200 (reset_regs, (), \<lambda>_. 0) = Inr (b', m')"
    "\<forall>x. 0x10000 \<le> unat x \<longrightarrow> m' x = (if unat x < 0x10000 + 512 * unat (200 :: u16)
       then of_nat (1 + (unat x - 0x10000) div 512) else 0)"
    using load_kernel_contiguous [OF sample_disk_reads, of 200 reset_regs "()" "\<lambda>_. 0"] by auto
  then show ?thesis by (intro exI [of _ b'] exI [of _ m']) simp
qed

section \<open>The memory map\<close>

definition E820_COUNT :: u64 where "E820_COUNT = 0x5000"
definition E820_BUF :: u16 where "E820_BUF = 0x5020"
definition SMAP :: u32 where "SMAP = 0x534D4150"

text \<open>
  The map service, function 0xE820: a continuation value and the offset of a 24-byte buffer in the
  first segment go in; the carry flag, \<open>eax\<close> and the next continuation value come out.
\<close>

type_synonym 'b e820_service = "u32 \<Rightarrow> u16 \<Rightarrow> 'b io \<Rightarrow> (bool \<times> u32 \<times> u32) \<times> 'b io"

text \<open>\<open>.loop\<close> with fuel; \<open>None\<close> is a loop that is still running.\<close>

primrec e820_loop :: "nat \<Rightarrow> 'b e820_service \<Rightarrow> u32 \<Rightarrow> 'b io \<Rightarrow> 'b io option" where
  "e820_loop 0 int15 e820_next io = None"
| "e820_loop (Suc fuel) int15 e820_next io =
     (let ax = ucast (snd io E820_COUNT) * 24 :: u16;
          di = E820_BUF + ax;
          ((cf, eax, ebx), b, m) = int15 e820_next di io
      in if cf then Some (b, m)
      else if eax \<noteq> SMAP then Some (b, m)
      else if 64 \<le> m E820_COUNT then Some (b, m)
      else let m = m(E820_COUNT := m E820_COUNT + 1)
        in if ebx = 0 then Some (b, m) else e820_loop fuel int15 ebx (b, m))"

text \<open>The fallback: five \<open>stosd\<close> from the start of the buffer.\<close>

definition e820_fallback :: "memory \<Rightarrow> memory" where
  "e820_fallback m =
     (let m = put32 0x5020 0x00100000 m;
          m = put32 0x5024 0 m;
          m = put32 0x5028 0x07F00000 m;
          m = put32 0x502C 0 m;
          m = put32 0x5030 1 m
      in m(E820_COUNT := m E820_COUNT + 1))"

definition query_e820 :: "nat \<Rightarrow> 'b e820_service \<Rightarrow> u32 \<Rightarrow> 'b io \<Rightarrow> 'b io option" where
  "query_e820 fuel int15 e820_next = (\<lambda>(b, m).
     map_option (\<lambda>(b, m). (b, if m E820_COUNT \<noteq> 0 then m else e820_fallback m))
       (e820_loop fuel int15 e820_next (b, m(E820_COUNT := 0))))"

section \<open>The query ends\<close>

text \<open>
  The service writes its answer to the buffer it is given and otherwise keeps away from the staging
  area.
\<close>

definition keeps_staging :: "u16 \<Rightarrow> memory \<Rightarrow> memory \<Rightarrow> bool" where
  "keeps_staging di m m' \<longleftrightarrow> (\<forall>x. 0x5000 \<le> unat x \<and> unat x < 0x5638
     \<and> \<not> (unat di \<le> unat x \<and> unat x < unat di + 24) \<longrightarrow> m' x = m x)"

definition e820_writes_buffer :: "'b e820_service \<Rightarrow> bool" where
  "e820_writes_buffer int15 \<longleftrightarrow> (\<forall>ebx di b m. case int15 ebx di (b, m) of (_, _, m') \<Rightarrow> keeps_staging di m m')"

lemma staging_di:
  fixes m :: memory
  assumes "unat (m E820_COUNT) = k" "k \<le> 64"
  shows "unat (E820_BUF + ucast (m E820_COUNT) * 24 :: u16) = 0x5020 + 24 * k"
proof -
  have "unat (ucast (m E820_COUNT) :: u16) = k" using assms(1) by (subst unat_ucast_up) simp_all
  then show ?thesis using assms(2) by (simp add: E820_BUF_def unat_word_ariths)
qed

lemma keeps_staging_count:
  "keeps_staging di m m' \<Longrightarrow> unat di = 0x5020 + 24 * k \<Longrightarrow> m' E820_COUNT = m E820_COUNT"
  by (simp add: keeps_staging_def E820_COUNT_def)

lemma unat_count_Suc: "unat b < 64 \<Longrightarrow> unat (b + 1 :: u8) = Suc (unat b)"
  by (simp add: unat_word_ariths)

lemma e820_loop_ends:
  assumes "e820_writes_buffer int15"
  shows "unat (m E820_COUNT) \<le> 64 \<Longrightarrow> 64 < fuel + unat (m E820_COUNT) \<Longrightarrow> \<exists>b' m'. e820_loop fuel int15 ebx (b, m) = Some (b', m')
    \<and> unat (m' E820_COUNT) \<le> 64"
proof (induction fuel arbitrary: ebx b m)
  case (Suc fuel)
  define di where "di = (E820_BUF + ucast (m E820_COUNT) * 24 :: u16)"
  obtain cf eax ebx' b' m' where i: "int15 ebx di (b, m) = ((cf, eax, ebx'), b', m')" by (metis prod.exhaust)
  have "keeps_staging di m m'" using assms i unfolding e820_writes_buffer_def by (metis (mono_tags, lifting) case_prod_conv)
  then have c: "m' E820_COUNT = m E820_COUNT"
    using keeps_staging_count staging_di [of m] Suc.prems(1) unfolding di_def by blast
  note loop = e820_loop.simps(2) [of fuel int15 ebx "(b, m)", unfolded Let_def snd_conv, folded di_def, unfolded i prod.case c]
  show ?case
  proof (cases "cf \<or> eax \<noteq> SMAP \<or> 64 \<le> m E820_COUNT \<or> ebx' = 0")
    case True
    then show ?thesis using Suc.prems(1) c unfolding loop
      by (auto simp: unat_count_Suc word_le_nat_alt not_le)
  next
    case False
    then have n: "unat (m E820_COUNT) < 64" by (simp add: word_le_nat_alt not_le)
    then have "\<exists>b2 m2. e820_loop fuel int15 ebx' (b', m'(E820_COUNT := m E820_COUNT + 1)) = Some (b2, m2)
        \<and> unat (m2 E820_COUNT) \<le> 64"
      using Suc.prems by (intro Suc.IH) (simp_all add: unat_count_Suc)
    then show ?thesis using False unfolding loop by auto
  qed
qed simp

lemma query_e820_total:
  assumes "e820_writes_buffer int15"
  shows "\<exists>b' m'. query_e820 65 int15 e820_next (b, m) = Some (b', m') \<and> unat (m' E820_COUNT) \<in> {1..64}"
proof -
  obtain b1 m1 where m1: "e820_loop 65 int15 e820_next (b, m(E820_COUNT := 0)) = Some (b1, m1)" "unat (m1 E820_COUNT) \<le> 64"
    using e820_loop_ends [OF assms, of "m(E820_COUNT := 0)" 65 e820_next b] by auto
  have "e820_fallback m1 E820_COUNT = m1 E820_COUNT + 1"
    by (simp add: e820_fallback_def Let_def put32_def E820_COUNT_def)
  with m1 show ?thesis by (auto simp: query_e820_def Suc_le_eq unat_gt_0)
qed

text \<open>
  C16: the memory-map query always ends, and always leaves a map.  For a BIOS that writes only the
  buffer it is handed, whatever it answers and for however long its list is, at most 65 calls are
  made, and the staged count is between 1 and 64.
\<close>

theorem query_e820_ends:
  assumes "e820_writes_buffer int15"
  shows "\<exists>b' m'. query_e820 65 int15 e820_next (b, m) = Some (b', m') \<and> unat (m' E820_COUNT) \<in> {1..64}"
  using assms by (rule query_e820_total)

section \<open>What is staged\<close>

text \<open>
  A BIOS that reports the list \<open>es\<close>: its continuation values number the entries, and the one that
  names no further entry is 0.
\<close>

definition e820_reports :: "'b e820_service \<Rightarrow> (nat \<Rightarrow> u32) \<Rightarrow> e820_entry list \<Rightarrow> bool" where
  "e820_reports int15 cont es \<longleftrightarrow> es \<noteq> [] \<and> cont 0 = 0 \<and> (\<forall>k. 0 < k \<and> k < length es \<longrightarrow> cont k \<noteq> 0)
     \<and> (\<forall>k<length es. \<forall>di b m. case int15 (cont k) di (b, m) of ((cf, eax, ebx), b', m') \<Rightarrow>
          \<not> cf \<and> eax = SMAP \<and> ebx = (if Suc k = length es then 0 else cont (Suc k))
          \<and> e820_at m' (ucast di) = es ! k \<and> keeps_staging di m m')"

definition slot :: "nat \<Rightarrow> u64" where
  "slot i = MEMMAP_BUF_PHYS + of_nat (24 * i)"

lemma unat_slot: "i \<le> 64 \<Longrightarrow> j \<le> 24 \<Longrightarrow> unat (slot i + of_nat j) = 0x5020 + 24 * i + j"
  using unat_add_of_nat [of "0x5020" "24 * i + j"] by (simp add: slot_def MEMMAP_BUF_PHYS_def add.assoc)

lemma slot_kept:
  assumes "keeps_staging di m m'" "unat di = 0x5020 + 24 * k" "i \<le> 64" "i \<noteq> k"
  shows "e820_at m' (slot i) = e820_at m (slot i)"
proof (rule e820_at_cong)
  fix j :: nat
  assume "j < 24"
  moreover from this have "unat (slot i + of_nat j) = 0x5020 + 24 * i + j" using unat_slot [of i j] assms(3) by simp
  moreover have "i < k \<or> k < i" using assms(4) by linarith
  ultimately show "m' (slot i + of_nat j) = m (slot i + of_nat j)"
    using assms(1-3) by (auto simp: keeps_staging_def)
qed

lemma slot_upd_count:
  assumes "i \<le> 64"
  shows "e820_at (m(E820_COUNT := v)) (slot i) = e820_at m (slot i)"
proof (rule e820_at_cong)
  fix j :: nat
  assume "j < 24"
  then have "unat (slot i + of_nat j) \<noteq> unat E820_COUNT" using unat_slot [of i j] assms by (simp add: E820_COUNT_def)
  then show "(m(E820_COUNT := v)) (slot i + of_nat j) = m (slot i + of_nat j)" by auto
qed

lemma e820_loop_stages:
  assumes "e820_reports int15 cont es"
  shows "unat (m E820_COUNT) = k \<Longrightarrow> k \<le> 64 \<Longrightarrow> k < length es \<Longrightarrow> 64 < fuel + k
    \<Longrightarrow> \<forall>i<k. e820_at m (slot i) = es ! i
    \<Longrightarrow> \<exists>b' m'. e820_loop fuel int15 (cont k) (b, m) = Some (b', m') \<and> unat (m' E820_COUNT) = min 64 (length es)
      \<and> (\<forall>i<min 65 (length es). e820_at m' (slot i) = es ! i)"
proof (induction fuel arbitrary: k b m)
  case (Suc fuel)
  define di where "di = (E820_BUF + ucast (m E820_COUNT) * 24 :: u16)"
  have di: "unat di = 0x5020 + 24 * k" unfolding di_def using Suc.prems(1,2) by (rule staging_di)
  then have sl: "ucast di = slot k"
    using unat_slot [of k 0] Suc.prems(2) by (simp add: word_unat_eq_iff unat_ucast_up)
  obtain cf eax ebx b' m' where i: "int15 (cont k) di (b, m) = ((cf, eax, ebx), b', m')" by (metis prod.exhaust)
  from assms [unfolded e820_reports_def] Suc.prems(3)
  have "case int15 (cont k) di (b, m) of ((cf, eax, ebx), b', m') \<Rightarrow>
      \<not> cf \<and> eax = SMAP \<and> ebx = (if Suc k = length es then 0 else cont (Suc k))
      \<and> e820_at m' (ucast di) = es ! k \<and> keeps_staging di m m'" by simp
  then have r: "\<not> cf" "eax = SMAP" "ebx = (if Suc k = length es then 0 else cont (Suc k))"
      "e820_at m' (slot k) = es ! k" "keeps_staging di m m'" unfolding i sl by simp_all
  have c: "m' E820_COUNT = m E820_COUNT" using keeps_staging_count [OF r(5) di] .
  have st: "\<forall>i<Suc k. e820_at m' (slot i) = es ! i"
    using slot_kept [OF r(5) di] r(4) Suc.prems(2,5) by (auto simp: less_Suc_eq)
  note loop = e820_loop.simps(2) [of fuel int15 "cont k" "(b, m)", unfolded Let_def snd_conv, folded di_def, unfolded i prod.case c]
  have full: "64 \<le> m E820_COUNT \<longleftrightarrow> k = 64" using Suc.prems(1,2) by (auto simp: word_le_nat_alt)
  have nz: "cont (Suc k) \<noteq> 0" if "Suc k < length es" using assms that by (simp add: e820_reports_def)
  let ?m = "m'(E820_COUNT := m E820_COUNT + 1)"
  have m: "unat (?m E820_COUNT) = Suc k" "\<forall>i<Suc k. e820_at ?m (slot i) = es ! i" if "k < 64"
    using that Suc.prems(1) st by (simp_all add: unat_count_Suc slot_upd_count)
  consider "k = 64" | "k < 64" "Suc k = length es" | "k < 64" "Suc k < length es" using Suc.prems(2,3) by linarith
  then show ?case
  proof cases
    case 1
    then show ?thesis using st r(1,2) full Suc.prems(1,3) c unfolding loop by (auto simp: min_def)
  next
    case 2
    then show ?thesis using m r(1-3) full unfolding loop by auto
  next
    case 3
    then have "\<exists>b2 m2. e820_loop fuel int15 (cont (Suc k)) (b', ?m) = Some (b2, m2) \<and> unat (m2 E820_COUNT) = min 64 (length es)
      \<and> (\<forall>i<min 65 (length es). e820_at m2 (slot i) = es ! i)"
      using Suc.prems(4) by (intro Suc.IH m) simp_all
    then show ?thesis using 3 r(1-3) full nz unfolding loop by auto
  qed
qed simp

lemma query_e820_staged:
  assumes "e820_reports int15 cont es"
  shows "\<exists>b' m'. query_e820 65 int15 0 (b, m) = Some (b', m') \<and> unat (m' E820_COUNT) = min 64 (length es)
    \<and> (\<forall>i<min 65 (length es). e820_at m' (slot i) = es ! i)"
proof -
  have es: "0 < length es" "cont 0 = 0" using assms by (simp_all add: e820_reports_def)
  obtain b1 m1 where m1: "e820_loop 65 int15 0 (b, m(E820_COUNT := 0)) = Some (b1, m1)"
      "unat (m1 E820_COUNT) = min 64 (length es)" "\<forall>i<min 65 (length es). e820_at m1 (slot i) = es ! i"
    using e820_loop_stages [OF assms, of "m(E820_COUNT := 0)" 0 65 b] es by auto
  then have "m1 E820_COUNT \<noteq> 0" using es(1) by (auto simp: min_def split: if_splits)
  with m1 show ?thesis by (simp add: query_e820_def)
qed

text \<open>
  The staged map is the BIOS's.  When the BIOS reports a list, the count byte is its length, at
  most 64, and the buffer holds its first entries in order.
\<close>

theorem query_e820_stages:
  assumes "e820_reports int15 cont es"
  shows "\<exists>b' m'. query_e820 65 int15 0 (b, m) = Some (b', m') \<and> unat (m' E820_COUNT) = min 64 (length es)
    \<and> map (\<lambda>i. e820_at m' (MEMMAP_BUF_PHYS + of_nat (24 * i))) [0..<min 64 (length es)] = take 64 es"
proof -
  obtain b' m' where m': "query_e820 65 int15 0 (b, m) = Some (b', m')" "unat (m' E820_COUNT) = min 64 (length es)"
      "\<forall>i<min 65 (length es). e820_at m' (slot i) = es ! i"
    using query_e820_staged [OF assms, of b m] by blast
  have "map (\<lambda>i. e820_at m' (slot i)) [0..<min 64 (length es)] = take 64 es"
    using m'(3) by (intro nth_equalityI) auto
  with m'(1,2) show ?thesis by (intro exI [of _ b'] exI [of _ m']) (simp add: slot_def)
qed

text \<open>
  A list of more than 64 entries overruns the staging buffer by one entry: the service has already
  written entry 65 at 0x5620, the documented end, when the count is compared with the limit.
\<close>

theorem query_e820_overruns:
  assumes "e820_reports int15 cont es" "64 < length es"
  shows "\<exists>b' m'. query_e820 65 int15 0 (b, m) = Some (b', m') \<and> m' E820_COUNT = 64 \<and> e820_at m' 0x5620 = es ! 64"
proof -
  obtain b' m' where m': "query_e820 65 int15 0 (b, m) = Some (b', m')" "unat (m' E820_COUNT) = min 64 (length es)"
      "\<forall>i<min 65 (length es). e820_at m' (slot i) = es ! i"
    using query_e820_staged [OF assms(1), of b m] by blast
  have "slot 64 = 0x5620" by (simp add: slot_def MEMMAP_BUF_PHYS_def)
  moreover have "64 < min 65 (length es)" using assms(2) by simp
  ultimately have "e820_at m' 0x5620 = es ! 64" using m'(3) by metis
  moreover have "m' E820_COUNT = 64" using m'(2) assms(2) by (simp add: word_unat_eq_iff)
  ultimately show ?thesis using m'(1) by blast
qed

text \<open>
  When the first query already fails, by the carry flag or a wrong signature, the map is one usable
  entry from 1MB, 127MB long.
\<close>

theorem query_e820_falls_back:
  assumes "int15 0 E820_BUF (b, m(E820_COUNT := 0)) = ((cf, eax, ebx), b', m')" "cf \<or> eax \<noteq> SMAP"
    and "keeps_staging E820_BUF (m(E820_COUNT := 0)) m'"
  shows "\<exists>t. query_e820 (Suc fuel) int15 0 (b, m) = Some (b', t) \<and> t E820_COUNT = 1
    \<and> e_base (e820_at t MEMMAP_BUF_PHYS) = 0x100000 \<and> e_length (e820_at t MEMMAP_BUF_PHYS) = 0x7F00000
    \<and> e_type (e820_at t MEMMAP_BUF_PHYS) = 1"
proof -
  have c: "m' E820_COUNT = 0" using keeps_staging_count [OF assms(3), of 0] by (simp add: E820_BUF_def)
  let ?t = "e820_fallback m'"
  have "query_e820 (Suc fuel) int15 0 (b, m) = Some (b', ?t)"
    using assms(1,2) c by (auto simp: query_e820_def)
  moreover have "?t E820_COUNT = 1" using c by (simp add: e820_fallback_def Let_def put32_def E820_COUNT_def)
  moreover have "get64 ?t 0x5020 = ucast (0x100000 :: u32)" "get64 ?t 0x5028 = ucast (0x7F00000 :: u32)"
    by (rule get64_low; auto simp: e820_fallback_def Let_def put32_def E820_COUNT_def byte_of_def unat_add_of_nat word_unat_eq_iff)+
  moreover have "get32 ?t 0x5030 = 1"
    by (rule get32_bytes) (auto simp: e820_fallback_def Let_def put32_def E820_COUNT_def byte_of_def unat_add_of_nat word_unat_eq_iff)
  ultimately show ?thesis by (intro exI [of _ ?t]) (simp add: e820_at_def MEMMAP_BUF_PHYS_def)
qed

section \<open>A BIOS with a table\<close>

definition write_entry :: "u64 \<Rightarrow> e820_entry \<Rightarrow> memory \<Rightarrow> memory" where
  "write_entry a e m = put32 (a + 20) (e_acpi_attr e) (put32 (a + 16) (e_type e)
     (put64 (a + 8) (e_length e) (put64 a (e_base e) m)))"

definition table_bios :: "e820_entry list \<Rightarrow> unit e820_service" where
  "table_bios es ebx di = (\<lambda>(b, m). let k = unat ebx in
     ((False, SMAP, if Suc k = length es then 0 else of_nat (Suc k)), b,
      if k < length es then write_entry (ucast di) (es ! k) m else m))"

definition failing_bios :: "unit e820_service" where
  "failing_bios ebx di io = ((True, 0, 0), io)"

lemma get32_put32_same: "unat a + 4 \<le> 2 ^ 64 \<Longrightarrow> get32 (put32 a v m) a = v"
  by (rule get32_bytes) (simp add: put32_def byte_of_def unat_add_of_nat)

lemma put32_outside: "\<not> (unat a \<le> unat x \<and> unat x < unat a + 4) \<Longrightarrow> put32 a v m x = m x"
  by (auto simp: put32_def)

lemma e820_at_write_entry:
  assumes "unat a + 24 < 2 ^ 64"
  shows "e820_at (write_entry a e m) a = e"
proof -
  have u: "unat (a + of_nat k) = unat a + k" if "k \<le> 24" for k using assms that by (intro unat_add_of_nat) simp
  note u' = u [of 8, simplified] u [of 16, simplified] u [of 20, simplified]
  have "get32 (write_entry a e m) (a + 20) = e_acpi_attr e"
    unfolding write_entry_def using assms by (intro get32_put32_same) (simp add: u')
  moreover have "get32 (write_entry a e m) (a + 16) = get32 (put32 (a + 16) (e_type e) (put64 (a + 8) (e_length e) (put64 a (e_base e) m))) (a + 16)"
    unfolding write_entry_def using assms u [of "16 + _"]
    by (intro get32_cong put32_outside) (simp add: u' add.assoc)
  moreover have "get32 (put32 (a + 16) (e_type e) m') (a + 16) = e_type e" for m'
    using assms by (intro get32_put32_same) (simp add: u')
  moreover have "get64 (write_entry a e m) (a + of_nat k) = get64 (put64 (a + 8) (e_length e) (put64 a (e_base e) m)) (a + of_nat k)"
    if "k \<le> 8" for k unfolding write_entry_def
  proof (rule get64_cong)
    fix i :: nat
    assume "i < 8"
    then have "unat (a + of_nat k + of_nat i) < unat a + 16" using u [of "k + i"] that by (simp add: add.assoc)
    then show "put32 (a + 20) (e_acpi_attr e) (put32 (a + 16) (e_type e) (put64 (a + 8) (e_length e) (put64 a (e_base e) m)))
        (a + of_nat k + of_nat i) = put64 (a + 8) (e_length e) (put64 a (e_base e) m) (a + of_nat k + of_nat i)"
      by (simp add: put32_outside u')
  qed
  note this [of 0] this [of 8]
  moreover have "get64 (put64 (a + 8) (e_length e) (put64 a (e_base e) m)) a = e_base e"
    using assms by (subst get64_put64_other) (simp_all add: u' get64_put64_same)
  moreover have "get64 (put64 (a + 8) (e_length e) (put64 a (e_base e) m)) (a + 8) = e_length e"
    using assms by (intro get64_put64_same) (simp add: u')
  ultimately show ?thesis by (simp add: e820_at_def)
qed

lemma write_entry_outside:
  assumes "unat a + 24 < 2 ^ 64" "\<not> (unat a \<le> unat x \<and> unat x < unat a + 24)"
  shows "write_entry a e m x = m x"
proof -
  have "unat (a + 8) = unat a + 8" "unat (a + 16) = unat a + 16" "unat (a + 20) = unat a + 20"
    using assms(1) by (simp_all add: unat_add_small)
  with assms(2) show ?thesis by (auto simp: write_entry_def put32_outside put64_outside)
qed

lemma real_mode_offset:
  "unat (ucast (di :: u16) :: u64) = unat di" "unat (ucast (di :: u16) :: u64) + 24 < 2 ^ 64"
proof -
  show u: "unat (ucast (di :: u16) :: u64) = unat di" by (simp add: unat_ucast_up)
  have "unat di < 2 ^ LENGTH(16)" by (rule unsigned_less)
  then show "unat (ucast (di :: u16) :: u64) + 24 < 2 ^ 64" unfolding u by simp
qed

lemma write_entry_di:
  "e820_at (write_entry (ucast (di :: u16)) e m) (ucast di) = e"
  "\<not> (unat di \<le> unat x \<and> unat x < unat di + 24) \<Longrightarrow> write_entry (ucast di) e m x = m x"
  using e820_at_write_entry [OF real_mode_offset(2)] write_entry_outside [OF real_mode_offset(2)]
  by (simp_all add: real_mode_offset(1))

lemma table_bios_reports:
  assumes "es \<noteq> []" "length es < 2 ^ 32"
  shows "e820_reports (table_bios es) of_nat es"
proof -
  have k: "unat (of_nat k :: u32) = k" if "k < length es" for k using that assms(2) by (simp add: unat_of_nat)
  then have "of_nat k \<noteq> (0 :: u32)" if "0 < k" "k < length es" for k using that by (metis less_irrefl unat_0)
  with assms(1) k show ?thesis
    by (auto simp: e820_reports_def table_bios_def Let_def keeps_staging_def write_entry_di)
qed

lemma table_bios_buffer: "e820_writes_buffer (table_bios es)"
  by (auto simp: e820_writes_buffer_def table_bios_def Let_def keeps_staging_def write_entry_di)

definition two_regions :: "e820_entry list" where
  "two_regions = [\<lparr>e_base = 0, e_length = 0x9FC00, e_type = 1, e_acpi_attr = 1\<rparr>,
     \<lparr>e_base = 0x100000, e_length = 0x7EE0000, e_type = 1, e_acpi_attr = 1\<rparr>]"

theorem query_e820_ends_witness:
  "\<exists>b' m'. query_e820 65 (table_bios two_regions) 0 ((), \<lambda>_. 0) = Some (b', m') \<and> unat (m' E820_COUNT) \<in> {1..64}"
  by (rule query_e820_ends [OF table_bios_buffer])

theorem query_e820_stages_witness:
  "\<exists>b' m'. query_e820 65 (table_bios two_regions) 0 ((), \<lambda>_. 0) = Some (b', m') \<and> unat (m' E820_COUNT) = 2
    \<and> map (\<lambda>i. e820_at m' (MEMMAP_BUF_PHYS + of_nat (24 * i))) [0..<2] = two_regions"
proof -
  have es: "two_regions \<noteq> []" "length two_regions < 2 ^ 32" "min 64 (length two_regions) = 2" "take 64 two_regions = two_regions"
    by (simp_all add: two_regions_def)
  show ?thesis using query_e820_stages [OF table_bios_reports [OF es(1,2)], of "()" "\<lambda>_. 0"] unfolding es(3,4) .
qed

theorem query_e820_overruns_witness:
  "\<exists>b' m'. query_e820 65 (table_bios (replicate 64 (two_regions ! 0) @ [two_regions ! 1])) 0 ((), \<lambda>_. 0) = Some (b', m')
    \<and> m' E820_COUNT = 64 \<and> e_base (e820_at m' 0x5620) = 0x100000"
  using query_e820_overruns [OF table_bios_reports, of "replicate 64 (two_regions ! 0) @ [two_regions ! 1]" "()" "\<lambda>_. 0"]
  by (auto simp: nth_append two_regions_def)

theorem query_e820_falls_back_witness:
  "\<exists>t. query_e820 1 failing_bios 0 ((), \<lambda>_. 0xFF) = Some ((), t) \<and> t E820_COUNT = 1
    \<and> e_length (e820_at t MEMMAP_BUF_PHYS) = 0x7F00000"
  using query_e820_falls_back [of failing_bios "()" "\<lambda>_. 0xFF" True 0 0 "()" "(\<lambda>_. 0xFF)(E820_COUNT := 0)" 0]
  by (auto simp: failing_bios_def keeps_staging_def)

section \<open>The boot sector as a whole\<close>

definition gdt :: "u64 list" where
  "gdt = [0x0000000000000000, 0x00CF9A000000FFFF, 0x00CF92000000FFFF]"

definition msg_loading :: "u8 list" where
  "msg_loading = cstr (''Nadir: load'' @ [CHR 0x0D, CHR 0x0A])"

definition msg_entering :: "u8 list" where
  "msg_entering = cstr (''Nadir: pmode'' @ [CHR 0x0D, CHR 0x0A])"

definition msg_disk_err :: "u8 list" where
  "msg_disk_err = cstr (''Nadir: disk err'' @ [CHR 0x0D, CHR 0x0A])"

text \<open>
  The machine in real mode: registers, memory and BIOS, what the BIOS teletype has printed, the system
  control port 0x92 and \<open>cr0\<close>.
\<close>

record 'b real_mode =
  rm_regs :: disk_regs
  rm_io :: "'b io"
  rm_tty :: "u8 list"
  rm_port92 :: u8
  rm_cr0 :: u32

definition puts :: "u8 list \<Rightarrow> 'b real_mode \<Rightarrow> 'b real_mode" where
  "puts msg s = s\<lparr>rm_tty := rm_tty s @ takeWhile (\<lambda>c. c \<noteq> 0) (msg @ [0])\<rparr>"

text \<open>\<open>int15_a20\<close> is the BIOS function 0x2401, which may itself change the port.\<close>

definition enable_a20 :: "('b io \<times> u8 \<Rightarrow> 'b io \<times> u8) \<Rightarrow> 'b real_mode \<Rightarrow> 'b real_mode" where
  "enable_a20 int15_a20 s =
     (let (io, p92) = int15_a20 (rm_io s, rm_port92 s);
          s = s\<lparr>rm_io := io, rm_port92 := p92\<rparr>;
          al = rm_port92 s
      in if al AND 0x02 \<noteq> 0 then s else s\<lparr>rm_port92 := al OR 0x02\<rparr>)"

text \<open>
  \<open>start\<close>, up to the jump to the first byte of the image in protected mode, with the query's fuel of
  65 (\<open>query_e820_ends\<close>).  \<open>Inl\<close> is the loader's error exit, which prints and halts.
\<close>

definition start :: "(disk_regs \<Rightarrow> 'b io \<Rightarrow> disk_regs \<times> 'b io) \<Rightarrow> 'b e820_service \<Rightarrow> ('b io \<times> u8 \<Rightarrow> 'b io \<times> u8)
    \<Rightarrow> u16 \<Rightarrow> u8 \<Rightarrow> 'b real_mode \<Rightarrow> ('b real_mode + 'b real_mode) option" where
  "start int13 int15 int15_a20 KERNEL_SECTORS dl s =
     (let boot_drive = dl;
          s = puts msg_loading s;
          s = enable_a20 int15_a20 s
      in case load_kernel int13 boot_drive KERNEL_SECTORS (rm_regs s, rm_io s) of
           Inl io \<Rightarrow> Some (Inl (puts msg_disk_err (s\<lparr>rm_io := io\<rparr>)))
         | Inr io \<Rightarrow> map_option (\<lambda>io.
             let s = puts msg_entering (s\<lparr>rm_io := io\<rparr>)
             in Inr (s\<lparr>rm_cr0 := rm_cr0 s OR 1\<rparr>)) (query_e820 65 int15 0 io))"

lemma enable_a20_sets: "bit (rm_port92 (enable_a20 int15_a20 s)) 1"
proof -
  have "al AND 2 \<noteq> 0 \<longleftrightarrow> bit al 1" "bit (al OR 2) 1" for al :: u8
    using and_exp_eq_0_iff_not_bit [of al 1] by (simp_all add: bit_or_iff bit_numeral_simps)
  then show ?thesis by (simp add: enable_a20_def case_prod_unfold Let_def)
qed

end
