(* ===== verification/Image.thy ===== *)
theory Image
  imports Boot
begin

unbundle bit_operations_syntax

text \<open>
  The image: \<^verbatim>\<open>link.ld\<close> and the rules of the \<^verbatim>\<open>Makefile\<close> that turn object files into the disk the boot
  sector reads.  An object file contributes input sections, each a list of bytes with an alignment
  and one of the kinds the script collects; their contents are the compiler's and the assembler's, an
  argument.  The linker's location counter is the natural number \<open>dot\<close>.  The properties follow the bytes
  from the sections through the disk into memory, up to the entry of the C code.
\<close>

section \<open>Placing sections\<close>

datatype section_kind = Boot32 | Text | Rodata | Data | Bss | Common

record input_section =
  i_kind :: section_kind
  i_align :: nat
  i_bytes :: "u8 list"

type_synonym placement = "nat \<times> input_section"

definition align_up :: "nat \<Rightarrow> nat \<Rightarrow> nat" where
  "align_up a n = (a + n - 1) div n * n"

primrec place :: "nat \<Rightarrow> input_section list \<Rightarrow> placement list \<times> nat" where
  "place dot [] = ([], dot)"
| "place dot (i # ins) = (let dot = align_up dot (i_align i);
       (ps, stop) = place (dot + length (i_bytes i)) ins
     in ((dot, i) # ps, stop))"

text \<open>
  An output section starts at the strictest alignment of its inputs, which it collects in the order of
  the command line.
\<close>

definition of_kind :: "section_kind \<Rightarrow> input_section list \<Rightarrow> input_section list" where
  "of_kind k ins = filter (\<lambda>i. i_kind i = k) ins"

definition section_start :: "nat \<Rightarrow> input_section list \<Rightarrow> nat" where
  "section_start dot ins = align_up dot (Lcm (set (map i_align ins)))"

definition output_section :: "nat \<Rightarrow> input_section list \<Rightarrow> placement list \<times> nat" where
  "output_section dot ins = place (section_start dot ins) ins"

record linked =
  l_loaded :: "placement list"
  l_bss :: "placement list"
  l_kernel_start :: nat
  l_bss_start :: nat
  l_bss_end :: nat
  l_kernel_end :: nat

text \<open>\<open>SECTIONS\<close>: what follows the four loaded sections is \<open>.bss\<close>, whose contents are not in the file.\<close>

definition link_ld :: "input_section list \<Rightarrow> linked" where
  "link_ld ins =
     (let dot = 0x10000;
          kernel_start = dot;
          (boot, dot) = output_section dot (of_kind Boot32 ins);
          (text, dot) = output_section dot (of_kind Text ins);
          (rodata, dot) = output_section dot (of_kind Rodata ins);
          (data, dot) = output_section dot (of_kind Data ins);
          bss_inputs = of_kind Bss ins @ of_kind Common ins;
          bss_start = section_start dot bss_inputs;
          (bss, dot) = output_section dot bss_inputs;
          bss_end = dot;
          kernel_end = dot
      in \<lparr>l_loaded = boot @ text @ rodata @ data, l_bss = bss, l_kernel_start = kernel_start,
          l_bss_start = bss_start, l_bss_end = bss_end, l_kernel_end = kernel_end\<rparr>)"

section \<open>The disk image\<close>

text \<open>What fills a gap between sections is the linker's choice, the argument \<open>pad\<close>.\<close>

definition byte_at :: "(nat \<Rightarrow> u8) \<Rightarrow> placement list \<Rightarrow> nat \<Rightarrow> u8" where
  "byte_at pad ps a = (case find (\<lambda>(p, i). p \<le> a \<and> a < p + length (i_bytes i)) ps of
     Some (p, i) \<Rightarrow> i_bytes i ! (a - p) | None \<Rightarrow> pad a)"

definition placement_end :: "placement \<Rightarrow> nat" where
  "placement_end = (\<lambda>(p, i). p + length (i_bytes i))"

text \<open>\<open>objcopy -O binary\<close>: the bytes from the first loaded section to the end of the last.\<close>

definition objcopy_binary :: "(nat \<Rightarrow> u8) \<Rightarrow> linked \<Rightarrow> u8 list" where
  "objcopy_binary pad l = (case l_loaded l of [] \<Rightarrow> []
     | (p, i) # ps \<Rightarrow> map (byte_at pad (l_loaded l)) [p..<placement_end (last (l_loaded l))])"

text \<open>\<open>truncate -s %512\<close> rounds the size up.\<close>

definition truncate_512 :: "u8 list \<Rightarrow> u8 list" where
  "truncate_512 bs = bs @ replicate (align_up (length bs) 512 - length bs) 0"

definition kernel_bin :: "(nat \<Rightarrow> u8) \<Rightarrow> input_section list \<Rightarrow> u8 list" where
  "kernel_bin pad ins = truncate_512 (objcopy_binary pad (link_ld ins))"

definition SECTORS :: "u8 list \<Rightarrow> nat" where
  "SECTORS bin = (length bin + 511) div 512"

text \<open>The assembled boot sector: \<open>code\<close>, padding, and the signature the BIOS looks for.\<close>

definition boot_bin :: "u8 list \<Rightarrow> u8 list" where
  "boot_bin code = code @ replicate (510 - length code) 0 @ [0x55, 0xAA]"

definition nadir_img :: "u8 list \<Rightarrow> u8 list \<Rightarrow> u8 list" where
  "nadir_img boot bin = boot @ bin"

text \<open>The disk with this image, by sector and byte; what a drive delivers past its end is not used.\<close>

definition sector_of :: "u8 list \<Rightarrow> nat \<Rightarrow> nat \<Rightarrow> u8" where
  "sector_of img i j = (if 512 * i + j < length img then img ! (512 * i + j) else 0)"

section \<open>Rounding up\<close>

lemma align_up_ge: "0 < n \<Longrightarrow> a \<le> align_up a n"
proof -
  assume n: "0 < n"
  have "a + n - 1 < Suc ((a + n - 1) div n) * n" using n dividend_less_div_times by (simp add: add.commute)
  then show ?thesis using n by (simp add: align_up_def)
qed

lemma align_up_dvd [simp]: "n dvd align_up a n"
  by (simp add: align_up_def)

lemma align_up_le: "0 < n \<Longrightarrow> align_up a n < a + n"
proof -
  assume n: "0 < n"
  have "(a + n - 1) div n * n \<le> a + n - 1" by simp
  with n show ?thesis unfolding align_up_def by linarith
qed

lemma align_up_id:
  assumes "0 < a" "n dvd a"
  shows "align_up a n = a"
proof -
  have n: "0 < n" using assms by (rule dvd_pos_nat)
  obtain q where a: "a = n * q" using assms(2) by blast
  have "(a + n - 1) div n = q" using n by (intro div_nat_eqI) (simp_all add: a algebra_simps)
  then show ?thesis by (simp add: align_up_def a mult.commute)
qed

section \<open>Order and contents\<close>

text \<open>Every placement is aligned, placements are in ascending order without overlap, in \<open>[a, b)\<close>.\<close>

fun in_order :: "nat \<Rightarrow> placement list \<Rightarrow> nat \<Rightarrow> bool" where
  "in_order a [] b \<longleftrightarrow> a \<le> b"
| "in_order a ((p, i) # ps) b \<longleftrightarrow> a \<le> p \<and> i_align i dvd p \<and> in_order (p + length (i_bytes i)) ps b"

lemma in_order_le: "in_order a ps b \<Longrightarrow> a \<le> b"
  by (induction a ps b rule: in_order.induct) auto

lemma in_order_weaken: "in_order a ps b \<Longrightarrow> a' \<le> a \<Longrightarrow> in_order a' ps b"
  by (cases ps) auto

lemma in_order_append: "in_order a ps b \<Longrightarrow> in_order b qs c \<Longrightarrow> in_order a (ps @ qs) c"
  by (induction a ps b rule: in_order.induct) (auto intro: in_order_weaken)

lemma in_order_trans: "in_order a ps b \<Longrightarrow> b \<le> c \<Longrightarrow> in_order a ps c"
  by (induction a ps b rule: in_order.induct) auto

lemma in_order_bounds:
  "in_order a ps b \<Longrightarrow> (p, i) \<in> set ps \<Longrightarrow> a \<le> p \<and> p + length (i_bytes i) \<le> b"
  by (induction a ps b rule: in_order.induct) (auto dest: in_order_le)

lemma place_in_order:
  "\<forall>i\<in>set ins. 0 < i_align i \<Longrightarrow> in_order dot (fst (place dot ins)) (snd (place dot ins))"
proof (induction ins arbitrary: dot)
  case (Cons i ins)
  then show ?case by (auto simp: Let_def case_prod_unfold intro: align_up_ge)
qed simp

lemma place_inputs: "map snd (fst (place dot ins)) = ins"
  by (induction ins arbitrary: dot) (simp_all add: Let_def case_prod_unfold)

text \<open>The byte at an address inside a placement is that section's, since no other one covers it.\<close>

lemma byte_at_placed:
  "in_order a ps b \<Longrightarrow> (p, i) \<in> set ps \<Longrightarrow> j < length (i_bytes i) \<Longrightarrow> byte_at pad ps (p + j) = i_bytes i ! j"
proof (induction a ps b rule: in_order.induct)
  case (2 a q k ps b)
  show ?case
  proof (cases "(p, i) = (q, k)")
    case True
    then show ?thesis using 2(4) by (simp add: byte_at_def)
  next
    case False
    then have i: "(p, i) \<in> set ps" using 2(3) by auto
    then have "q + length (i_bytes k) \<le> p" using in_order_bounds [of "q + length (i_bytes k)" ps b] 2(2) by auto
    then have "byte_at pad ((q, k) # ps) (p + j) = byte_at pad ps (p + j)" by (simp add: byte_at_def)
    then show ?thesis using 2(1) [OF _ i 2(4)] 2(2) by simp
  qed
qed simp

lemma in_order_last: "in_order a ps b \<Longrightarrow> ps \<noteq> [] \<Longrightarrow> in_order a ps (placement_end (last ps))"
  by (induction a ps b rule: in_order.induct) (auto simp: placement_end_def)

lemma output_section_in_order:
  assumes "\<forall>i\<in>set ins. 0 < i_align i"
  shows "in_order dot (fst (output_section dot ins)) (snd (output_section dot ins))"
    and "in_order (section_start dot ins) (fst (output_section dot ins)) (snd (output_section dot ins))"
    and "dot \<le> section_start dot ins"
proof -
  show p: "in_order (section_start dot ins) (fst (output_section dot ins)) (snd (output_section dot ins))"
    unfolding output_section_def using assms by (rule place_in_order)
  have "0 \<notin> set (map i_align ins)" using assms by auto
  then have "0 < Lcm (set (map i_align ins))" by (metis List.finite_set Lcm_0_iff gr0I)
  then show d: "dot \<le> section_start dot ins" unfolding section_start_def by (rule align_up_ge)
  show "in_order dot (fst (output_section dot ins)) (snd (output_section dot ins))" using in_order_weaken [OF p d] .
qed

lemma output_section_inputs: "map snd (fst (output_section dot ins)) = ins"
  by (simp add: output_section_def place_inputs)

lemma set_of_kind: "i \<in> set (of_kind k ins) \<longleftrightarrow> i \<in> set ins \<and> i_kind i = k"
  by (simp add: of_kind_def)

lemma link_ld_in_order:
  assumes "\<forall>i\<in>set ins. 0 < i_align i"
  shows "in_order 0x10000 (l_loaded (link_ld ins)) (l_bss_start (link_ld ins))"
    and "in_order (l_bss_start (link_ld ins)) (l_bss (link_ld ins)) (l_bss_end (link_ld ins))"
proof -
  have a: "\<forall>i\<in>set (of_kind k ins). 0 < i_align i" for k using assms by (simp add: set_of_kind)
  then have b: "\<forall>i\<in>set (of_kind Bss ins @ of_kind Common ins). 0 < i_align i" by auto
  note o = output_section_in_order(1) [OF a]
  show "in_order 0x10000 (l_loaded (link_ld ins)) (l_bss_start (link_ld ins))"
    unfolding link_ld_def Let_def case_prod_unfold linked.simps
    by (intro in_order_append [OF o] in_order_trans [OF o output_section_in_order(3) [OF b]])
  show "in_order (l_bss_start (link_ld ins)) (l_bss (link_ld ins)) (l_bss_end (link_ld ins))"
    unfolding link_ld_def Let_def case_prod_unfold linked.simps by (rule output_section_in_order(2) [OF b])
qed

lemma link_ld_inputs:
  "map snd (l_loaded (link_ld ins)) = of_kind Boot32 ins @ of_kind Text ins @ of_kind Rodata ins @ of_kind Data ins"
  "map snd (l_bss (link_ld ins)) = of_kind Bss ins @ of_kind Common ins"
  by (simp_all add: link_ld_def Let_def case_prod_unfold output_section_inputs)

text \<open>
  What the objects have to provide: alignments, and an entry section that may start at 64KB.
\<close>

definition linkable :: "input_section list \<Rightarrow> bool" where
  "linkable ins \<longleftrightarrow> (\<forall>i\<in>set ins. 0 < i_align i) \<and> (\<forall>i\<in>set (of_kind Boot32 ins). i_align i dvd 0x10000)
     \<and> (case of_kind Boot32 ins of [] \<Rightarrow> False | i # _ \<Rightarrow> i_bytes i \<noteq> [])"

lemma link_ld_first:
  assumes "linkable ins"
  shows "\<exists>ps. l_loaded (link_ld ins) = (0x10000, hd (of_kind Boot32 ins)) # ps"
proof -
  obtain i is' where b: "of_kind Boot32 ins = i # is'" using assms by (auto simp: linkable_def split: list.splits)
  have "Lcm (set (map i_align (of_kind Boot32 ins))) dvd 0x10000"
    using assms unfolding linkable_def by (intro Lcm_least) auto
  then have d: "section_start 0x10000 (i # is') = 0x10000"
    unfolding section_start_def b [symmetric] by (rule align_up_id [rotated]) simp
  have "i_align i dvd 0x10000" using assms unfolding linkable_def b by simp
  then have "align_up 0x10000 (i_align i) = 0x10000" by (rule align_up_id [rotated]) simp
  then have "\<exists>ps. fst (output_section 0x10000 (of_kind Boot32 ins)) = (0x10000, i) # ps"
    by (simp add: output_section_def b d Let_def case_prod_unfold)
  then show ?thesis by (auto simp: link_ld_def Let_def case_prod_unfold b)
qed

section \<open>The bytes of the image\<close>

lemma length_truncate_512:
  "length bs \<le> length (truncate_512 bs)" "length (truncate_512 bs) < length bs + 512" "512 dvd length (truncate_512 bs)"
proof -
  have "length (truncate_512 bs) = align_up (length bs) 512"
    using align_up_ge [of 512 "length bs"] by (simp add: truncate_512_def)
  then show "length bs \<le> length (truncate_512 bs)" "length (truncate_512 bs) < length bs + 512" "512 dvd length (truncate_512 bs)"
    by (simp_all add: align_up_ge align_up_le)
qed

lemma SECTORS_whole: "512 dvd length bin \<Longrightarrow> 512 * SECTORS bin = length bin"
  by (auto simp: SECTORS_def)

text \<open>What the image holds, and how large it is.\<close>

lemma kernel_bin_placed:
  assumes "linkable ins"
  shows "512 * SECTORS (kernel_bin pad ins) = length (kernel_bin pad ins)" and "0 < SECTORS (kernel_bin pad ins)"
    and "length (kernel_bin pad ins) + 0x10000 < l_bss_start (link_ld ins) + 512"
    and "(p, i) \<in> set (l_loaded (link_ld ins)) \<Longrightarrow> j < length (i_bytes i) \<Longrightarrow>
      0x10000 \<le> p \<and> p + j < 0x10000 + length (kernel_bin pad ins) \<and> kernel_bin pad ins ! (p + j - 0x10000) = i_bytes i ! j"
proof -
  let ?ps = "l_loaded (link_ld ins)"
  define e where "e = placement_end (last ?ps)"
  obtain ps where ps: "?ps = (0x10000, hd (of_kind Boot32 ins)) # ps" using link_ld_first [OF assms] by blast
  have "\<forall>i\<in>set ins. 0 < i_align i" using assms by (simp add: linkable_def)
  note o = link_ld_in_order(1) [OF this]
  have o': "in_order 0x10000 ?ps e" unfolding e_def by (rule in_order_last [OF o]) (simp add: ps)
  have e: "e \<le> l_bss_start (link_ld ins)"
    using in_order_bounds [OF o, of "fst (last ?ps)" "snd (last ?ps)"] ps by (simp add: e_def placement_end_def case_prod_unfold)
  have bin: "objcopy_binary pad (link_ld ins) = map (byte_at pad ?ps) [0x10000..<e]"
    unfolding objcopy_binary_def e_def by (simp add: ps)
  note len = length_truncate_512 [of "objcopy_binary pad (link_ld ins)", folded kernel_bin_def]
  show s: "512 * SECTORS (kernel_bin pad ins) = length (kernel_bin pad ins)" using len(3) by (rule SECTORS_whole)
  have "0 < length (i_bytes (hd (of_kind Boot32 ins)))" using assms by (auto simp: linkable_def split: list.splits)
  moreover have "0x10000 + length (i_bytes (hd (of_kind Boot32 ins))) \<le> e"
    using in_order_bounds [OF o', of "0x10000" "hd (of_kind Boot32 ins)"] ps by simp
  ultimately have "0x10000 < e" by linarith
  then have "0 < length (kernel_bin pad ins)" using len(1) by (simp add: bin del: length_greater_0_conv)
  with s show "0 < SECTORS (kernel_bin pad ins)" by (cases "SECTORS (kernel_bin pad ins)") simp_all
  show "length (kernel_bin pad ins) + 0x10000 < l_bss_start (link_ld ins) + 512"
    using len(2) e \<open>0x10000 < e\<close> by (simp add: bin)
  show "0x10000 \<le> p \<and> p + j < 0x10000 + length (kernel_bin pad ins) \<and> kernel_bin pad ins ! (p + j - 0x10000) = i_bytes i ! j"
    if i: "(p, i) \<in> set ?ps" "j < length (i_bytes i)"
  proof -
    have b: "0x10000 \<le> p" "p + j < e" using in_order_bounds [OF o' i(1)] i(2) by simp_all
    then have "p + j - 0x10000 < e - 0x10000" by linarith
    with b have "kernel_bin pad ins ! (p + j - 0x10000) = byte_at pad ?ps (p + j)"
      by (simp add: kernel_bin_def truncate_512_def bin nth_append)
    with b len(1) byte_at_placed [OF o' i] show ?thesis by (simp add: bin)
  qed
qed

lemma length_boot_bin: "length code \<le> 510 \<Longrightarrow> length (boot_bin code) = 512"
  by (simp add: boot_bin_def)

text \<open>The file: whole sectors, at least two, the first of them with the boot signature at its end.\<close>

lemma nadir_img_file:
  assumes "linkable ins" "length code \<le> 510"
  shows "length (nadir_img (boot_bin code) (kernel_bin pad ins)) = 512 * Suc (SECTORS (kernel_bin pad ins))"
    and "1024 \<le> length (nadir_img (boot_bin code) (kernel_bin pad ins))"
    and "take 2 (drop 510 (nadir_img (boot_bin code) (kernel_bin pad ins))) = [0x55, 0xAA]"
  using kernel_bin_placed(1,2) [OF assms(1), of pad] length_boot_bin [OF assms(2)] assms(2)
  by (simp_all add: nadir_img_def) (simp add: boot_bin_def)

text \<open>The loader's copy of the image, read back: the boot sector is one sector long, the kernel follows.\<close>

lemma sector_of_kernel:
  "length boot = 512 \<Longrightarrow> d < length bin \<Longrightarrow> sector_of (nadir_img boot bin) (Suc (d div 512)) (d mod 512) = bin ! d"
proof -
  assume "length boot = 512" "d < length bin"
  moreover have "512 * Suc (d div 512) + d mod 512 = 512 + d" using mult_div_mod_eq [of 512 d] by simp
  ultimately show ?thesis by (simp only: sector_of_def nadir_img_def length_append nth_append) simp
qed

lemma unat_address: "a < 0xA0000 \<Longrightarrow> unat (of_nat a :: u64) = a"
  by (simp add: unat_of_nat_64)

text \<open>Memory that holds the loaded sections, each byte at the address it was linked for.\<close>

definition holds_image :: "linked \<Rightarrow> memory \<Rightarrow> bool" where
  "holds_image l m \<longleftrightarrow> (\<forall>(p, i)\<in>set (l_loaded l). \<forall>j<length (i_bytes i). m (of_nat (p + j)) = i_bytes i ! j)"

text \<open>What the build puts into the image, the boot sector puts into memory.\<close>

lemma image_loaded:
  assumes "linkable ins" "length boot = 512" "l_bss_start (link_ld ins) \<le> 0xA0000 - 512"
    and "floppy_reads int13 drive (sector_of (nadir_img boot (kernel_bin pad ins)))"
  shows "\<exists>b' m'. load_kernel int13 drive (of_nat (SECTORS (kernel_bin pad ins))) (r, b, m) = Inr (b', m')
    \<and> holds_image (link_ld ins) m'"
proof -
  let ?k = "kernel_bin pad ins"
  note k = kernel_bin_placed [OF assms(1), where pad = pad]
  have n: "SECTORS ?k \<le> 1152" using k(1,3) assms(3) by simp
  then have u: "unat (of_nat (SECTORS ?k) :: u16) = SECTORS ?k" by (subst unat_of_nat) simp
  obtain b' m' where m': "load_kernel int13 drive (of_nat (SECTORS ?k)) (r, b, m) = Inr (b', m')"
      "\<And>x. 0x10000 \<le> unat x \<Longrightarrow> m' x = (if unat x < 0x10000 + length ?k
          then sector_of (nadir_img boot ?k) (Suc ((unat x - 0x10000) div 512)) ((unat x - 0x10000) mod 512) else m x)"
    using load_kernel_loads [OF assms(4), of "of_nat (SECTORS ?k)" r b m] n k(1,2) unfolding u by auto
  have "m' (of_nat (p + j)) = i_bytes i ! j" if i: "(p, i) \<in> set (l_loaded (link_ld ins))" "j < length (i_bytes i)" for p i j
  proof -
    note b = k(4) [OF i]
    then have "unat (of_nat (p + j) :: u64) = p + j" using k(1) n by (intro unat_address) simp
    moreover have "p + j - 0x10000 < length ?k" using b by linarith
    note sector_of_kernel [OF assms(2) this]
    ultimately show ?thesis using b m'(2) [of "of_nat (p + j)"] by simp
  qed
  with m'(1) show ?thesis by (auto simp: holds_image_def)
qed

text \<open>Memory that agrees on the loaded sections holds them too.\<close>

lemma holds_image_cong:
  assumes "linkable ins" "l_bss_start (link_ld ins) \<le> 0x70000" "holds_image (link_ld ins) m"
    and "\<And>x. 0x10000 \<le> unat x \<Longrightarrow> unat x < l_bss_start (link_ld ins) \<Longrightarrow> m' x = m x"
  shows "holds_image (link_ld ins) m'"
  unfolding holds_image_def
proof (clarify)
  fix p i j
  assume i: "(p, i) \<in> set (l_loaded (link_ld ins))" "j < length (i_bytes i)"
  have "\<forall>i\<in>set ins. 0 < i_align i" using assms(1) by (simp add: linkable_def)
  from in_order_bounds [OF link_ld_in_order(1) [OF this] i(1)]
  have b: "0x10000 \<le> p + j" "p + j < l_bss_start (link_ld ins)" using i(2) by simp_all
  then have "unat (of_nat (p + j) :: u64) = p + j" using assms(2) by (intro unat_address) simp
  with b have "m' (of_nat (p + j)) = m (of_nat (p + j))" by (intro assms(4)) simp_all
  also have "\<dots> = i_bytes i ! j" using assms(3) i unfolding holds_image_def by fast
  finally show "m' (of_nat (p + j)) = i_bytes i ! j" .
qed

section \<open>The symbols of the entry code\<close>

text \<open>A symbol is an input section, by its index in the output section, and an offset in it.\<close>

type_synonym symbol = "nat \<times> nat"

definition symbol_address :: "placement list \<Rightarrow> symbol \<Rightarrow> nat" where
  "symbol_address ps = (\<lambda>(k, off). fst (ps ! k) + off)"

definition symbol_fits :: "placement list \<Rightarrow> symbol \<Rightarrow> nat \<Rightarrow> bool" where
  "symbol_fits ps = (\<lambda>(k, off) size. k < length ps \<and> off + size \<le> length (i_bytes (snd (ps ! k))))"

definition symbols_apart :: "symbol \<Rightarrow> nat \<Rightarrow> symbol \<Rightarrow> nat \<Rightarrow> bool" where
  "symbols_apart = (\<lambda>(k, off) size (k', off') size'. k = k' \<longrightarrow> off + size \<le> off' \<or> off' + size' \<le> off)"

definition linked_symbols :: "linked \<Rightarrow> symbol \<Rightarrow> symbol \<Rightarrow> u64 \<Rightarrow> entry_symbols" where
  "linked_symbols l cnt ent ret = \<lparr>bss_start = of_nat (l_bss_start l), bss_end = of_nat (l_bss_end l),
     addr_memmap_count = of_nat (symbol_address (l_bss l) cnt),
     addr_memmap_entries = of_nat (symbol_address (l_bss l) ent), kmain_return = ret\<rparr>"

text \<open>The two variables of \<open>kmain.c\<close>, of 4 and 64 * 24 bytes.\<close>

definition memmap_symbols :: "linked \<Rightarrow> symbol \<Rightarrow> symbol \<Rightarrow> bool" where
  "memmap_symbols l cnt ent \<longleftrightarrow> symbol_fits (l_bss l) cnt 4 \<and> symbol_fits (l_bss l) ent (64 * 24)
     \<and> symbols_apart cnt 4 ent (64 * 24)"

lemma in_order_nth:
  "in_order a ps b \<Longrightarrow> k < k' \<Longrightarrow> k' < length ps \<Longrightarrow> placement_end (ps ! k) \<le> fst (ps ! k')"
proof (induction a ps b arbitrary: k k' rule: in_order.induct)
  case (2 a p i ps b)
  then obtain j where j: "k' = Suc j" by (cases k') simp_all
  show ?case
  proof (cases k)
    case 0
    then show ?thesis using 2(2-4) j in_order_bounds [of "p + length (i_bytes i)" ps b "fst (ps ! j)" "snd (ps ! j)"]
      by (simp add: placement_end_def)
  next
    case (Suc l)
    then show ?thesis using 2 j by simp
  qed
qed simp

lemma symbol_in_bounds:
  "in_order a ps b \<Longrightarrow> symbol_fits ps s n \<Longrightarrow> a \<le> symbol_address ps s \<and> symbol_address ps s + n \<le> b"
  using in_order_bounds [of a ps b "fst (ps ! fst s)" "snd (ps ! fst s)"]
  by (auto simp: symbol_fits_def symbol_address_def case_prod_unfold)

lemma symbols_disjoint:
  assumes "in_order a ps b" "symbol_fits ps s n" "symbol_fits ps s' n'" "symbols_apart s n s' n'"
  shows "symbol_address ps s + n \<le> symbol_address ps s' \<or> symbol_address ps s' + n' \<le> symbol_address ps s"
  using assms in_order_nth [OF assms(1), of "fst s" "fst s'"] in_order_nth [OF assms(1), of "fst s'" "fst s"]
  by (cases "fst s" "fst s'" rule: linorder_cases)
    (auto simp: symbol_fits_def symbol_address_def symbols_apart_def placement_end_def case_prod_unfold)

lemma linked_symbols_entry:
  assumes "linkable ins" "memmap_symbols (link_ld ins) cnt ent" "l_bss_end (link_ld ins) \<le> 0x70000"
  shows "entry_linked (linked_symbols (link_ld ins) cnt ent ret)"
proof -
  let ?l = "link_ld ins"
  have "\<forall>i\<in>set ins. 0 < i_align i" using assms(1) by (simp add: linkable_def)
  note o = link_ld_in_order [OF this]
  have f: "symbol_fits (l_bss ?l) cnt 4" "symbol_fits (l_bss ?l) ent (64 * 24)"
    and ap: "symbols_apart cnt 4 ent (64 * 24)" using assms(2) by (simp_all add: memmap_symbols_def)
  note b = symbol_in_bounds [OF o(2) f(1)] symbol_in_bounds [OF o(2) f(2)] symbols_disjoint [OF o(2) f ap]
    in_order_le [OF o(1)] in_order_le [OF o(2)]
  have "unat (of_nat (l_bss_start ?l) :: u64) = l_bss_start ?l" "unat (of_nat (l_bss_end ?l) :: u64) = l_bss_end ?l"
    "unat (of_nat (symbol_address (l_bss ?l) cnt) :: u64) = symbol_address (l_bss ?l) cnt"
    "unat (of_nat (symbol_address (l_bss ?l) ent) :: u64) = symbol_address (l_bss ?l) ent"
    using b assms(3) by (intro unat_address; simp)+
  with b assms(3) show ?thesis by (simp add: entry_linked_def linked_symbols_def)
qed

section \<open>From the image to the entry of the C code\<close>

text \<open>Where \<open>prot32\<close>, the end of the boot sector, jumps.\<close>

definition prot32_target :: u32 where
  "prot32_target = 0x10000"

text \<open>
  The map service, given a buffer below 64KB, keeps away from the memory of the image.
\<close>

definition e820_keeps_image :: "'b e820_service \<Rightarrow> bool" where
  "e820_keeps_image int15 \<longleftrightarrow> (\<forall>ebx di b m x. unat di + 24 \<le> 0x10000 \<and> 0x10000 \<le> unat x \<and> unat x < 0x70000
     \<longrightarrow> snd (snd (int15 ebx di (b, m))) x = m x)"

lemma e820_loop_keeps:
  assumes "e820_keeps_image int15" "0x10000 \<le> unat x" "unat x < 0x70000"
  shows "e820_loop fuel int15 ebx io = Some io' \<Longrightarrow> snd io' x = snd io x"
proof (induction fuel arbitrary: ebx io)
  case (Suc fuel)
  define di where "di = (E820_BUF + ucast (snd io E820_COUNT) * 24 :: u16)"
  obtain cf eax ebx' b m where i: "int15 ebx di io = ((cf, eax, ebx'), b, m)" by (metis prod.exhaust)
  have x: "x \<noteq> E820_COUNT" using assms(2) by (auto simp: E820_COUNT_def)
  have "unat (ucast (snd io E820_COUNT) :: u16) < 256"
    using unsigned_less [of "snd io E820_COUNT", where 'a = nat] by (simp add: unat_ucast_up)
  then have "unat di + 24 \<le> 0x10000" by (simp add: di_def E820_BUF_def unat_word_ariths)
  then have m: "m x = snd io x"
    using assms(1) [unfolded e820_keeps_image_def, rule_format, of di x ebx "fst io" "snd io"] assms(2,3) i by simp
  show ?case
    using Suc.prems Suc.IH [of ebx' "(b, m(E820_COUNT := m E820_COUNT + 1))"] m x
    by (auto simp: Let_def di_def [symmetric] i split: if_splits)
qed simp

lemma query_e820_keeps:
  assumes "e820_keeps_image int15" "query_e820 fuel int15 ebx (b, m) = Some (b', m')" "0x10000 \<le> unat x" "unat x < 0x70000"
  shows "m' x = m x"
proof -
  obtain m1 where m1: "e820_loop fuel int15 ebx (b, m(E820_COUNT := 0)) = Some (b', m1)"
      "m' = (if m1 E820_COUNT \<noteq> 0 then m1 else e820_fallback m1)"
    using assms(2) by (auto simp: query_e820_def)
  have "x \<noteq> E820_COUNT" using assms(3) by (auto simp: E820_COUNT_def)
  moreover have "e820_fallback m1 x = m1 x" using assms(3) calculation by (simp add: e820_fallback_def Let_def put32_def)
  ultimately show ?thesis using m1 e820_loop_keeps [OF assms(1,3,4) m1(1)] by simp
qed

lemma page_tables_elsewhere: "unat x < 0x70000 \<Longrightarrow> build_page_tables m x = m x"
  by (simp add: build_page_tables_bytes Let_def)

text \<open>
  C10: the build, the boot sector and the stage-2 entry fit together.  For every set of objects that can
  be linked, ends below the page tables and is on the floppy as the Makefile lays it out, the boot
  reaches \<open>kmain\<close>; the entry section is at 64KB, where the boot sector jumps, and from the load on,
  after each stage, every byte of code and data is at the address it was linked for.
\<close>

theorem image_reaches_kmain:
  assumes "linkable ins" "l_bss_end (link_ld ins) \<le> 0x70000" "memmap_symbols (link_ld ins) cnt ent"
    and "length code \<le> 510" "floppy_reads int13 dl (sector_of (nadir_img (boot_bin code) (kernel_bin pad ins)))"
    and "e820_writes_buffer int15" "e820_keeps_image int15" "has_longmode cpuid"
  shows "\<exists>t k2 m2 m3. start int13 int15 int15_a20 (of_nat (SECTORS (kernel_bin pad ins))) dl s0 = Some (Inr t)
    \<and> boot32_entry cpuid (k, snd (rm_io t)) = Inr (k2, m2)
    \<and> long_entry (linked_symbols (link_ld ins) cnt ent ret) m2 = Inr m3
    \<and> fst (hd (l_loaded (link_ld ins))) = unat prot32_target \<and> i_kind (snd (hd (l_loaded (link_ld ins)))) = Boot32
    \<and> list_all (holds_image (link_ld ins)) [snd (rm_io t), m2, m3]"
proof -
  let ?l = "link_ld ins" and ?syms = "linked_symbols (link_ld ins) cnt ent ret"
  have "\<forall>i\<in>set ins. 0 < i_align i" using assms(1) by (simp add: linkable_def)
  from in_order_le [OF link_ld_in_order(2) [OF this]] have bss: "l_bss_start ?l \<le> 0x70000" using assms(2) by simp
  define s where "s = enable_a20 int15_a20 (puts msg_loading s0)"
  obtain b0 m0 b1 m1 where io: "rm_io s = (b0, m0)"
    and lk: "load_kernel int13 dl (of_nat (SECTORS (kernel_bin pad ins))) (rm_regs s, b0, m0) = Inr (b1, m1)" "holds_image ?l m1"
    using image_loaded [OF assms(1) length_boot_bin [OF assms(4)] _ assms(5), of "rm_regs s" "fst (rm_io s)" "snd (rm_io s)"] bss by (cases "rm_io s") auto
  obtain b2 m2 where q: "query_e820 65 int15 0 (b1, m1) = Some (b2, m2)" using query_e820_total [OF assms(6), of 0 b1 m1] by blast
  let ?t = "puts msg_entering (s\<lparr>rm_io := (b2, m2)\<rparr>)"
  have "start int13 int15 int15_a20 (of_nat (SECTORS (kernel_bin pad ins))) dl s0 = Some (Inr (?t\<lparr>rm_cr0 := rm_cr0 ?t OR 1\<rparr>))"
    by (simp add: start_def Let_def s_def [symmetric] io lk(1) q)
  moreover have "rm_io (?t\<lparr>rm_cr0 := rm_cr0 ?t OR 1\<rparr>) = (b2, m2)" by (simp add: puts_def)
  moreover have h2: "holds_image ?l m2"
    using holds_image_cong [OF assms(1) bss lk(2)] query_e820_keeps [OF assms(7) q] bss by simp
  moreover have h3: "holds_image ?l (build_page_tables m2)"
    using holds_image_cong [OF assms(1) bss h2] bss by (simp add: page_tables_elsewhere)
  moreover have el: "entry_linked ?syms" using assms(1,3,2) by (rule linked_symbols_entry)
  obtain m3 where m3: "long_entry ?syms (build_page_tables m2) = Inr m3" "entry_memory ?syms (build_page_tables m2) m3"
    using long_entry_bytes [OF el build_tables_intact] by blast
  moreover have "unat (bss_start ?syms) = l_bss_start ?l" using bss by (simp add: linked_symbols_def unat_address)
  with holds_image_cong [OF assms(1) bss h3] entry_memory_outside [OF el m3(2)] have "holds_image ?l m3" by simp
  moreover have "fst (hd (l_loaded ?l)) = unat prot32_target \<and> i_kind (snd (hd (l_loaded ?l))) = Boot32"
    using link_ld_first [OF assms(1)] assms(1) set_of_kind [of "hd (of_kind Boot32 ins)" Boot32 ins]
    by (auto simp: linkable_def prot32_target_def split: list.splits)
  ultimately show ?thesis using assms(8) by (auto simp: boot32_entry_def)
qed

section \<open>Statics over the page tables\<close>




section \<open>The layout\<close>

lemma in_order_aligned: "in_order a ps b \<Longrightarrow> (p, i) \<in> set ps \<Longrightarrow> i_align i dvd p"
  by (induction a ps b rule: in_order.induct) auto

text \<open>
  C25: the linker script's layout.  Every input section of the six collected kinds is placed once, in the
  order of the script, aligned as it asks, without overlap, and between \<open>__kernel_start\<close>, which is 64KB,
  and \<open>__kernel_end\<close>; what is zeroed, from \<open>__bss_start\<close> to \<open>__bss_end\<close>, is behind what is loaded.
\<close>

theorem link_ld_layout:
  assumes "\<forall>i\<in>set ins. 0 < i_align i"
  defines "l \<equiv> link_ld ins"
  defines "ps \<equiv> l_loaded l @ l_bss l"
  shows "map snd ps = concat (map (\<lambda>k. of_kind k ins) [Boot32, Text, Rodata, Data, Bss, Common])
    \<and> l_kernel_start l = 0x10000 \<and> l_kernel_end l = l_bss_end l
    \<and> (\<forall>(p, i)\<in>set (l_loaded l). l_kernel_start l \<le> p \<and> i_align i dvd p \<and> p + length (i_bytes i) \<le> l_bss_start l)
    \<and> (\<forall>(p, i)\<in>set (l_bss l). l_bss_start l \<le> p \<and> i_align i dvd p \<and> p + length (i_bytes i) \<le> l_bss_end l)
    \<and> (\<forall>k' < length ps. \<forall>k < k'. placement_end (ps ! k) \<le> fst (ps ! k'))"
proof -
  note o = link_ld_in_order [OF assms(1), folded l_def]
  note in_order_nth [OF in_order_append [OF o], folded ps_def]
  moreover have "map snd ps = concat (map (\<lambda>k. of_kind k ins) [Boot32, Text, Rodata, Data, Bss, Common])"
    by (simp add: l_def ps_def link_ld_inputs)
  moreover have s: "l_kernel_start l = 0x10000" "l_kernel_end l = l_bss_end l"
    by (simp_all add: l_def link_ld_def Let_def case_prod_unfold)
  moreover have "\<forall>(p, i)\<in>set (l_loaded l). l_kernel_start l \<le> p \<and> i_align i dvd p \<and> p + length (i_bytes i) \<le> l_bss_start l"
    using in_order_bounds [OF o(1)] in_order_aligned [OF o(1)] by (auto simp: s)
  moreover have "\<forall>(p, i)\<in>set (l_bss l). l_bss_start l \<le> p \<and> i_align i dvd p \<and> p + length (i_bytes i) \<le> l_bss_end l"
    using in_order_bounds [OF o(2)] in_order_aligned [OF o(2)] by auto
  ultimately show ?thesis by blast
qed

section \<open>A small kernel\<close>

definition sample_objects :: "input_section list" where
  "sample_objects = [\<lparr>i_kind = Boot32, i_align = 1, i_bytes = [0xB8, 0, 0, 0, 0x80]\<rparr>,
     \<lparr>i_kind = Text, i_align = 16, i_bytes = [0xF4, 0xEB, 0xFD]\<rparr>,
     \<lparr>i_kind = Rodata, i_align = 8, i_bytes = [0x10, 0, 1, 0, 0, 0, 0, 0]\<rparr>,
     \<lparr>i_kind = Data, i_align = 4, i_bytes = [1, 2, 3, 4]\<rparr>,
     \<lparr>i_kind = Bss, i_align = 32, i_bytes = replicate 1600 0\<rparr>,
     \<lparr>i_kind = Common, i_align = 4, i_bytes = replicate 8 0\<rparr>]"

definition image_disk :: "u8 list \<Rightarrow> disk_regs \<Rightarrow> unit io \<Rightarrow> disk_regs \<times> unit io" where
  "image_disk img r = (\<lambda>(b, m). (r\<lparr>d_cf := False\<rparr>, b,
     \<lambda>x. if buffer_address r \<le> unat x \<and> unat x < buffer_address r + 512
         then sector_of img (chs_lba r) (unat x - buffer_address r) else m x))"

lemma image_disk_reads: "floppy_reads (image_disk img) drive (sector_of img)"
  by (simp add: floppy_reads_def image_disk_def)

lemma sample_kinds:
  "of_kind Boot32 sample_objects = [sample_objects ! 0]" "of_kind Text sample_objects = [sample_objects ! 1]"
  "of_kind Rodata sample_objects = [sample_objects ! 2]" "of_kind Data sample_objects = [sample_objects ! 3]"
  "of_kind Bss sample_objects = [sample_objects ! 4]" "of_kind Common sample_objects = [sample_objects ! 5]"
  by (simp_all add: of_kind_def sample_objects_def)

lemma sample_outputs:
  "output_section 0x10000 [sample_objects ! 0] = ([(0x10000, sample_objects ! 0)], 0x10005)"
  "output_section 0x10005 [sample_objects ! 1] = ([(0x10010, sample_objects ! 1)], 0x10013)"
  "output_section 0x10013 [sample_objects ! 2] = ([(0x10018, sample_objects ! 2)], 0x10020)"
  "output_section 0x10020 [sample_objects ! 3] = ([(0x10020, sample_objects ! 3)], 0x10024)"
  by (simp_all add: sample_objects_def output_section_def section_start_def align_up_def)

lemma sample_bss:
  "section_start 0x10024 [sample_objects ! 4, sample_objects ! 5] = 0x10040"
  "output_section 0x10024 [sample_objects ! 4, sample_objects ! 5]
    = ([(0x10040, sample_objects ! 4), (0x10680, sample_objects ! 5)], 0x10688)"
  by (simp_all add: sample_objects_def output_section_def section_start_def align_up_def)

lemma sample_linked:
  "link_ld sample_objects = \<lparr>l_loaded = [(0x10000, sample_objects ! 0), (0x10010, sample_objects ! 1),
       (0x10018, sample_objects ! 2), (0x10020, sample_objects ! 3)],
     l_bss = [(0x10040, sample_objects ! 4), (0x10680, sample_objects ! 5)],
     l_kernel_start = 0x10000, l_bss_start = 0x10040, l_bss_end = 0x10688, l_kernel_end = 0x10688\<rparr>"
  by (simp add: link_ld_def sample_kinds sample_outputs sample_bss del: One_nat_def)

lemma sample_linkable:
  "linkable sample_objects" "memmap_symbols (link_ld sample_objects) (1, 0) (0, 0)"
  by (simp_all add: linkable_def memmap_symbols_def symbol_fits_def symbols_apart_def sample_linked)
    (simp_all add: sample_objects_def of_kind_def)

lemma table_bios_keeps_image: "e820_keeps_image (table_bios es)"
  by (simp add: e820_keeps_image_def table_bios_def Let_def write_entry_di)

definition long_mode_cpuid :: "u32 \<Rightarrow> u32 \<times> u32" where
  "long_mode_cpuid leaf = (0x80000008, if leaf = 0x80000001 then 0x20000000 else 0)"

lemma long_mode_cpuid_ok: "has_longmode long_mode_cpuid"
  by (simp add: has_longmode_def long_mode_cpuid_def bit_numeral_simps)

definition power_on :: "unit real_mode" where
  "power_on = \<lparr>rm_regs = reset_regs, rm_io = ((), \<lambda>_. 0), rm_tty = [], rm_port92 = 0, rm_cr0 = 0\<rparr>"

definition reset_control :: control where
  "reset_control = \<lparr>cr0 = 0, cr3 = 0, cr4 = 0, efer = 0\<rparr>"

definition sample_image :: "u8 list" where
  "sample_image = nadir_img (boot_bin [0xFA]) (kernel_bin (\<lambda>_. 0x90) sample_objects)"

theorem image_reaches_kmain_witness:
  "\<exists>t k2 m2 m3. start (image_disk sample_image) (table_bios two_regions) id
        (of_nat (SECTORS (kernel_bin (\<lambda>_. 0x90) sample_objects))) 0 power_on = Some (Inr t)
    \<and> boot32_entry long_mode_cpuid (reset_control, snd (rm_io t)) = Inr (k2, m2)
    \<and> long_entry (linked_symbols (link_ld sample_objects) (1, 0) (0, 0) 0x10010) m2 = Inr m3
    \<and> m3 0x10000 = 0xB8 \<and> m3 0x10010 = 0xF4 \<and> m3 0x10021 = 2"
proof -
  obtain t k2 m2 m3 where r: "start (image_disk sample_image) (table_bios two_regions) id
        (of_nat (SECTORS (kernel_bin (\<lambda>_. 0x90) sample_objects))) 0 power_on = Some (Inr t)"
      "boot32_entry long_mode_cpuid (reset_control, snd (rm_io t)) = Inr (k2, m2)"
      "long_entry (linked_symbols (link_ld sample_objects) (1, 0) (0, 0) 0x10010) m2 = Inr m3"
      "list_all (holds_image (link_ld sample_objects)) [snd (rm_io t), m2, m3]"
    using image_reaches_kmain [OF sample_linkable(1) _ sample_linkable(2) _ _ table_bios_buffer table_bios_keeps_image
        long_mode_cpuid_ok, of "[0xFA]" "image_disk sample_image" 0 "\<lambda>_. 0x90" two_regions id power_on reset_control "0x10010"]
      image_disk_reads [of sample_image 0]
    unfolding sample_linked sample_image_def by auto
  then have "holds_image (link_ld sample_objects) m3" by simp
  then have b: "m3 (of_nat (p + j)) = i_bytes i ! j" if "(p, i) \<in> set (l_loaded (link_ld sample_objects))" "j < length (i_bytes i)" for p i j
    using that unfolding holds_image_def by fast
  note b [of "0x10000" "sample_objects ! 0" 0] b [of "0x10010" "sample_objects ! 1" 0] b [of "0x10020" "sample_objects ! 3" 1]
  then have "m3 0x10000 = 0xB8 \<and> m3 0x10010 = 0xF4 \<and> m3 0x10021 = 2"
    by (simp add: sample_linked) (simp add: sample_objects_def)
  with r(1-3) show ?thesis by blast
qed







theorem link_ld_layout_witness:
  "map snd (l_loaded (link_ld sample_objects) @ l_bss (link_ld sample_objects)) = sample_objects"
  using link_ld_layout [of sample_objects] by (auto simp: sample_objects_def of_kind_def)

end
