(* ===== verification/Segments.thy ===== *)
theory Segments
  imports Boot
begin

unbundle bit_operations_syntax

text \<open>
  The segment registers on the way from the boot sector to \<open>kmain\<close>: the instructions of
  \<^verbatim>\<open>boot.asm\<close> and \<^verbatim>\<open>entry.asm\<close> that load descriptor tables, segment registers and stack pointers,
  run on a model of the CPU's segment registers with its checks.  A load the CPU refuses is
  \<open>None\<close>: no handler is installed before \<open>kmain\<close>, so the machine would reset.
\<close>

section \<open>Segment registers\<close>

datatype sreg = Cs | Ds | Es | Fs | Gs | Ss

text \<open>
  \<open>gdtr\<close> is limit and table.  A register has the selector and the descriptor the CPU has cached for it,
  none after a null selector.
\<close>

record seg_cpu =
  seg_ctl :: control
  seg_cpl :: nat
  gdtr :: "u16 \<times> u64 list"
  seg_ax :: u16
  seg_sp :: u64
  visible :: "sreg \<Rightarrow> u16"
  cached :: "sreg \<Rightarrow> descriptor option"

definition protected_mode :: "seg_cpu \<Rightarrow> bool" where
  "protected_mode c = bit (cr0 (seg_ctl c)) 0"

text \<open>64-bit mode is long mode with a code segment that has the long bit.\<close>

definition in_64bit_mode :: "seg_cpu \<Rightarrow> bool" where
  "in_64bit_mode c = (case cached c Cs of None \<Rightarrow> False | Some d \<Rightarrow> long_mode_active (seg_ctl c) \<and> d_long d)"

definition requested_privilege :: "u16 \<Rightarrow> nat" where
  "requested_privilege sel = unat (take_bit 2 sel)"

definition null_selector :: "u16 \<Rightarrow> bool" where
  "null_selector sel = (drop_bit 2 sel = 0)"

text \<open>The descriptor of a selector: not of the local table, which is never loaded, and inside the limit.\<close>

definition find_descriptor :: "u16 \<times> u64 list \<Rightarrow> u16 \<Rightarrow> descriptor option" where
  "find_descriptor g sel = (if bit sel 2 then None
     else if 8 * unat (drop_bit 3 sel) + 7 \<le> unat (fst g) then Some (selected (snd g) sel) else None)"

text \<open>The CPU's checks, at privilege level \<open>cpl\<close>.\<close>

definition data_load_ok :: "nat \<Rightarrow> u16 \<Rightarrow> descriptor \<Rightarrow> bool" where
  "data_load_ok cpl sel d = (\<not> d_system d \<and> d_present d
     \<and> (if d_code d then d_rw d else True)
     \<and> (if d_code d \<and> d_ec d then True else requested_privilege sel \<le> d_dpl d \<and> cpl \<le> d_dpl d))"

definition stack_load_ok :: "nat \<Rightarrow> u16 \<Rightarrow> descriptor \<Rightarrow> bool" where
  "stack_load_ok cpl sel d = (\<not> d_system d \<and> d_present d \<and> \<not> d_code d \<and> d_rw d
     \<and> requested_privilege sel = cpl \<and> d_dpl d = cpl)"

definition code_load_ok :: "bool \<Rightarrow> nat \<Rightarrow> u16 \<Rightarrow> descriptor \<Rightarrow> bool" where
  "code_load_ok long cpl sel d = (\<not> d_system d \<and> d_present d \<and> d_code d
     \<and> (if d_ec d then d_dpl d \<le> cpl else requested_privilege sel \<le> cpl \<and> d_dpl d = cpl)
     \<and> (if long then \<not> (d_long d \<and> d_big d) else True))"

definition put_sreg :: "sreg \<Rightarrow> u16 \<Rightarrow> descriptor option \<Rightarrow> seg_cpu \<Rightarrow> seg_cpu" where
  "put_sreg r sel d c = c\<lparr>visible := (visible c)(r := sel), cached := (cached c)(r := d)\<rparr>"

text \<open>In real mode a load only sets the base, to 16 times the selector.\<close>

definition real_segment :: "u16 \<Rightarrow> descriptor option \<Rightarrow> descriptor option" where
  "real_segment sel = map_option (\<lambda>d. d\<lparr>d_base := 16 * unat sel\<rparr>)"

text \<open>\<open>mov\<close> to a segment register other than \<open>cs\<close>.\<close>

definition load_sreg :: "sreg \<Rightarrow> u16 \<Rightarrow> seg_cpu \<Rightarrow> seg_cpu option" where
  "load_sreg r sel c =
     (if r = Cs then None
      else if \<not> protected_mode c then Some (put_sreg r sel (real_segment sel (cached c r)) c)
      else if null_selector sel
      then (if r \<noteq> Ss \<or> in_64bit_mode c \<and> seg_cpl c < 3 \<and> requested_privilege sel = seg_cpl c
            then Some (put_sreg r sel None c) else None)
      else case find_descriptor (gdtr c) sel of None \<Rightarrow> None
         | Some d \<Rightarrow> if (if r = Ss then stack_load_ok else data_load_ok) (seg_cpl c) sel d
                     then Some (put_sreg r sel (Some d) c) else None)"

text \<open>A far jump: \<open>cs\<close> gets the current privilege level in its low bits.\<close>

definition far_jump :: "u16 \<Rightarrow> seg_cpu \<Rightarrow> seg_cpu option" where
  "far_jump sel c =
     (if \<not> protected_mode c then Some (put_sreg Cs sel (real_segment sel (cached c Cs)) c)
      else if null_selector sel then None
      else case find_descriptor (gdtr c) sel of None \<Rightarrow> None
         | Some d \<Rightarrow> if code_load_ok (long_mode_active (seg_ctl c)) (seg_cpl c) sel d
                     then Some (put_sreg Cs (push_bit 2 (drop_bit 2 sel) OR of_nat (seg_cpl c)) (Some d) c) else None)"

text \<open>Interrupt delivery in long mode: a gate must name a 64-bit code segment.\<close>

definition gate_segment :: "seg_cpu \<Rightarrow> idt_entry \<Rightarrow> descriptor option" where
  "gate_segment c e =
     (if null_selector (selector e) then None
      else case find_descriptor (gdtr c) (selector e) of None \<Rightarrow> None
         | Some d \<Rightarrow> if \<not> d_system d \<and> d_present d \<and> d_code d \<and> d_dpl d \<le> seg_cpl c \<and> d_long d \<and> \<not> d_big d
                     then Some d else None)"

section \<open>The code\<close>

datatype seg_instr = Lgdt "u16 \<times> u64 list" | Mov_ax u16 | Mov_sreg sreg | Mov_sp u64 | Set_cr0_pe | Jmp_far u16

definition seg_step :: "seg_instr \<Rightarrow> seg_cpu \<Rightarrow> seg_cpu option" where
  "seg_step i c = (case i of
       Lgdt g \<Rightarrow> Some (c\<lparr>gdtr := g\<rparr>)
     | Mov_ax v \<Rightarrow> Some (c\<lparr>seg_ax := v\<rparr>)
     | Mov_sreg r \<Rightarrow> load_sreg r (seg_ax c) c
     | Mov_sp v \<Rightarrow> Some (c\<lparr>seg_sp := v\<rparr>)
     | Set_cr0_pe \<Rightarrow> Some (c\<lparr>seg_ctl := (seg_ctl c)\<lparr>cr0 := cr0 (seg_ctl c) OR 1\<rparr>, seg_cpl := 0\<rparr>)
     | Jmp_far sel \<Rightarrow> far_jump sel c)"

primrec seg_run :: "seg_instr list \<Rightarrow> seg_cpu \<Rightarrow> seg_cpu option" where
  "seg_run [] c = Some c"
| "seg_run (i # is) c = Option.bind (seg_step i c) (seg_run is)"

text \<open>The operands of \<open>lgdt\<close>: \<open>dw\<close> end minus start minus 1, and the table.\<close>

definition gdt_ptr :: "u16 \<times> u64 list" where
  "gdt_ptr = (of_nat (8 * length gdt) - 1, gdt)"

definition gdt64_ptr :: "u16 \<times> u64 list" where
  "gdt64_ptr = (of_nat (8 * length gdt64) - 1, gdt64)"

text \<open>The first instructions of \<open>start\<close>.\<close>

definition start_segments :: "seg_instr list" where
  "start_segments = [Mov_ax 0, Mov_sreg Ds, Mov_sreg Es, Mov_sreg Ss, Mov_sp 0x7C00]"

text \<open>The end of \<open>start\<close>; \<open>or eax, 1\<close> and its two moves are one instruction here.\<close>

definition enter_protected :: "seg_instr list" where
  "enter_protected = [Lgdt gdt_ptr, Set_cr0_pe, Jmp_far 0x08]"

definition prot32 :: "seg_instr list" where
  "prot32 = [Mov_ax 0x10, Mov_sreg Ds, Mov_sreg Es, Mov_sreg Fs, Mov_sreg Gs, Mov_sreg Ss, Mov_sp 0x90000]"

text \<open>The end of \<open>boot32_entry\<close>, behind the control registers.\<close>

definition enter_long :: "seg_instr list" where
  "enter_long = [Lgdt gdt64_ptr, Jmp_far 0x18]"

text \<open>The first instructions of \<open>long_entry\<close>.\<close>

definition long_segments :: "seg_instr list" where
  "long_segments = [Mov_ax 0x20, Mov_sreg Ds, Mov_sreg Es, Mov_sreg Fs, Mov_sreg Gs, Mov_sreg Ss, Mov_sp STACK64_TOP]"

definition enable_long :: "seg_cpu \<Rightarrow> seg_cpu" where
  "enable_long c = c\<lparr>seg_ctl := enable_long_mode (seg_ctl c)\<rparr>"

lemma seg_run_append: "seg_run (xs @ ys) c = Option.bind (seg_run xs c) (seg_run ys)"
proof (induction xs arbitrary: c)
  case (Cons i xs)
  then show ?case by (cases "seg_step i c") simp_all
qed simp

section \<open>Selectors and descriptors\<close>

lemma gdt_segments:
  "selected gdt 0x08 = code32_segment" "selected gdt 0x10 = data32_segment"
proof -
  have "selected gdt 0x08 = selected gdt64 0x08" "selected gdt 0x10 = selected gdt64 0x10"
    by (simp_all add: selected_def gdt_def gdt64_def)
  then show "selected gdt 0x08 = code32_segment" "selected gdt 0x10 = data32_segment"
    by (simp_all add: gdt64_segments)
qed

lemma found_descriptors:
  "find_descriptor gdt_ptr 0x08 = Some code32_segment" "find_descriptor gdt_ptr 0x10 = Some data32_segment"
  "find_descriptor gdt64_ptr 0x18 = Some code64_segment" "find_descriptor gdt64_ptr 0x20 = Some data64_segment"
proof -
  have "length gdt = 3" "length gdt64 = 5" by (simp_all add: gdt_def gdt64_def)
  then show "find_descriptor gdt_ptr 0x08 = Some code32_segment" "find_descriptor gdt_ptr 0x10 = Some data32_segment"
    "find_descriptor gdt64_ptr 0x18 = Some code64_segment" "find_descriptor gdt64_ptr 0x20 = Some data64_segment"
    using gdt_segments gdt64_segments
    by (simp_all add: find_descriptor_def gdt_ptr_def gdt64_ptr_def KERNEL_CS_def bit_numeral_simps drop_bit_eq_div)
qed

lemma boot_selectors:
  "requested_privilege 0x08 = 0" "requested_privilege 0x10 = 0" "requested_privilege 0x18 = 0" "requested_privilege 0x20 = 0"
  "\<not> null_selector 0x08" "\<not> null_selector 0x10" "\<not> null_selector 0x18" "\<not> null_selector 0x20"
  "push_bit 2 (drop_bit 2 0x08) = (0x08 :: u16)" "push_bit 2 (drop_bit 2 0x18) = (0x18 :: u16)"
  by (simp_all add: requested_privilege_def null_selector_def take_bit_eq_mod drop_bit_eq_div push_bit_eq_mult)

lemmas segment_kinds = code32_segment_def data32_segment_def code64_segment_def data64_segment_def
  data_load_ok_def stack_load_ok_def code_load_ok_def

lemma segment_checks:
  "data_load_ok 0 0x10 data32_segment" "stack_load_ok 0 0x10 data32_segment" "code_load_ok long 0 0x08 code32_segment"
  "data_load_ok 0 0x20 data64_segment" "stack_load_ok 0 0x20 data64_segment" "code_load_ok long 0 0x18 code64_segment"
  by (simp_all add: segment_kinds boot_selectors)

section \<open>Running the code\<close>

lemma load_protected:
  assumes "protected_mode c" "seg_cpl c = 0" "find_descriptor (gdtr c) sel = Some d" "\<not> null_selector sel"
    and "data_load_ok 0 sel d" "stack_load_ok 0 sel d" "r \<noteq> Cs"
  shows "load_sreg r sel c = Some (put_sreg r sel (Some d) c)"
  using assms by (simp add: load_sreg_def)

lemma put_sreg_fields [simp]:
  "seg_ctl (put_sreg r sel d c) = seg_ctl c" "seg_cpl (put_sreg r sel d c) = seg_cpl c" "gdtr (put_sreg r sel d c) = gdtr c"
  "seg_ax (put_sreg r sel d c) = seg_ax c" "seg_sp (put_sreg r sel d c) = seg_sp c"
  "visible (put_sreg r sel d c) = (visible c)(r := sel)" "cached (put_sreg r sel d c) = (cached c)(r := d)"
  by (simp_all add: put_sreg_def)

lemma protected_put_sreg [simp]:
  "protected_mode (put_sreg r sel d c) = protected_mode c" "protected_mode (c\<lparr>seg_ax := v\<rparr>) = protected_mode c"
  by (simp_all add: protected_mode_def)

text \<open>The five data registers and the stack pointer, as both stages load them.\<close>

lemma load_all:
  assumes "protected_mode c" "seg_cpl c = 0" "find_descriptor (gdtr c) sel = Some d" "\<not> null_selector sel"
    and "data_load_ok 0 sel d" "stack_load_ok 0 sel d"
  shows "seg_run [Mov_ax sel, Mov_sreg Ds, Mov_sreg Es, Mov_sreg Fs, Mov_sreg Gs, Mov_sreg Ss, Mov_sp sp] c
    = Some (c\<lparr>seg_ax := sel, seg_sp := sp, visible := (\<lambda>r. if r = Cs then visible c Cs else sel),
        cached := (\<lambda>r. if r = Cs then cached c Cs else Some d)\<rparr>)"
proof -
  have all: "(f(Ds := v, Es := v, Fs := v, Gs := v, Ss := v)) = (\<lambda>r. if r = Cs then f Cs else v)" for f :: "sreg \<Rightarrow> 'b" and v
  proof
    fix r
    show "(f(Ds := v, Es := v, Fs := v, Gs := v, Ss := v)) r = (if r = Cs then f Cs else v)" by (cases r) simp_all
  qed
  have "seg_run [Mov_ax sel, Mov_sreg Ds, Mov_sreg Es, Mov_sreg Fs, Mov_sreg Gs, Mov_sreg Ss, Mov_sp sp] c
    = Some ((put_sreg Ss sel (Some d) (put_sreg Gs sel (Some d) (put_sreg Fs sel (Some d) (put_sreg Es sel (Some d)
        (put_sreg Ds sel (Some d) (c\<lparr>seg_ax := sel\<rparr>))))))\<lparr>seg_sp := sp\<rparr>)"
    using assms by (simp add: seg_step_def load_protected [OF _ _ _ assms(4-6)])
  then show ?thesis by (simp add: put_sreg_def all)
qed

text \<open>Into protected mode.\<close>

lemma start_segments_run:
  assumes "\<not> protected_mode c"
  shows "\<exists>t. seg_run start_segments c = Some t \<and> seg_ctl t = seg_ctl c \<and> seg_sp t = 0x7C00
    \<and> (\<forall>r\<in>{Ds, Es, Ss}. visible t r = 0 \<and> cached t r = map_option (\<lambda>d. d\<lparr>d_base := 0\<rparr>) (cached c r))"
  using assms by (simp add: start_segments_def seg_step_def load_sreg_def protected_mode_def real_segment_def)

lemma prot32_run:
  "\<exists>t. seg_run (enter_protected @ prot32) c = Some t \<and> seg_ctl t = (seg_ctl c)\<lparr>cr0 := cr0 (seg_ctl c) OR 1\<rparr>
    \<and> seg_cpl t = 0 \<and> seg_sp t = 0x90000 \<and> visible t = (\<lambda>r. if r = Cs then 0x08 else 0x10)
    \<and> cached t = (\<lambda>r. Some (if r = Cs then code32_segment else data32_segment))"
proof -
  define a where "a = put_sreg Cs 0x08 (Some code32_segment)
    (c\<lparr>gdtr := gdt_ptr, seg_ctl := (seg_ctl c)\<lparr>cr0 := cr0 (seg_ctl c) OR 1\<rparr>, seg_cpl := 0\<rparr>)"
  have "protected_mode a" "seg_cpl a = 0" "gdtr a = gdt_ptr" by (simp_all add: a_def protected_mode_def bit_or_iff)
  note l = load_all [OF this(1,2), of "0x10" data32_segment "0x90000", unfolded this(3)]
  have "seg_run (enter_protected @ prot32) c = seg_run prot32 a"
    by (simp add: enter_protected_def seg_step_def far_jump_def protected_mode_def bit_or_iff found_descriptors
        boot_selectors segment_checks a_def)
  then show ?thesis using l unfolding prot32_def
    by (simp add: found_descriptors boot_selectors segment_checks) (simp add: a_def if_distrib fun_eq_iff)
qed

lemma long_run:
  assumes "long_mode_active (seg_ctl c)" "seg_cpl c = 0"
  shows "\<exists>t. seg_run (enter_long @ long_segments) c = Some t \<and> seg_ctl t = seg_ctl c \<and> seg_cpl t = 0
    \<and> gdtr t = gdt64_ptr \<and> seg_sp t = STACK64_TOP \<and> visible t = (\<lambda>r. if r = Cs then 0x18 else 0x20)
    \<and> cached t = (\<lambda>r. Some (if r = Cs then code64_segment else data64_segment))"
proof -
  define a where "a = put_sreg Cs 0x18 (Some code64_segment) (c\<lparr>gdtr := gdt64_ptr\<rparr>)"
  have pm: "bit (cr0 (seg_ctl c)) 0" using assms(1) by (simp add: long_mode_active_def)
  then have "protected_mode a" "seg_cpl a = 0" "gdtr a = gdt64_ptr" using assms(2) by (simp_all add: a_def protected_mode_def)
  note l = load_all [OF this(1,2), of "0x20" data64_segment STACK64_TOP, unfolded this(3)]
  have "seg_run (enter_long @ long_segments) c = seg_run long_segments a"
    using pm assms(2) by (simp add: enter_long_def seg_step_def far_jump_def protected_mode_def found_descriptors
        boot_selectors segment_checks a_def)
  then show ?thesis using l assms(2) unfolding long_segments_def
    by (simp add: found_descriptors boot_selectors segment_checks) (simp add: a_def if_distrib fun_eq_iff)
qed

lemma gate_segment_int_gate:
  "gdtr c = gdt64_ptr \<Longrightarrow> selector e = KERNEL_CS \<Longrightarrow> gate_segment c e = Some code64_segment"
  by (simp add: gate_segment_def KERNEL_CS_def boot_selectors found_descriptors) (simp add: code64_segment_def)

text \<open>
  C38: on the way from real mode to \<open>kmain\<close> no load of a segment register is refused, and each stage
  runs on the segments it needs.  From any real-mode start the code in front of stage 2 ends in
  protected mode with the flat 4GB 32-bit code segment in \<open>cs\<close>, the flat writable data segment in
  the other five registers and the stack at 0x90000; once the control registers have activated long
  mode, the far jump enters 64-bit mode, and \<open>kmain\<close> is called with a present ring-0 code segment with
  the long bit set in \<open>cs\<close>, present writable ring-0 data in the others, and the stack at 0x90000.  On the
  table then loaded, each of the 48 gates that \<open>idt_init\<close> and \<open>idt_install_irqs\<close> write names that
  code segment.
\<close>

theorem boot_segments_loaded:
  assumes "\<not> protected_mode c"
  shows "\<exists>c1 c2 c3. seg_run start_segments c = Some c1 \<and> cached c1 Ss = map_option (\<lambda>d. d\<lparr>d_base := 0\<rparr>) (cached c Ss)
    \<and> seg_run (enter_protected @ prot32) c1 = Some c2 \<and> protected_mode c2 \<and> seg_sp c2 = 0x90000
    \<and> cached c2 = (\<lambda>r. Some (if r = Cs then code32_segment else data32_segment))
    \<and> seg_run (enter_long @ long_segments) (enable_long c2) = Some c3 \<and> in_64bit_mode c3 \<and> seg_sp c3 = STACK64_TOP
    \<and> cached c3 = (\<lambda>r. Some (if r = Cs then code64_segment else data64_segment))
    \<and> (\<forall>v. unat v < 48 \<longrightarrow> gate_segment c3 (idt (idt_install_irqs irq (idt_init isr addr s)) v) = Some code64_segment)"
proof -
  obtain c1 where c1: "seg_run start_segments c = Some c1" "cached c1 Ss = map_option (\<lambda>d. d\<lparr>d_base := 0\<rparr>) (cached c Ss)"
    using start_segments_run [OF assms] by auto
  obtain c2 where c2: "seg_run (enter_protected @ prot32) c1 = Some c2" "seg_cpl c2 = 0" "seg_sp c2 = 0x90000"
    "seg_ctl c2 = (seg_ctl c1)\<lparr>cr0 := cr0 (seg_ctl c1) OR 1\<rparr>"
    "cached c2 = (\<lambda>r. Some (if r = Cs then code32_segment else data32_segment))"
    using prot32_run [of c1] by blast
  have p: "protected_mode c2" by (simp add: protected_mode_def c2(4) bit_or_iff)
  then have a: "long_mode_active (seg_ctl (enable_long c2))"
    by (simp add: enable_long_def enable_long_mode_active protected_mode_def)
  moreover have "seg_cpl (enable_long c2) = 0" using c2(2) by (simp add: enable_long_def)
  ultimately obtain c3 where c3: "seg_run (enter_long @ long_segments) (enable_long c2) = Some c3"
    "seg_ctl c3 = seg_ctl (enable_long c2)" "gdtr c3 = gdt64_ptr" "seg_sp c3 = STACK64_TOP"
    "cached c3 = (\<lambda>r. Some (if r = Cs then code64_segment else data64_segment))"
    using long_run by blast
  have "in_64bit_mode c3" using a by (simp add: in_64bit_mode_def c3(2,5)) (simp add: code64_segment_def)
  moreover have "selector (int_gate h) = KERNEL_CS" for h by (simp add: int_gate_def KERNEL_CS_def)
  then have "gate_segment c3 (idt (idt_install_irqs irq (idt_init isr addr s)) v) = Some code64_segment"
    if "unat v < 48" for v using that
    by (intro gate_segment_int_gate [OF c3(3)]) (simp add: idt_init_eq idt_install_irqs_eq)
  ultimately show ?thesis using c1 c2 c3 p by blast
qed

text \<open>The CPU as the BIOS starts the boot sector, with its segments anywhere in the first megabyte.\<close>

definition bios_segments :: seg_cpu where
  "bios_segments = \<lparr>seg_ctl = \<lparr>cr0 = 0, cr3 = 0, cr4 = 0, efer = 0\<rparr>, seg_cpl = 0, gdtr = (0, []), seg_ax = 0xAA55,
     seg_sp = 0x400, visible = (\<lambda>_. 0x30), cached = (\<lambda>_. Some (data32_segment\<lparr>d_base := 0x300, d_limit := 0xFFFF\<rparr>))\<rparr>"

theorem boot_segments_loaded_witness:
  "\<exists>c2 c3. seg_run (start_segments @ enter_protected @ prot32) bios_segments = Some c2
    \<and> cached c2 Ss = Some data32_segment \<and> seg_run (enter_long @ long_segments) (enable_long c2) = Some c3 \<and> in_64bit_mode c3"
proof -
  have "\<not> protected_mode bios_segments" by (simp add: protected_mode_def bios_segments_def)
  from boot_segments_loaded [OF this] obtain c1 c2 c3 where c: "seg_run start_segments bios_segments = Some c1"
    "seg_run (enter_protected @ prot32) c1 = Some c2" "cached c2 = (\<lambda>r. Some (if r = Cs then code32_segment else data32_segment))"
    "seg_run (enter_long @ long_segments) (enable_long c2) = Some c3" "in_64bit_mode c3"
    by blast
  then show ?thesis by (intro exI [of _ c2] exI [of _ c3]) (simp add: seg_run_append)
qed

end
