(* ===== verification/Isr.thy ===== *)
theory Isr
  imports Kmain
begin

unbundle bit_operations_syntax

text \<open>
  The interrupt stubs, \<^verbatim>\<open>kernel/arch/x86_64/isr.asm\<close>: the instruction lists of the 48 stubs and of
  the two common tails, the two stub tables, and an executable semantics of the instructions they
  use, over registers and the physical memory of theory \<open>Phys_Memory\<close>.  The CPU's part is written
  out too: delivery through a 64-bit interrupt gate and \<open>iretq\<close>.  The addresses of the stubs are
  the linker's, an argument \<open>lnk\<close>; what compiled C code does to registers and memory is the argument
  \<open>callee\<close>, with the calling convention as a named hypothesis, \<open>sysv_callee\<close>.
\<close>

section \<open>Registers and instructions\<close>

datatype reg = Rax | Rbx | Rcx | Rdx | Rsi | Rdi | Rbp | R8 | R9 | R10 | R11 | R12 | R13 | R14 | R15

record cpu =
  gpr :: "reg \<Rightarrow> u64"
  cpu_rsp :: u64
  cpu_rip :: u64
  cpu_cs :: u16
  cpu_ss :: u16
  cpu_rflags :: u64
  cpu_mem :: memory

datatype label = Isr_stub nat | Isr_common | Isr_hang | Irq_common

datatype c_function = Exception_handler | Irq_dispatch

datatype instr =
    Push_imm u64
  | Push reg
  | Pop reg
  | Mov_rdi_rsp
  | Add_rsp u64
  | Call c_function
  | Jmp label
  | Cli
  | Hlt
  | Iretq

section \<open>The program text\<close>

definition ISR_NOERR :: "nat \<Rightarrow> label \<times> instr list" where
  "ISR_NOERR n = (Isr_stub n, [Push_imm 0, Push_imm (of_nat n), Jmp Isr_common])"

definition ISR_ERR :: "nat \<Rightarrow> label \<times> instr list" where
  "ISR_ERR n = (Isr_stub n, [Push_imm (of_nat n), Jmp Isr_common])"

definition IRQ_NOERR :: "nat \<Rightarrow> label \<times> instr list" where
  "IRQ_NOERR n = (Isr_stub n, [Push_imm 0, Push_imm (of_nat n), Jmp Irq_common])"

definition isr_stubs :: "(label \<times> instr list) list" where
  "isr_stubs =
     [ISR_NOERR 0, ISR_NOERR 1, ISR_NOERR 2, ISR_NOERR 3, ISR_NOERR 4, ISR_NOERR 5, ISR_NOERR 6, ISR_NOERR 7,
      ISR_ERR 8, ISR_NOERR 9, ISR_ERR 10, ISR_ERR 11, ISR_ERR 12, ISR_ERR 13, ISR_ERR 14, ISR_NOERR 15,
      ISR_NOERR 16, ISR_ERR 17, ISR_NOERR 18, ISR_NOERR 19, ISR_NOERR 20, ISR_ERR 21, ISR_NOERR 22, ISR_NOERR 23,
      ISR_NOERR 24, ISR_NOERR 25, ISR_NOERR 26, ISR_NOERR 27, ISR_NOERR 28, ISR_NOERR 29, ISR_NOERR 30, ISR_NOERR 31]"

definition irq_stubs :: "(label \<times> instr list) list" where
  "irq_stubs =
     [IRQ_NOERR 32, IRQ_NOERR 33, IRQ_NOERR 34, IRQ_NOERR 35, IRQ_NOERR 36, IRQ_NOERR 37, IRQ_NOERR 38, IRQ_NOERR 39,
      IRQ_NOERR 40, IRQ_NOERR 41, IRQ_NOERR 42, IRQ_NOERR 43, IRQ_NOERR 44, IRQ_NOERR 45, IRQ_NOERR 46, IRQ_NOERR 47]"

text \<open>\<open>isr_common\<close> runs into \<open>.hang\<close>.\<close>

definition isr_hang :: "instr list" where
  "isr_hang = [Hlt, Jmp Isr_hang]"

definition isr_common :: "instr list" where
  "isr_common =
     [Push Rax, Push Rbx, Push Rcx, Push Rdx, Push Rsi, Push Rdi, Push Rbp, Push R8, Push R9, Push R10,
      Push R11, Push R12, Push R13, Push R14, Push R15, Mov_rdi_rsp, Call Exception_handler, Cli] @ isr_hang"

definition irq_common :: "instr list" where
  "irq_common =
     [Push Rax, Push Rbx, Push Rcx, Push Rdx, Push Rsi, Push Rdi, Push Rbp, Push R8, Push R9, Push R10,
      Push R11, Push R12, Push R13, Push R14, Push R15, Mov_rdi_rsp, Call Irq_dispatch,
      Pop R15, Pop R14, Pop R13, Pop R12, Pop R11, Pop R10, Pop R9, Pop R8, Pop Rbp, Pop Rdi, Pop Rsi, Pop Rdx,
      Pop Rcx, Pop Rbx, Pop Rax, Add_rsp 16, Iretq]"

definition isr_text :: "(label \<times> instr list) list" where
  "isr_text = isr_stubs @ [(Isr_common, isr_common), (Isr_hang, isr_hang)] @ irq_stubs @ [(Irq_common, irq_common)]"

text \<open>The two tables of the read-only data, as the labels the \<open>dq\<close> lines name.\<close>

definition isr_stub_dq :: "label list" where
  "isr_stub_dq =
     [Isr_stub 0, Isr_stub 1, Isr_stub 2, Isr_stub 3, Isr_stub 4, Isr_stub 5, Isr_stub 6, Isr_stub 7,
      Isr_stub 8, Isr_stub 9, Isr_stub 10, Isr_stub 11, Isr_stub 12, Isr_stub 13, Isr_stub 14, Isr_stub 15,
      Isr_stub 16, Isr_stub 17, Isr_stub 18, Isr_stub 19, Isr_stub 20, Isr_stub 21, Isr_stub 22, Isr_stub 23,
      Isr_stub 24, Isr_stub 25, Isr_stub 26, Isr_stub 27, Isr_stub 28, Isr_stub 29, Isr_stub 30, Isr_stub 31]"

definition irq_stub_dq :: "label list" where
  "irq_stub_dq =
     [Isr_stub 32, Isr_stub 33, Isr_stub 34, Isr_stub 35, Isr_stub 36, Isr_stub 37, Isr_stub 38, Isr_stub 39,
      Isr_stub 40, Isr_stub 41, Isr_stub 42, Isr_stub 43, Isr_stub 44, Isr_stub 45, Isr_stub 46, Isr_stub 47]"

text \<open>The tables the C code links against hold the addresses of those labels.\<close>

definition stub_tables :: "(label \<Rightarrow> u64) \<Rightarrow> link_layout \<Rightarrow> bool" where
  "stub_tables lnk lay \<longleftrightarrow> (\<forall>i<32. isr_stub_table lay i = lnk (isr_stub_dq ! i))
     \<and> (\<forall>i<16. irq_stub_table lay i = lnk (irq_stub_dq ! i))"

definition label_at :: "(label \<Rightarrow> u64) \<Rightarrow> u64 \<Rightarrow> label option" where
  "label_at lnk a = find (\<lambda>l. lnk l = a) (map fst isr_text)"

section \<open>What the instructions do\<close>

definition push_word :: "u64 \<Rightarrow> cpu \<Rightarrow> fault + cpu" where
  "push_word v c = bindE (store64 (cpu_rsp c - 8) v (cpu_mem c))
     (\<lambda>m. Inr (c\<lparr>cpu_rsp := cpu_rsp c - 8, cpu_mem := m\<rparr>))"

definition pop_word :: "cpu \<Rightarrow> fault + u64 \<times> cpu" where
  "pop_word c = bindE (load64 (cpu_mem c) (cpu_rsp c)) (\<lambda>v. Inr (v, c\<lparr>cpu_rsp := cpu_rsp c + 8\<rparr>))"

text \<open>\<open>struct interrupt_frame\<close> as C reads it at an address: 22 words in field order.\<close>

definition frame_of_words :: "u64 list \<Rightarrow> interrupt_frame" where
  "frame_of_words ws = \<lparr>f_r15 = ws ! 0, f_r14 = ws ! 1, f_r13 = ws ! 2, f_r12 = ws ! 3, f_r11 = ws ! 4,
     f_r10 = ws ! 5, f_r9 = ws ! 6, f_r8 = ws ! 7, f_rbp = ws ! 8, f_rdi = ws ! 9, f_rsi = ws ! 10,
     f_rdx = ws ! 11, f_rcx = ws ! 12, f_rbx = ws ! 13, f_rax = ws ! 14, f_vector = ws ! 15, f_error = ws ! 16,
     f_rip = ws ! 17, f_cs = ws ! 18, f_rflags = ws ! 19, f_rsp = ws ! 20, f_ss = ws ! 21\<rparr>"

definition read_frame :: "memory \<Rightarrow> u64 \<Rightarrow> fault + interrupt_frame" where
  "read_frame m a = (if mapped a 176
     then Inr (frame_of_words (map (\<lambda>i. get64 m (a + of_nat (8 * i))) [0..<22])) else Inl (wide_fault a))"

text \<open>
  Where a block ends: at a jump, at \<open>iretq\<close>, with the CPU parked for good, in a loop that neither ends
  nor parks the CPU, or running off its end.
\<close>

datatype exit = Goto label | Resumed | Halted | Endless | Off_end

text \<open>Two instructions that C code uses as well; a halt with interrupts disabled is for good.\<close>

definition cli :: "cpu \<Rightarrow> cpu" where
  "cli c = c\<lparr>cpu_rflags := unset_bit 9 (cpu_rflags c)\<rparr>"

definition hlt :: "cpu \<Rightarrow> exit option" where
  "hlt c = (if bit (cpu_rflags c) 9 then None else Some Halted)"

text \<open>The loop at the end of \<open>exception_handler\<close>: \<open>cli; hlt\<close>, again after every wake-up.\<close>

partial_function (option) cli_hlt_loop :: "cpu \<Rightarrow> (exit \<times> cpu) option" where
  "cli_hlt_loop c = (let c = cli c in case hlt c of Some x \<Rightarrow> Some (x, c) | None \<Rightarrow> cli_hlt_loop c)"

lemma cli_hlt_loop_parks: "cli_hlt_loop c = Some (Halted, cli c)"
  by (subst cli_hlt_loop.simps) (simp add: Let_def hlt_def cli_def bit_unset_bit_iff)

text \<open>
  What the two C functions get from their surroundings: the return address of the call, the effect
  of the compiled function on the CPU between entry and return, and the devices.
\<close>

record c_env =
  return_address :: u64
  callee :: "cpu \<Rightarrow> cpu"
  devices :: device

text \<open>
  The call pushes the return address; the function reads its frame through \<open>rdi\<close>, has its effect,
  and \<open>ret\<close> pops the return address.  If that is no longer the address pushed, control is lost.
  \<open>exception_handler\<close> has its effect and ends in its loop.
\<close>

definition call_c :: "c_env \<Rightarrow> c_function \<Rightarrow> cpu \<times> 'a keyboard_scheme
    \<Rightarrow> fault + exit option \<times> cpu \<times> 'a keyboard_scheme" where
  "call_c env f = (\<lambda>(c, s).
     bindE (push_word (return_address env) c) (\<lambda>c.
     bindE (read_frame (cpu_mem c) (gpr c Rdi)) (\<lambda>frame.
     case f of
       Exception_handler \<Rightarrow>
         Inr (case cli_hlt_loop (callee env c) of None \<Rightarrow> (Some Endless, callee env c, exception_handler frame s)
              | Some (x, c) \<Rightarrow> (Some x, c, exception_handler frame s))
     | Irq_dispatch \<Rightarrow>
         bindE (pop_word (callee env c)) (\<lambda>(ra, c).
         Inr (if ra = return_address env then None else Some Off_end, c, irq_dispatch (devices env) frame s)))))"

definition iretq :: "cpu \<Rightarrow> fault + cpu" where
  "iretq c = bindE (pop_word c) (\<lambda>(rip, c).
     bindE (pop_word c) (\<lambda>(cs, c).
     bindE (pop_word c) (\<lambda>(fl, c).
     bindE (pop_word c) (\<lambda>(sp, c).
     bindE (pop_word c) (\<lambda>(ss, c).
     Inr (c\<lparr>cpu_rsp := sp, cpu_rip := rip, cpu_cs := ucast cs, cpu_ss := ucast ss, cpu_rflags := fl\<rparr>))))))"

text \<open>One instruction: \<open>None\<close> goes on with the following one.\<close>

definition step :: "c_env \<Rightarrow> instr \<Rightarrow> cpu \<times> 'a keyboard_scheme
    \<Rightarrow> fault + exit option \<times> cpu \<times> 'a keyboard_scheme" where
  "step env i = (\<lambda>(c, s). case i of
       Push_imm v \<Rightarrow> bindE (push_word v c) (\<lambda>c. Inr (None, c, s))
     | Push r \<Rightarrow> bindE (push_word (gpr c r) c) (\<lambda>c. Inr (None, c, s))
     | Pop r \<Rightarrow> bindE (pop_word c) (\<lambda>(v, c). Inr (None, c\<lparr>gpr := (gpr c)(r := v)\<rparr>, s))
     | Mov_rdi_rsp \<Rightarrow> Inr (None, c\<lparr>gpr := (gpr c)(Rdi := cpu_rsp c)\<rparr>, s)
     | Add_rsp n \<Rightarrow> Inr (None, c\<lparr>cpu_rsp := cpu_rsp c + n\<rparr>, s)
     | Call f \<Rightarrow> call_c env f (c, s)
     | Jmp l \<Rightarrow> Inr (Some (Goto l), c, s)
     | Cli \<Rightarrow> Inr (None, cli c, s)
     | Hlt \<Rightarrow> Inr (hlt c, c, s)
     | Iretq \<Rightarrow> bindE (iretq c) (\<lambda>c. Inr (Some Resumed, c, s)))"

primrec exec :: "c_env \<Rightarrow> instr list \<Rightarrow> cpu \<times> 'a keyboard_scheme
    \<Rightarrow> fault + exit \<times> cpu \<times> 'a keyboard_scheme" where
  "exec env [] m = Inr (Off_end, m)"
| "exec env (i # is) m = bindE (step env i m)
     (\<lambda>(e, m). case e of None \<Rightarrow> exec env is m | Some x \<Rightarrow> Inr (x, m))"

text \<open>Following jumps, with fuel; \<open>None\<close> is running out of it, or a label without code.\<close>

primrec follow :: "c_env \<Rightarrow> nat \<Rightarrow> label \<Rightarrow> cpu \<times> 'a keyboard_scheme
    \<Rightarrow> (exit \<times> cpu \<times> 'a keyboard_scheme) outcome" where
  "follow env 0 l m = None"
| "follow env (Suc n) l m = (case map_of isr_text l of None \<Rightarrow> None
     | Some is \<Rightarrow> andthen (Some (exec env is m))
         (\<lambda>(x, m). case x of Goto l' \<Rightarrow> follow env n l' m | _ \<Rightarrow> returns (x, m)))"

section \<open>The CPU's interrupt delivery\<close>

primrec push_words :: "u64 list \<Rightarrow> cpu \<Rightarrow> fault + cpu" where
  "push_words [] c = Inr c"
| "push_words (v # vs) c = bindE (push_word v c) (push_words vs)"

definition aligned_rsp :: "cpu \<Rightarrow> u64" where
  "aligned_rsp c = cpu_rsp c AND NOT 0xF"

text \<open>
  In 64-bit mode delivery aligns the stack to 16 bytes and always pushes all five words, then the
  error code if the exception has one; an interrupt gate clears TF, IF, NT and RF.
\<close>

definition deliver :: "idt_entry \<Rightarrow> u64 option \<Rightarrow> cpu \<Rightarrow> fault + cpu" where
  "deliver e err c =
     bindE (push_words ([ucast (cpu_ss c), cpu_rsp c, cpu_rflags c, ucast (cpu_cs c), cpu_rip c]
              @ (case err of None \<Rightarrow> [] | Some w \<Rightarrow> [w])) (c\<lparr>cpu_rsp := aligned_rsp c\<rparr>))
       (\<lambda>c. Inr (c\<lparr>cpu_rip := gate_offset e, cpu_cs := selector e,
          cpu_rflags := unset_bit 8 (unset_bit 9 (unset_bit 14 (unset_bit 16 (cpu_rflags c))))\<rparr>))"

text \<open>An interrupt or exception, from the interrupted instruction to the stub's end.\<close>

definition interrupt :: "(label \<Rightarrow> u64) \<Rightarrow> c_env \<Rightarrow> u8 \<Rightarrow> u64 option \<Rightarrow> cpu \<times> 'a keyboard_scheme
    \<Rightarrow> (exit \<times> cpu \<times> 'a keyboard_scheme) outcome" where
  "interrupt lnk env v err = (\<lambda>(c, s).
     if type_attr (idt s v) \<noteq> 0x8E then None
     else andthen (Some (deliver (idt s v) err c)) (\<lambda>c.
       case label_at lnk (cpu_rip c) of None \<Rightarrow> None | Some l \<Rightarrow> follow env 2 l (c, s)))"

text \<open>
  The calling convention, for a stack whose base is \<open>base\<close>: entered with the stack pointer 8 below
  a multiple of 16, the direction flag clear and \<open>room\<close> bytes of stack, a C function returns with
  the stack pointer it got and the stack from there to \<open>base\<close> unchanged; it does not touch
  segments or flags it does not own.  What it leaves in the other registers is its own business.
\<close>

definition sysv_callee :: "nat \<Rightarrow> nat \<Rightarrow> (cpu \<Rightarrow> cpu) \<Rightarrow> bool" where
  "sysv_callee room base f \<longleftrightarrow> (\<forall>c. unat (cpu_rsp c) mod 16 = 8 \<and> room \<le> unat (cpu_rsp c) \<and> \<not> bit (cpu_rflags c) 10
     \<longrightarrow> cpu_rsp (f c) = cpu_rsp c
       \<and> (\<forall>x. unat (cpu_rsp c) \<le> unat x \<and> unat x < base \<longrightarrow> cpu_mem (f c) x = cpu_mem c x))"

section \<open>The stack\<close>

text \<open>The words \<open>ws\<close> lie on the stack, from the stack pointer up to the byte address \<open>t\<close>.\<close>

definition stk :: "nat \<Rightarrow> u64 list \<Rightarrow> cpu \<Rightarrow> bool" where
  "stk t ws c \<longleftrightarrow> unat (cpu_rsp c) + 8 * length ws = t \<and> t \<le> 512 * 0x200000
     \<and> (\<forall>i<length ws. get64 (cpu_mem c) (cpu_rsp c + of_nat (8 * i)) = ws ! i)"

text \<open>\<open>c'\<close> differs from \<open>c\<close> only in the stack pointer and in memory below \<open>t\<close>.\<close>

definition only_below :: "nat \<Rightarrow> cpu \<Rightarrow> cpu \<Rightarrow> bool" where
  "only_below t c c' \<longleftrightarrow> c' = c\<lparr>cpu_rsp := cpu_rsp c', cpu_mem := cpu_mem c'\<rparr>
     \<and> (\<forall>x. t \<le> unat x \<longrightarrow> cpu_mem c' x = cpu_mem c x)"

lemma only_below_refl [simp]: "only_below t c c"
  by (simp add: only_below_def)

lemma only_below_trans: "only_below t c c' \<Longrightarrow> only_below t c' c'' \<Longrightarrow> only_below t c c''"
  unfolding only_below_def by (cases c; cases c'; cases c'') simp

lemma only_below_fields:
  "only_below t c c' \<Longrightarrow> gpr c' = gpr c \<and> cpu_rip c' = cpu_rip c \<and> cpu_cs c' = cpu_cs c
     \<and> cpu_ss c' = cpu_ss c \<and> cpu_rflags c' = cpu_rflags c"
  unfolding only_below_def by (cases c; cases c') simp

lemma unat_add_mapped: "unat a + i \<le> 512 * 0x200000 \<Longrightarrow> unat (a + of_nat i :: u64) = unat a + i"
  by (rule unat_add_of_nat) simp

lemma stk_cong:
  assumes "stk t ws c" "cpu_rsp c' = cpu_rsp c"
    and "\<And>x. unat (cpu_rsp c) \<le> unat x \<Longrightarrow> unat x < t \<Longrightarrow> cpu_mem c' x = cpu_mem c x"
  shows "stk t ws c'"
proof -
  have t: "unat (cpu_rsp c) + 8 * length ws = t" "t \<le> 512 * 0x200000" using assms(1) by (simp_all add: stk_def)
  have "get64 (cpu_mem c') (cpu_rsp c + of_nat (8 * i)) = get64 (cpu_mem c) (cpu_rsp c + of_nat (8 * i))"
    if i: "i < length ws" for i
  proof (rule get64_cong)
    fix j :: nat
    assume j: "j < 8"
    have "unat (cpu_rsp c + of_nat (8 * i + j)) = unat (cpu_rsp c) + (8 * i + j)"
      using t i j by (intro unat_add_mapped) linarith
    then show "cpu_mem c' (cpu_rsp c + of_nat (8 * i) + of_nat j) = cpu_mem c (cpu_rsp c + of_nat (8 * i) + of_nat j)"
      using t i j by (intro assms(3)) (simp_all add: add.assoc)
  qed
  with assms(1,2) show ?thesis by (simp add: stk_def)
qed

lemma push_word_stk:
  assumes "stk t ws c" "8 * Suc (length ws) \<le> t"
  shows "\<exists>c'. push_word v c = Inr c' \<and> stk t (v # ws) c' \<and> only_below t c c'"
proof -
  define a where "a = cpu_rsp c - 8"
  define c' where "c' = c\<lparr>cpu_rsp := a, cpu_mem := put64 a v (cpu_mem c)\<rparr>"
  have t: "unat (cpu_rsp c) + 8 * length ws = t" "t \<le> 512 * 0x200000" using assms(1) by (simp_all add: stk_def)
  have "(8 :: u64) \<le> cpu_rsp c" using t assms(2) by (simp add: word_le_nat_alt)
  then have a: "unat a = unat (cpu_rsp c) - 8" "8 \<le> unat (cpu_rsp c)"
    using assms(2) t by (simp_all add: a_def unat_sub_small)
  have "get64 (put64 a v (cpu_mem c)) (a + of_nat (8 * i)) = (v # ws) ! i" if i: "i < Suc (length ws)" for i
  proof (cases i)
    case 0
    then show ?thesis using a t by (simp add: get64_put64_same)
  next
    case (Suc j)
    have eq: "a + of_nat (8 * i) = cpu_rsp c + of_nat (8 * j)" by (simp add: Suc a_def)
    have "unat (cpu_rsp c + of_nat (8 * j)) = unat (cpu_rsp c) + 8 * j"
      using i Suc t by (intro unat_add_mapped) linarith
    then have "get64 (put64 a v (cpu_mem c)) (a + of_nat (8 * i)) = get64 (cpu_mem c) (cpu_rsp c + of_nat (8 * j))"
      unfolding eq using i Suc t a by (intro get64_put64_other) simp_all
    with i Suc assms(1) show ?thesis by (simp add: stk_def)
  qed
  then have "stk t (v # ws) c'" using a t assms(2) by (simp add: stk_def c'_def)
  moreover have "push_word v c = Inr c'"
    using a t by (simp add: push_word_def store64_def mapped_def c'_def flip: a_def)
  moreover have "only_below t c c'"
    using a t assms(2) by (auto simp: only_below_def c'_def intro!: put64_outside)
  ultimately show ?thesis by blast
qed

lemma push_words_stk:
  "stk t ws c \<Longrightarrow> 8 * (length vs + length ws) \<le> t
   \<Longrightarrow> \<exists>c'. push_words vs c = Inr c' \<and> stk t (rev vs @ ws) c' \<and> only_below t c c'"
proof (induction vs arbitrary: c ws)
  case (Cons v vs)
  then obtain c1 where "push_word v c = Inr c1" "stk t (v # ws) c1" "only_below t c c1"
    using push_word_stk [of t ws c v] by auto
  with Cons.IH [of "v # ws" c1] Cons.prems show ?case
    by (auto intro: only_below_trans)
qed simp

lemma pop_word_stk:
  assumes "stk t (w # ws) c"
  shows "pop_word c = Inr (w, c\<lparr>cpu_rsp := cpu_rsp c + 8\<rparr>)" "stk t ws (c\<lparr>cpu_rsp := cpu_rsp c + 8\<rparr>)"
proof -
  have t: "unat (cpu_rsp c) + 8 * Suc (length ws) = t" "t \<le> 512 * 0x200000"
    and w: "\<forall>i<Suc (length ws). get64 (cpu_mem c) (cpu_rsp c + of_nat (8 * i)) = (w # ws) ! i"
    using assms by (simp_all add: stk_def)
  have "get64 (cpu_mem c) (cpu_rsp c) = w" using w [rule_format, of 0] by simp
  with t show "pop_word c = Inr (w, c\<lparr>cpu_rsp := cpu_rsp c + 8\<rparr>)"
    by (simp add: pop_word_def load64_def mapped_def)
  have "unat (cpu_rsp c + of_nat 8) = unat (cpu_rsp c) + 8" using t by (intro unat_add_mapped) simp
  moreover have "get64 (cpu_mem c) (cpu_rsp c + 8 + of_nat (8 * i)) = ws ! i" if "i < length ws" for i
    using w [rule_format, of "Suc i"] that by (simp add: add.assoc)
  ultimately show "stk t ws (c\<lparr>cpu_rsp := cpu_rsp c + 8\<rparr>)" using t by (simp add: stk_def)
qed

lemma read_frame_stk:
  assumes "stk t ws c" "22 \<le> length ws"
  shows "read_frame (cpu_mem c) (cpu_rsp c) = Inr (frame_of_words ws)"
proof -
  have "map (\<lambda>i. get64 (cpu_mem c) (cpu_rsp c + of_nat (8 * i))) [0..<22] = take 22 ws"
    using assms by (intro nth_equalityI) (auto simp: stk_def)
  moreover have "frame_of_words (take 22 ws) = frame_of_words ws" by (simp add: frame_of_words_def)
  ultimately show ?thesis using assms unfolding read_frame_def by (simp add: mapped_def stk_def)
qed

section \<open>Runs of pushes and pops\<close>

lemma push_word_regs: "push_word v c = Inr c' \<Longrightarrow> gpr c' = gpr c"
  by (auto simp: push_word_def bindE_Inr_iff)

lemma push_words_append: "push_words (vs @ ws) c = bindE (push_words vs c) (push_words ws)"
proof (induction vs arbitrary: c)
  case (Cons v vs)
  then show ?case by (cases "push_word v c") simp_all
qed simp

lemma exec_push_imms:
  "exec env (map Push_imm vs @ is) (c, s) = bindE (push_words vs c) (\<lambda>c. exec env is (c, s))"
proof (induction vs arbitrary: c)
  case (Cons v vs)
  then show ?case by (cases "push_word v c") (simp_all add: step_def)
qed simp

lemma exec_pushes:
  "exec env (map Push rs @ is) (c, s) = bindE (push_words (map (gpr c) rs) c) (\<lambda>c. exec env is (c, s))"
proof (induction rs arbitrary: c)
  case (Cons r rs)
  then show ?case
    by (cases "push_word (gpr c r) c") (simp_all add: step_def push_word_regs)
qed simp

lemma exec_pops:
  assumes "stk t (ws @ rest) c" "length rs = length ws"
  shows "\<exists>c'. exec env (map Pop rs @ is) (c, s) = exec env is (c', s) \<and> stk t rest c' \<and> cpu_mem c' = cpu_mem c
    \<and> gpr c' = fold (\<lambda>(r, w) g. g(r := w)) (zip rs ws) (gpr c)"
  using assms
proof (induction rs arbitrary: c ws)
  case (Cons r rs)
  then obtain w ws' where ws: "ws = w # ws'" "length rs = length ws'" by (cases ws) auto
  let ?c = "c\<lparr>cpu_rsp := cpu_rsp c + 8, gpr := (gpr c)(r := w)\<rparr>"
  note pop = pop_word_stk [of t w "ws' @ rest" c]
  have "stk t (ws' @ rest) ?c" using pop(2) Cons.prems ws by (simp add: stk_def)
  from Cons.IH [OF this ws(2)] pop(1) Cons.prems ws show ?case by (auto simp: step_def)
qed auto

lemma iretq_stk:
  assumes "stk t [rip, cs, fl, sp, ss] c"
  shows "iretq c = Inr (c\<lparr>cpu_rsp := sp, cpu_rip := rip, cpu_cs := ucast cs, cpu_ss := ucast ss, cpu_rflags := fl\<rparr>)"
proof -
  note p1 = pop_word_stk [OF assms]
  note p2 = pop_word_stk [OF p1(2)]
  note p3 = pop_word_stk [OF p2(2)]
  note p4 = pop_word_stk [OF p3(2)]
  note p5 = pop_word_stk [OF p4(2)]
  from p1(1) p2(1) p3(1) p4(1) p5(1) show ?thesis by (simp add: iretq_def)
qed

text \<open>The registers in the order of the pushes.\<close>

definition saved_regs :: "reg list" where
  "saved_regs = [Rax, Rbx, Rcx, Rdx, Rsi, Rdi, Rbp, R8, R9, R10, R11, R12, R13, R14, R15]"

lemma common_blocks:
  "isr_common = map Push saved_regs @ [Mov_rdi_rsp, Call Exception_handler, Cli] @ isr_hang"
  "irq_common = map Push saved_regs @ [Mov_rdi_rsp, Call Irq_dispatch] @ map Pop (rev saved_regs) @ [Add_rsp 16, Iretq]"
  by (simp_all add: isr_common_def irq_common_def saved_regs_def)

text \<open>Popping the saved words in reverse order gives every register its value back.\<close>

lemma restore_regs: "fold (\<lambda>(r, w) g. g(r := w)) (zip (rev saved_regs) (rev (map g saved_regs))) g' = g"
proof
  fix r
  show "fold (\<lambda>(r, w) g. g(r := w)) (zip (rev saved_regs) (rev (map g saved_regs))) g' r = g r"
    by (cases r) (simp_all add: saved_regs_def)
qed

section \<open>Entering a common tail\<close>

lemma aligned_rsp_props: "unat (aligned_rsp c) mod 16 = 0" "unat (aligned_rsp c) \<le> unat (cpu_rsp c)"
proof -
  have m: "(0xF :: u64) = mask 4" by (simp add: mask_eq_exp_minus_1)
  have "aligned_rsp c = push_bit 4 (drop_bit 4 (cpu_rsp c))"
    unfolding aligned_rsp_def m by (rule bit_word_eqI) (auto simp: bit_simps)
  then have "aligned_rsp c = word_of_nat (unat (cpu_rsp c) div 16 * 16)"
    by (simp add: push_bit_eq_mult drop_bit_eq_div word_unat_eq_iff unat_word_ariths unat_div unat_of_nat)
  moreover have "unat (cpu_rsp c) div 16 * 16 < 2 ^ LENGTH(64)"
    using unsigned_less [of "cpu_rsp c", where 'a = nat] by simp
  ultimately have "unat (aligned_rsp c) = unat (cpu_rsp c) div 16 * 16"
    by (simp only: unat_of_nat mod_less)
  then show "unat (aligned_rsp c) mod 16 = 0" "unat (aligned_rsp c) \<le> unat (cpu_rsp c)" by simp_all
qed

text \<open>What a common tail does with the end of its block.\<close>

abbreviation leave :: "exit \<times> cpu \<times> 'a keyboard_scheme \<Rightarrow> (exit \<times> cpu \<times> 'a keyboard_scheme) outcome" where
  "leave \<equiv> \<lambda>(x, m). case x of Goto l \<Rightarrow> None | _ \<Rightarrow> returns (x, m)"

lemma stub_entry:
  assumes l0: "map_of isr_text l0 = Some (map Push_imm vs @ [Jmp l])"
    and l: "map_of isr_text l = Some (map Push saved_regs @ Mov_rdi_rsp # is)"
    and c: "stk t ws c" "8 * (length vs + 15 + length ws) \<le> t"
  shows "\<exists>c'. follow env 2 l0 (c, s) = andthen (Some (exec env is (c', s))) leave
    \<and> stk t (rev (vs @ map (gpr c) saved_regs) @ ws) c' \<and> gpr c' Rdi = cpu_rsp c'
    \<and> cpu_rflags c' = cpu_rflags c \<and> (\<forall>x. t \<le> unat x \<longrightarrow> cpu_mem c' x = cpu_mem c x)"
proof -
  have n: "length saved_regs = 15" by (simp add: saved_regs_def)
  obtain c1 where c1: "push_words vs c = Inr c1" "stk t (rev vs @ ws) c1" "only_below t c c1"
    using push_words_stk [OF c(1), of vs] c(2) by auto
  obtain c2 where c2: "push_words (map (gpr c1) saved_regs) c1 = Inr c2"
      "stk t (rev (map (gpr c1) saved_regs) @ rev vs @ ws) c2" "only_below t c1 c2"
    using push_words_stk [OF c1(2), of "map (gpr c1) saved_regs"] c(2) n by auto
  note f = only_below_fields [OF c1(3)] only_below_fields [OF c2(3)]
  let ?c = "c2\<lparr>gpr := (gpr c2)(Rdi := cpu_rsp c2)\<rparr>"
  have "exec env (map Push saved_regs @ Mov_rdi_rsp # is) (c1, s) = exec env is (?c, s)"
    by (simp add: exec_pushes c2(1) step_def)
  moreover have "exec env (map Push_imm vs @ [Jmp l]) (c, s) = Inr (Goto l, c1, s)"
    by (simp add: exec_push_imms c1(1) step_def)
  ultimately have "follow env 2 l0 (c, s) = andthen (Some (exec env is (?c, s))) leave"
    by (simp add: numeral_2_eq_2 l0 l andthen_def split: sum.split exit.split)
  moreover have "stk t (rev (vs @ map (gpr c) saved_regs) @ ws) ?c" using c2(2) f by (simp add: stk_def)
  moreover have "\<forall>x. t \<le> unat x \<longrightarrow> cpu_mem ?c x = cpu_mem c x"
    using c1(3) c2(3) by (simp add: only_below_def)
  ultimately show ?thesis using f by (intro exI [of _ ?c]) simp
qed

text \<open>The call, up to the entry of the C function.\<close>

lemma call_entry:
  assumes "stk t ws c" "gpr c Rdi = cpu_rsp c" "22 \<le> length ws" "8 * Suc (length ws) \<le> t"
  shows "\<exists>c'. push_word (return_address env) c = Inr c' \<and> stk t (return_address env # ws) c' \<and> only_below t c c'
    \<and> read_frame (cpu_mem c') (gpr c' Rdi) = Inr (frame_of_words ws)"
proof -
  obtain c' where c': "push_word (return_address env) c = Inr c'" "stk t (return_address env # ws) c'" "only_below t c c'"
    using push_word_stk [OF assms(1,4)] by blast
  have "cpu_rsp c' = cpu_rsp c - 8" using c'(1) by (auto simp: push_word_def bindE_Inr_iff)
  moreover have "gpr c' Rdi = cpu_rsp c" using only_below_fields [OF c'(3)] assms(2) by simp
  ultimately have "read_frame (cpu_mem c') (gpr c' Rdi) = Inr (frame_of_words ws)"
    using read_frame_stk [OF pop_word_stk(2) [OF c'(2)] assms(3)] by simp
  with c' show ?thesis by blast
qed

lemma call_irq_dispatch:
  assumes "stk t ws c" "gpr c Rdi = cpu_rsp c" "22 \<le> length ws" "8 * Suc (length ws) + room \<le> t" "t \<le> base"
    and "unat (cpu_rsp c) mod 16 = 0" "\<not> bit (cpu_rflags c) 10" "sysv_callee room base (callee env)"
  shows "\<exists>c'. call_c env Irq_dispatch (c, s) = Inr (None, c', irq_dispatch (devices env) (frame_of_words ws) s)
    \<and> stk t ws c' \<and> (\<forall>x. t \<le> unat x \<and> unat x < base \<longrightarrow> cpu_mem c' x = cpu_mem c x)"
proof -
  obtain c1 where c1: "push_word (return_address env) c = Inr c1" "stk t (return_address env # ws) c1" "only_below t c c1"
    "read_frame (cpu_mem c1) (gpr c1 Rdi) = Inr (frame_of_words ws)"
    using call_entry [OF assms(1-3)] assms(4) by auto
  have "unat (cpu_rsp c1) + 8 = unat (cpu_rsp c)" using c1(2) assms(1) by (simp add: stk_def)
  then have "unat (cpu_rsp c1) mod 16 = 8" "room \<le> unat (cpu_rsp c1)"
    using assms(1,4,6) by (simp_all add: stk_def) presburger
  moreover have "\<not> bit (cpu_rflags c1) 10" using only_below_fields [OF c1(3)] assms(7) by simp
  ultimately have f: "cpu_rsp (callee env c1) = cpu_rsp c1"
    "\<And>x. unat (cpu_rsp c1) \<le> unat x \<Longrightarrow> unat x < base \<Longrightarrow> cpu_mem (callee env c1) x = cpu_mem c1 x"
    using assms(8) by (simp_all add: sysv_callee_def)
  have "stk t (return_address env # ws) (callee env c1)"
    by (rule stk_cong [OF c1(2) f(1)]) (use assms(5) f(2) in auto)
  note pop = pop_word_stk [OF this]
  have "unat (cpu_rsp c1) \<le> t" using c1(2) by (simp add: stk_def)
  then show ?thesis using c1 pop f(2)
    by (intro exI [of _ "(callee env c1)\<lparr>cpu_rsp := cpu_rsp (callee env c1) + 8\<rparr>"])
      (simp add: call_c_def only_below_def)
qed

section \<open>Delivery\<close>

definition error_vectors :: "nat list" where
  "error_vectors = [8, 10, 11, 12, 13, 14, 17, 21]"

text \<open>The gates of a booted kernel: the stub of each vector.\<close>

definition stub_gates :: "(label \<Rightarrow> u64) \<Rightarrow> (u8 \<Rightarrow> idt_entry) \<Rightarrow> bool" where
  "stub_gates lnk g \<longleftrightarrow> (\<forall>v. unat v < 48 \<longrightarrow> g v = int_gate (lnk (Isr_stub (unat v))))"

lemma stub_code:
  "\<forall>n\<in>set [0..<32]. map_of isr_text (Isr_stub n) =
     Some (map Push_imm ((if n \<in> set error_vectors then [] else [0]) @ [of_nat n]) @ [Jmp Isr_common])"
  "\<forall>n\<in>set [32..<48]. map_of isr_text (Isr_stub n) = Some (map Push_imm [0, of_nat n] @ [Jmp Irq_common])"
  by (simp_all add: isr_text_def isr_stubs_def irq_stubs_def ISR_NOERR_def ISR_ERR_def IRQ_NOERR_def
      error_vectors_def upt_conv_Cons)

lemmas isr_stub_code = stub_code(1) [rule_format, unfolded set_upt atLeastLessThan_iff]
  and irq_stub_code = stub_code(2) [rule_format, unfolded set_upt atLeastLessThan_iff]

lemma common_code:
  "map_of isr_text Isr_common = Some isr_common" "map_of isr_text Irq_common = Some irq_common"
  by (simp_all add: isr_text_def isr_stubs_def irq_stubs_def ISR_NOERR_def ISR_ERR_def IRQ_NOERR_def)

lemma label_at_inj:
  assumes "inj_on lnk (fst ` set isr_text)" "map_of isr_text l \<noteq> None"
  shows "label_at lnk (lnk l) = Some l"
proof -
  have l: "l \<in> set (map fst isr_text)" using assms(2) by (simp add: map_of_eq_None_iff)
  have "l \<in> set ls \<Longrightarrow> set ls \<subseteq> fst ` set isr_text \<Longrightarrow> find (\<lambda>l'. lnk l' = lnk l) ls = Some l" for ls
  proof (induction ls)
    case (Cons x ls)
    then have "lnk x = lnk l \<longleftrightarrow> x = l" using l by (intro inj_on_eq_iff [OF assms(1)]) auto
    with Cons show ?case by auto
  qed simp
  from this [OF l] show ?thesis by (simp add: label_at_def)
qed

lemma stub_tables_gates:
  assumes "stub_tables lnk lay"
    and "\<forall>v. unat v < 48 \<longrightarrow> g v = int_gate (if unat v < 32 then isr_stub_table lay (unat v)
          else irq_stub_table lay (unat v - 32))"
  shows "stub_gates lnk g"
proof -
  have "\<forall>i\<in>set [0..<32]. isr_stub_dq ! i = Isr_stub i" "\<forall>i\<in>set [0..<16]. irq_stub_dq ! i = Isr_stub (32 + i)"
    by (simp_all add: isr_stub_dq_def irq_stub_dq_def upt_conv_Cons)
  with assms show ?thesis by (auto simp: stub_gates_def stub_tables_def)
qed

text \<open>The words the CPU pushes, last first.\<close>

definition cpu_words :: "cpu \<Rightarrow> u64 option \<Rightarrow> u64 list" where
  "cpu_words c err = (case err of None \<Rightarrow> [] | Some w \<Rightarrow> [w])
     @ [cpu_rip c, ucast (cpu_cs c), cpu_rflags c, cpu_rsp c, ucast (cpu_ss c)]"

lemma deliver_stk:
  assumes "unat (aligned_rsp c) = t" "8 * length (cpu_words c err) \<le> t" "t \<le> 512 * 0x200000"
  shows "\<exists>c'. deliver e err c = Inr c' \<and> stk t (cpu_words c err) c' \<and> gpr c' = gpr c \<and> cpu_rip c' = gate_offset e
    \<and> (\<forall>n. n \<noteq> 8 \<and> n \<noteq> 9 \<and> n \<noteq> 14 \<and> n \<noteq> 16 \<longrightarrow> bit (cpu_rflags c') n = bit (cpu_rflags c) n) \<and> \<not> bit (cpu_rflags c') 9
    \<and> (\<forall>x. t \<le> unat x \<longrightarrow> cpu_mem c' x = cpu_mem c x)"
proof -
  let ?c = "c\<lparr>cpu_rsp := aligned_rsp c\<rparr>"
  have "stk t [] ?c" using assms by (simp add: stk_def)
  from push_words_stk [OF this, of "rev (cpu_words c err)"] assms(2)
  obtain c1 where c1: "push_words (rev (cpu_words c err)) ?c = Inr c1" "stk t (cpu_words c err) c1" "only_below t ?c c1"
    by auto
  have r: "rev (cpu_words c err) = [ucast (cpu_ss c), cpu_rsp c, cpu_rflags c, ucast (cpu_cs c), cpu_rip c]
      @ (case err of None \<Rightarrow> [] | Some w \<Rightarrow> [w])"
    by (simp add: cpu_words_def split: option.split)
  from c1(1) [unfolded r] c1(2,3) only_below_fields [OF c1(3)] show ?thesis
    by (simp add: deliver_def stk_def only_below_def bit_unset_bit_iff)
qed

text \<open>From the interrupted instruction to the instruction after \<open>mov rdi, rsp\<close>.\<close>

lemma interrupt_entry:
  assumes lnk: "inj_on lnk (fst ` set isr_text)" "stub_gates lnk (idt s)" "unat v < 48"
    and code: "map_of isr_text (Isr_stub (unat v)) = Some (map Push_imm vs @ [Jmp l])"
      "map_of isr_text l = Some (map Push saved_regs @ Mov_rdi_rsp # is)"
    and t: "unat (aligned_rsp c) = t" "8 * (length vs + 15 + length (cpu_words c err)) \<le> t" "t \<le> 512 * 0x200000"
  shows "\<exists>c'. interrupt lnk env v err (c, s) = andthen (Some (exec env is (c', s))) leave
    \<and> stk t (rev (vs @ map (gpr c) saved_regs) @ cpu_words c err) c' \<and> gpr c' Rdi = cpu_rsp c'
    \<and> bit (cpu_rflags c') 10 = bit (cpu_rflags c) 10 \<and> \<not> bit (cpu_rflags c') 9
    \<and> (\<forall>x. t \<le> unat x \<longrightarrow> cpu_mem c' x = cpu_mem c x)"
proof -
  have g: "idt s v = int_gate (lnk (Isr_stub (unat v)))" using lnk(2,3) by (simp add: stub_gates_def)
  have gate: "type_attr (idt s v) = 0x8E" "gate_offset (idt s v) = lnk (Isr_stub (unat v))"
    by (simp_all add: g gate_offset_int_gate) (simp add: int_gate_def)
  have "8 * length (cpu_words c err) \<le> t" using t(2) by simp
  from deliver_stk [OF t(1) this t(3), of "idt s v"]
  obtain c1 where c1: "deliver (idt s v) err c = Inr c1" "stk t (cpu_words c err) c1" "gpr c1 = gpr c"
    "cpu_rip c1 = lnk (Isr_stub (unat v))" "bit (cpu_rflags c1) 10 = bit (cpu_rflags c) 10" "\<not> bit (cpu_rflags c1) 9"
    "\<forall>x. t \<le> unat x \<longrightarrow> cpu_mem c1 x = cpu_mem c x"
    unfolding gate by (elim exE conjE, intro that) auto
  have "interrupt lnk env v err (c, s) = follow env 2 (Isr_stub (unat v)) (c1, s)"
    using c1(1,4) label_at_inj [OF lnk(1), of "Isr_stub (unat v)"] code(1)
    by (simp add: interrupt_def gate andthen_def)
  with stub_entry [OF code c1(2) t(2), of env s] c1(3,5,6,7) show ?thesis by auto
qed

text \<open>The frame an interrupt hands to C: the interrupted registers, the vector and the error code.\<close>

definition entry_frame :: "cpu \<Rightarrow> u8 \<Rightarrow> u64 \<Rightarrow> interrupt_frame" where
  "entry_frame c v err = \<lparr>f_r15 = gpr c R15, f_r14 = gpr c R14, f_r13 = gpr c R13, f_r12 = gpr c R12,
     f_r11 = gpr c R11, f_r10 = gpr c R10, f_r9 = gpr c R9, f_r8 = gpr c R8, f_rbp = gpr c Rbp,
     f_rdi = gpr c Rdi, f_rsi = gpr c Rsi, f_rdx = gpr c Rdx, f_rcx = gpr c Rcx, f_rbx = gpr c Rbx,
     f_rax = gpr c Rax, f_vector = ucast v, f_error = err, f_rip = cpu_rip c, f_cs = ucast (cpu_cs c),
     f_rflags = cpu_rflags c, f_rsp = cpu_rsp c, f_ss = ucast (cpu_ss c)\<rparr>"

lemma frame_of_entry_words:
  "frame_of_words (rev ([0, of_nat (unat v)] @ map (gpr c) saved_regs) @ cpu_words c None) = entry_frame c v 0"
  "frame_of_words (rev ([of_nat (unat v)] @ map (gpr c) saved_regs) @ cpu_words c (Some w)) = entry_frame c v w"
  by (simp_all add: frame_of_words_def entry_frame_def cpu_words_def saved_regs_def)

text \<open>The second half of \<open>irq_common\<close>, on the stack the first half left.\<close>

lemma irq_common_tail:
  assumes "stk t (rev (map (gpr c) saved_regs) @ vec # err # cpu_words c None) c'"
  shows "exec env (map Pop (rev saved_regs) @ [Add_rsp 16, Iretq]) (c', s)
    = Inr (Resumed, c\<lparr>cpu_mem := cpu_mem c'\<rparr>, s)"
proof -
  have u: "ucast (ucast w :: u64) = w" for w :: u16 by (rule bit_word_eqI) (simp add: bit_simps)
  have "length (rev saved_regs) = length (rev (map (gpr c) saved_regs))" by simp
  from exec_pops [OF assms this, of env "[Add_rsp 16, Iretq]" s, unfolded restore_regs]
  obtain d where d: "exec env (map Pop (rev saved_regs) @ [Add_rsp 16, Iretq]) (c', s) = exec env [Add_rsp 16, Iretq] (d, s)"
      "stk t (vec # err # cpu_words c None) d" "cpu_mem d = cpu_mem c'" "gpr d = gpr c"
    by auto
  have "stk t (cpu_words c None) (d\<lparr>cpu_rsp := cpu_rsp d + 16\<rparr>)"
    using pop_word_stk(2) [OF pop_word_stk(2) [OF d(2)]] by (simp add: stk_def add.commute)
  from iretq_stk [OF this [unfolded cpu_words_def, simplified]] d(3,4)
  have "iretq (d\<lparr>cpu_rsp := cpu_rsp d + 16\<rparr>) = Inr (c\<lparr>cpu_mem := cpu_mem c'\<rparr>)"
    by (cases c; cases d) (simp add: u)
  with d(1) show ?thesis by (simp add: step_def)
qed

section \<open>Interrupts return\<close>

lemma irq_through_stub:
  assumes "inj_on lnk (fst ` set isr_text)" "stub_gates lnk (idt s)" "32 \<le> unat v" "unat v < 48"
    and "unat (cpu_rsp c) \<le> base" "base \<le> 512 * 0x200000" "184 + room \<le> unat (aligned_rsp c)"
    and "\<not> bit (cpu_rflags c) 10" "sysv_callee room base (callee env)"
  shows "\<exists>m. interrupt lnk env v None (c, s)
      = returns (Resumed, c\<lparr>cpu_mem := m\<rparr>, irq_dispatch (devices env) (entry_frame c v 0) s)
    \<and> (\<forall>x. unat (aligned_rsp c) \<le> unat x \<and> unat x < base \<longrightarrow> m x = cpu_mem c x)"
proof -
  define t where "t = unat (aligned_rsp c)"
  let ?vs = "[0, of_nat (unat v)] :: u64 list" and ?tail = "map Pop (rev saved_regs) @ [Add_rsp 16, Iretq]"
  have t: "t mod 16 = 0" "t \<le> base" "t \<le> 512 * 0x200000" "184 + room \<le> t"
    using aligned_rsp_props [of c] assms(5-7) by (auto simp: t_def)
  have n: "length saved_regs = 15" "length (cpu_words c None) = 5" by (simp_all add: saved_regs_def cpu_words_def)
  have code: "map_of isr_text (Isr_stub (unat v)) = Some (map Push_imm ?vs @ [Jmp Irq_common])"
    "map_of isr_text Irq_common = Some (map Push saved_regs @ Mov_rdi_rsp # Call Irq_dispatch # ?tail)"
    using irq_stub_code assms(3,4) common_code(2) by (simp_all add: common_blocks)
  define ws where "ws = rev (?vs @ map (gpr c) saved_regs) @ cpu_words c None"
  obtain c1 where c1: "interrupt lnk env v None (c, s) = andthen (Some (exec env (Call Irq_dispatch # ?tail) (c1, s))) leave"
      "stk t ws c1" "gpr c1 Rdi = cpu_rsp c1"
      "bit (cpu_rflags c1) 10 = bit (cpu_rflags c) 10" "\<forall>x. t \<le> unat x \<longrightarrow> cpu_mem c1 x = cpu_mem c x"
    using interrupt_entry [OF assms(1,2,4) code t_def [symmetric] _ t(3), of None env] t(4) n
    unfolding ws_def by auto
  have l: "length ws = 22" by (simp add: ws_def n)
  have "unat (cpu_rsp c1) + 176 = t" using c1(2) l by (simp add: stk_def)
  then have "unat (cpu_rsp c1) mod 16 = 0" using t(1) by presburger
  from call_irq_dispatch [OF c1(2,3) _ _ t(2) this _ assms(9), of s]
  obtain c2 where c2: "call_c env Irq_dispatch (c1, s) = Inr (None, c2, irq_dispatch (devices env) (frame_of_words ws) s)"
      "stk t ws c2" "\<forall>x. t \<le> unat x \<and> unat x < base \<longrightarrow> cpu_mem c2 x = cpu_mem c1 x"
    using l t(4) c1(4) assms(8) by auto
  let ?s = "irq_dispatch (devices env) (frame_of_words ws) s"
  have "exec env ?tail (c2, ?s) = Inr (Resumed, c\<lparr>cpu_mem := cpu_mem c2\<rparr>, ?s)"
    using c2(2) by (intro irq_common_tail) (simp add: ws_def)
  then have "interrupt lnk env v None (c, s) = returns (Resumed, c\<lparr>cpu_mem := cpu_mem c2\<rparr>, ?s)"
    using c1(1) c2(1) by (simp add: step_def andthen_def returns_def)
  then show ?thesis using c1(5) c2(3) unfolding ws_def frame_of_entry_words t_def
    by (intro exI [of _ "cpu_mem c2"]) simp
qed

text \<open>
  C11: an interrupt of vectors 32 to 47 is invisible to the code it interrupts.  From any register
  state with the direction flag clear and room on the stack, the CPU's delivery, the stub, the
  common tail, the C call and \<open>iretq\<close> run without a fault to their end; \<open>irq_dispatch\<close> has run
  exactly once, on a frame with the vector, error code 0 and the interrupted registers; and the CPU
  is back with every general register, the instruction and stack pointer, both segments and the
  flags as they were, and the stack from the aligned stack pointer up unchanged.
\<close>

theorem irq_stub_resumes:
  assumes "inj_on lnk (fst ` set isr_text)" "stub_gates lnk (idt s)" "32 \<le> unat v" "unat v < 48"
    and "unat (cpu_rsp c) \<le> base" "base \<le> 512 * 0x200000" "184 + room \<le> unat (aligned_rsp c)"
    and "\<not> bit (cpu_rflags c) 10" "sysv_callee room base (callee env)"
  shows "\<exists>m. interrupt lnk env v None (c, s)
      = returns (Resumed, c\<lparr>cpu_mem := m\<rparr>, irq_dispatch (devices env) (entry_frame c v 0) s)
    \<and> (\<forall>x. unat (aligned_rsp c) \<le> unat x \<and> unat x < base \<longrightarrow> m x = cpu_mem c x)"
  by (rule irq_through_stub [OF assms])

section \<open>Exceptions\<close>

text \<open>The other common tail: the frame reaches \<open>exception_handler\<close>, and that is the end.\<close>

lemma exception_entry:
  assumes "inj_on lnk (fst ` set isr_text)" "stub_gates lnk (idt s)" "unat v < 32"
    and "unat (cpu_rsp c) \<le> 512 * 0x200000" "192 \<le> unat (aligned_rsp c)"
    and vs: "vs = (if unat v \<in> set error_vectors then [] else [0]) @ [of_nat (unat v)]"
    and l: "22 \<le> length vs + 15 + length (cpu_words c err)"
  shows "\<exists>c'. interrupt lnk env v err (c, s) = returns (Halted, c',
    exception_handler (frame_of_words (rev (vs @ map (gpr c) saved_regs) @ cpu_words c err)) s) \<and> \<not> bit (cpu_rflags c') 9"
proof -
  define ws where "ws = rev (vs @ map (gpr c) saved_regs) @ cpu_words c err"
  have n: "length vs \<le> 2" "length (cpu_words c err) \<le> 6" "length saved_regs = 15"
    by (simp_all add: vs cpu_words_def saved_regs_def split: option.split)
  have t: "unat (aligned_rsp c) \<le> 512 * 0x200000" using aligned_rsp_props(2) [of c] assms(4) by linarith
  have "map_of isr_text (Isr_stub (unat v)) = Some (map Push_imm vs @ [Jmp Isr_common])"
    "map_of isr_text Isr_common = Some (map Push saved_regs @ Mov_rdi_rsp # Call Exception_handler # Cli # isr_hang)"
    using isr_stub_code assms(3) common_code(1) by (simp_all add: common_blocks vs)
  from interrupt_entry [OF assms(1,2) _ this refl _ t, of err env] assms(3,5) n
  obtain c1 where c1: "interrupt lnk env v err (c, s)
        = andthen (Some (exec env (Call Exception_handler # Cli # isr_hang) (c1, s))) leave"
      "stk (unat (aligned_rsp c)) ws c1" "gpr c1 Rdi = cpu_rsp c1"
    unfolding ws_def by auto
  from call_entry [OF c1(2,3), of env] n l assms(5)
  obtain c2 where "call_c env Exception_handler (c1, s)
      = Inr (Some Halted, cli (callee env c2), exception_handler (frame_of_words ws) s)"
    by (auto simp: ws_def call_c_def cli_hlt_loop_parks)
  moreover have "\<not> bit (cpu_rflags (cli d)) 9" for d by (simp add: cli_def bit_unset_bit_iff)
  ultimately show ?thesis using c1(1)
    by (intro exI [of _ "cli (callee env c2)"]) (simp add: ws_def step_def andthen_def returns_def)
qed

text \<open>
  C12: every exception the stubs' two macros fit reaches \<open>exception_handler\<close> in the same form,
  whether the CPU pushed an error code or not: one frame with the vector, the error code or 0, and
  the registers of the faulting instruction.  Nothing runs afterwards; the CPU is parked in the loop
  at the handler's end, with interrupts disabled, whatever the handler left in the flags.
\<close>

theorem exception_stub_reports:
  assumes "inj_on lnk (fst ` set isr_text)" "stub_gates lnk (idt s)" "unat v < 32"
    and "unat (cpu_rsp c) \<le> 512 * 0x200000" "192 \<le> unat (aligned_rsp c)"
    and "(err \<noteq> None) = (unat v \<in> set error_vectors)"
  shows "\<exists>c'. interrupt lnk env v err (c, s) = returns (Halted, c',
    exception_handler (entry_frame c v (case err of None \<Rightarrow> 0 | Some w \<Rightarrow> w)) s) \<and> \<not> bit (cpu_rflags c') 9"
proof (cases err)
  case None
  with exception_entry [OF assms(1-5) refl, of err env] assms(6) show ?thesis
    using frame_of_entry_words(1) [of v c] by (simp add: cpu_words_def)
next
  case (Some w)
  with exception_entry [OF assms(1-5) refl, of err env] assms(6) show ?thesis
    using frame_of_entry_words(2) [of v c w] by (simp add: cpu_words_def)
qed

text \<open>
  An error code on any other vector shifts the frame.  The printed error code is the stub's 0,
  the saved \<open>rip\<close> is the error code, \<open>cs\<close> the true \<open>rip\<close> and \<open>rflags\<close> the true \<open>cs\<close>.  The stubs use
  the macro without an error code for vectors 29 and 30, which the printer names after the two AMD
  exceptions that push one.
\<close>

theorem unlisted_error_code_misframes:
  assumes "inj_on lnk (fst ` set isr_text)" "stub_gates lnk (idt s)" "unat v < 32"
    and "unat (cpu_rsp c) \<le> 512 * 0x200000" "192 \<le> unat (aligned_rsp c)"
    and "unat v \<notin> set error_vectors"
  shows "\<exists>c'. interrupt lnk env v (Some w) (c, s) = returns (Halted, c', exception_handler
    ((entry_frame c v 0)\<lparr>f_rip := w, f_cs := cpu_rip c, f_rflags := ucast (cpu_cs c),
       f_rsp := cpu_rflags c, f_ss := cpu_rsp c\<rparr>) s) \<and> \<not> bit (cpu_rflags c') 9"
proof -
  have "frame_of_words (rev ([0, of_nat (unat v)] @ map (gpr c) saved_regs) @ cpu_words c (Some w))
    = (entry_frame c v 0)\<lparr>f_rip := w, f_cs := cpu_rip c, f_rflags := ucast (cpu_cs c),
       f_rsp := cpu_rflags c, f_ss := cpu_rsp c\<rparr>"
    by (simp add: frame_of_words_def entry_frame_def cpu_words_def saved_regs_def)
  with exception_entry [OF assms(1-5) refl, of "Some w" env] assms(6) show ?thesis
    by (simp add: cpu_words_def)
qed

section \<open>A concrete system\<close>

definition sample_lnk :: "label \<Rightarrow> u64" where
  "sample_lnk l = (case l of Isr_stub n \<Rightarrow> of_nat ((if n < 32 then 0x11000 else 0x11E00) + 16 * n)
     | Isr_common \<Rightarrow> 0x13000 | Isr_hang \<Rightarrow> 0x13040 | Irq_common \<Rightarrow> 0x13050)"

definition sample_cpu :: cpu where
  "sample_cpu = \<lparr>gpr = (\<lambda>_. 7), cpu_rsp = 0x8FFF8, cpu_rip = 0x10400, cpu_cs = 0x18, cpu_ss = 0x20,
     cpu_rflags = 0x202, cpu_mem = (\<lambda>_. 0)\<rparr>"

text \<open>A C function that leaves 0 in every general register and uses 8 bytes below its frame.\<close>

definition sample_env :: c_env where
  "sample_env = \<lparr>return_address = 0x13080,
     callee = (\<lambda>c. c\<lparr>gpr := (\<lambda>_. 0), cpu_mem := put64 (cpu_rsp c - 8) 1 (cpu_mem c)\<rparr>), devices = (\<lambda>_ _. 0)\<rparr>"

definition gated :: keyboard where
  "gated = wired_kbd\<lparr>idt := (\<lambda>v. int_gate (sample_lnk (Isr_stub (unat v))))\<rparr>"

lemma sample_lnk_inj: "inj_on sample_lnk (fst ` set isr_text)"
proof -
  have "distinct (map (sample_lnk \<circ> fst) isr_text)"
    by (simp add: isr_text_def isr_stubs_def irq_stubs_def ISR_NOERR_def ISR_ERR_def IRQ_NOERR_def sample_lnk_def)
  then show ?thesis by (simp add: distinct_map comp_inj_on_iff flip: map_map)
qed

lemma gated_stubs: "stub_gates sample_lnk (idt gated)"
  by (simp add: stub_gates_def gated_def)

lemma sample_env_sysv: "sysv_callee 8 0x90000 (callee sample_env)"
  by (auto simp: sysv_callee_def sample_env_def unat_sub_small word_le_nat_alt intro!: put64_outside)

lemma sample_cpu_stack: "unat (cpu_rsp sample_cpu) = 0x8FFF8" "unat (aligned_rsp sample_cpu) = 0x8FFF0"
  "\<not> bit (cpu_rflags sample_cpu) 10"
  by (simp_all add: sample_cpu_def aligned_rsp_def bit_numeral_simps)

theorem irq_stub_resumes_witness:
  "\<exists>m t. interrupt sample_lnk sample_env 32 None (sample_cpu, gated) = returns (Resumed, sample_cpu\<lparr>cpu_mem := m\<rparr>, t)
    \<and> s_ticks t = 1 \<and> m 0x8FFF8 = 0"
proof -
  obtain m where m: "interrupt sample_lnk sample_env 32 None (sample_cpu, gated) = returns (Resumed,
      sample_cpu\<lparr>cpu_mem := m\<rparr>, irq_dispatch (devices sample_env) (entry_frame sample_cpu 32 0) gated)"
      "\<forall>x. 0x8FFF0 \<le> unat x \<and> unat x < 0x90000 \<longrightarrow> m x = cpu_mem sample_cpu x"
    using irq_stub_resumes [OF sample_lnk_inj gated_stubs _ _ _ _ _ sample_cpu_stack(3) sample_env_sysv, of 32]
      sample_cpu_stack by auto
  have "s_ticks (irq_dispatch (devices sample_env) (entry_frame sample_cpu 32 0) gated) = 1"
    by (simp add: irq_dispatch_eq entry_frame_def gated_def wired_kbd_def wired_def call_irq_handler_def)
  moreover have "m 0x8FFF8 = 0" using m(2) by (simp add: sample_cpu_def)
  ultimately show ?thesis using m(1) by blast
qed

theorem exception_stub_reports_witness:
  "\<exists>c'. interrupt sample_lnk sample_env 14 (Some 2) (sample_cpu, gated)
      = returns (Halted, c', exception_handler (entry_frame sample_cpu 14 2) gated)
    \<and> \<not> bit (cpu_rflags c') 9 \<and> f_rip (entry_frame sample_cpu 14 2) = 0x10400"
  using exception_stub_reports [OF sample_lnk_inj gated_stubs, of 14 sample_cpu "Some 2" sample_env]
  by (simp add: sample_cpu_stack error_vectors_def) (simp add: entry_frame_def sample_cpu_def)

theorem unlisted_error_code_misframes_witness:
  "\<exists>c' frame. interrupt sample_lnk sample_env 29 (Some 0x72) (sample_cpu, gated)
      = returns (Halted, c', exception_handler frame gated)
    \<and> f_vector frame = 29 \<and> f_error frame = 0 \<and> f_rip frame = 0x72 \<and> exception_names ! 29 = ''VMM Communication (#VC)''"
proof -
  let ?f = "(entry_frame sample_cpu 29 0)\<lparr>f_rip := 0x72, f_cs := cpu_rip sample_cpu,
    f_rflags := ucast (cpu_cs sample_cpu), f_rsp := cpu_rflags sample_cpu, f_ss := cpu_rsp sample_cpu\<rparr>"
  have "exception_names ! 29 = ''VMM Communication (#VC)''" by (simp add: exception_names_def)
  moreover have "f_vector ?f = 29" "f_error ?f = 0" "f_rip ?f = 0x72" by (simp_all add: entry_frame_def)
  moreover obtain c' where "interrupt sample_lnk sample_env 29 (Some 0x72) (sample_cpu, gated)
      = returns (Halted, c', exception_handler ?f gated)"
    using unlisted_error_code_misframes [OF sample_lnk_inj gated_stubs, of 29 sample_cpu sample_env "0x72"]
    by (auto simp: sample_cpu_stack error_vectors_def)
  ultimately show ?thesis by blast
qed

end
