(* ===== verification/Boot_Chain.thy ===== *)
theory Boot_Chain
  imports Image Isr Kmain_Properties Segments
begin

unbundle bit_operations_syntax

text \<open>
  The boot chain as a whole: boot sector, stage-2 entry, kernel entry and interrupt stubs composed in
  the order they run.  The memory map travels from the BIOS to the frame allocator, and after the boot
  every interrupt goes through the stubs and back.
\<close>

section \<open>The memory map, from the BIOS to the frame allocator\<close>

text \<open>The statics of the C code as the entry code leaves them in memory, as far as the boot reads them.\<close>

definition c_statics :: "entry_symbols \<Rightarrow> memory \<Rightarrow> kernel \<Rightarrow> bool" where
  "c_statics syms m s \<longleftrightarrow> s_initialized s = 0 \<and> irq_handlers s = (\<lambda>_. None)
     \<and> memmap_count s = get32 m (addr_memmap_count syms)
     \<and> memmap_entries s = (\<lambda>i. e820_at m (addr_memmap_entries syms + of_nat (24 * i)))"

lemma e820_map_staged:
  assumes l: "entry_linked syms" "entry_memory syms (build_page_tables m1) m3"
    and st: "unat (m1 E820_COUNT) = min 64 (length es)" "\<forall>i<min 65 (length es). e820_at m1 (slot i) = es ! i"
    and s: "c_statics syms m3 s"
  shows "e820_map (memmap_count s) (Some (memmap_entries s)) = take 64 es"
proof -
  have n: "staged_count (build_page_tables m1) = min 64 (length es)"
    using st(1) by (simp add: staged_count_def page_tables_elsewhere MEMMAP_COUNT_PHYS_def E820_COUNT_def)
  have c: "unat (memmap_count s) = min 64 (length es)"
    using s entry_memory_count [OF l] by (simp add: c_statics_def n unat_of_nat)
  have e: "memmap_entries s i = es ! i" if i: "i < min 64 (length es)" for i
  proof -
    have "memmap_entries s i = e820_at (build_page_tables m1) (slot i)"
      using s entry_memory_entries [OF l, of i] i n by (simp add: c_statics_def slot_def)
    also have "\<dots> = e820_at m1 (slot i)"
    proof (rule e820_at_cong)
      fix j :: nat
      assume "j < 24"
      then show "build_page_tables m1 (slot i + of_nat j) = m1 (slot i + of_nat j)"
        using unat_slot [of i j] i by (intro page_tables_elsewhere) simp
    qed
    also have "\<dots> = es ! i" using st(2) i by simp
    finally show ?thesis .
  qed
  show ?thesis unfolding e820_map_def option.case c by (intro nth_equalityI) (auto simp: e)
qed

lemma start_reaches_stage2:
  assumes "e820_reports int15 cont es"
  shows "\<exists>t. start int13 int15 int15_a20 n dl s0 = Some (Inr t) \<and> bit (rm_cr0 t) 0 \<and> bit (rm_port92 t) 1
    \<and> rm_tty t = rm_tty s0 @ msg_loading @ msg_entering
    \<and> unat (snd (rm_io t) E820_COUNT) = min 64 (length es)
    \<and> (\<forall>i<min 65 (length es). e820_at (snd (rm_io t)) (slot i) = es ! i)"
proof -
  define s where "s = enable_a20 int15_a20 (puts msg_loading s0)"
  obtain b0 m0 where lk: "load_kernel int13 dl n (rm_regs s, rm_io s) = Inr (b0, m0)"
    using load_kernel_returns [of int13 dl n "rm_regs s" "rm_io s"] by auto
  obtain b1 m1 where q: "query_e820 65 int15 0 (b0, m0) = Some (b1, m1)" "unat (m1 E820_COUNT) = min 64 (length es)"
      "\<forall>i<min 65 (length es). e820_at m1 (slot i) = es ! i"
    using query_e820_staged [OF assms, of b0 m0] by blast
  let ?t = "puts msg_entering (s\<lparr>rm_io := (b1, m1)\<rparr>)"
  let ?u = "?t\<lparr>rm_cr0 := rm_cr0 ?t OR 1\<rparr>"
  have "start int13 int15 int15_a20 n dl s0 = Some (Inr ?u)"
    by (simp add: start_def Let_def s_def [symmetric] lk q(1))
  moreover have "takeWhile (\<lambda>c. c \<noteq> 0) (msg @ [0]) = msg" if "0 \<notin> set msg" for msg :: "u8 list"
    using that by (induction msg) auto
  then have "rm_tty ?u = rm_tty s0 @ msg_loading @ msg_entering"
    by (simp add: puts_def s_def enable_a20_def case_prod_unfold Let_def msg_loading_def msg_entering_def)
  moreover have "bit (rm_port92 ?u) 1" using enable_a20_sets by (simp add: puts_def s_def)
  moreover have "bit (rm_cr0 ?u) 0" by (simp add: bit_or_iff)
  moreover have "rm_io ?u = (b1, m1)" by (simp add: puts_def)
  ultimately show ?thesis using q(2,3) by (intro exI [of _ ?u]) simp
qed

text \<open>
  C8: from power-on to the main loop, the kernel only ever owns memory the BIOS called usable.  The BIOS
  reports the list \<open>es\<close>; whatever the disk answers, the boot sector reaches stage 2 with address line
  20 enabled, stage 2 activates long mode and reaches \<open>kmain\<close> with the identity map in place and the
  first 64 entries of \<open>es\<close> in its statics, and after
  the boot every frame of the heap and every free frame lies wholly in a usable entry among them, in
  no other entry, above the first megabyte and outside the kernel image.
\<close>

theorem boot_chain_frames:
  assumes "e820_reports int15 cont es" "entry_linked syms" "has_longmode cpuid"
    and "pic_readback ma sl dev" "uart_drains dev"
  shows "\<exists>t k2 m2 m3. start int13 int15 int15_a20 n dl s0 = Some (Inr t) \<and> bit (rm_port92 t) 1
    \<and> boot32_entry cpuid (k\<lparr>cr0 := rm_cr0 t\<rparr>, snd (rm_io t)) = Inr (k2, m2) \<and> long_mode_active k2
    \<and> long_entry syms m2 = Inr m3 \<and> tables_intact m3
    \<and> (\<forall>s. c_statics syms m3 s \<longrightarrow> e820_map (memmap_count s) (Some (memmap_entries s)) = take 64 es
        \<and> (\<exists>present t fl. kmain_boot dev lay irqs s = returns (present, t) \<and> heap_inv (k_heap t) fl []
            \<and> set (all_frames fl) \<union> free_frames (k_pmm t) \<subseteq> (\<Union>en\<in>set (take 64 es). usable_frames en)
                - carved_frames (take 64 es) - {..<256} - range_frames (kernel_start lay) (kernel_end lay - kernel_start lay)))"
proof -
  obtain t where t: "start int13 int15 int15_a20 n dl s0 = Some (Inr t)" "bit (rm_cr0 t) 0" "bit (rm_port92 t) 1"
      "unat (snd (rm_io t) E820_COUNT) = min 64 (length es)"
      "\<forall>i<min 65 (length es). e820_at (snd (rm_io t)) (slot i) = es ! i"
    using start_reaches_stage2 [OF assms(1), of int13 int15_a20 n dl s0] by blast
  let ?k = "enable_long_mode (k\<lparr>cr0 := rm_cr0 t\<rparr>)" and ?m2 = "build_page_tables (snd (rm_io t))"
  obtain m3 where m3: "long_entry syms ?m2 = Inr m3" "entry_memory syms ?m2 m3"
    using long_entry_bytes [OF assms(2) build_tables_intact] by blast
  have "tables_intact m3"
    using build_tables_intact [of "snd (rm_io t)"] entry_memory_outside [OF assms(2) m3(2)] assms(2)
    by (auto simp: tables_intact_def entry_linked_def)
  moreover have "boot32_entry cpuid (k\<lparr>cr0 := rm_cr0 t\<rparr>, snd (rm_io t)) = Inr (?k, ?m2)"
    using assms(3) by (simp add: boot32_entry_def)
  moreover have "long_mode_active ?k" using t(2) by (simp add: enable_long_mode_active)
  moreover have "e820_map (memmap_count s) (Some (memmap_entries s)) = take 64 es
      \<and> (\<exists>present t fl. kmain_boot dev lay irqs s = returns (present, t) \<and> heap_inv (k_heap t) fl []
            \<and> set (all_frames fl) \<union> free_frames (k_pmm t) \<subseteq> (\<Union>en\<in>set (take 64 es). usable_frames en)
                - carved_frames (take 64 es) - {..<256} - range_frames (kernel_start lay) (kernel_end lay - kernel_start lay))"
    if s: "c_statics syms m3 s" for s
  proof -
    note map = e820_map_staged [OF assms(2) m3(2) t(4,5) s]
    have "s_initialized s = 0" "irq_handlers s = (\<lambda>_. None)" using s by (simp_all add: c_statics_def)
    from kmain_boot_divides [OF assms(4,5) this, of lay irqs] map show ?thesis by auto
  qed
  ultimately show ?thesis using t(1,3) m3(1) by blast
qed

lemma sample_symbols_linked: "entry_linked sample_symbols"
  by (simp add: entry_linked_def sample_symbols_def)

theorem boot_chain_frames_witness:
  "\<exists>t k2 m2 m3 s present u. start sample_disk (table_bios two_regions) id 200 0 power_on = Some (Inr t)
    \<and> boot32_entry long_mode_cpuid (reset_control\<lparr>cr0 := rm_cr0 t\<rparr>, snd (rm_io t)) = Inr (k2, m2)
    \<and> long_entry sample_symbols m2 = Inr m3 \<and> c_statics sample_symbols m3 s
    \<and> e820_map (memmap_count s) (Some (memmap_entries s)) = two_regions
    \<and> kmain_boot ready_dev sample_layout two_ticks s = returns (present, u)"
proof -
  have es: "two_regions \<noteq> []" "length two_regions < 2 ^ 32" "take 64 two_regions = two_regions"
    by (simp_all add: two_regions_def)
  obtain t k2 m2 m3 where c: "start sample_disk (table_bios two_regions) id 200 0 power_on = Some (Inr t)"
      "boot32_entry long_mode_cpuid (reset_control\<lparr>cr0 := rm_cr0 t\<rparr>, snd (rm_io t)) = Inr (k2, m2)"
      "long_entry sample_symbols m2 = Inr m3"
      "\<And>s. c_statics sample_symbols m3 s \<Longrightarrow> e820_map (memmap_count s) (Some (memmap_entries s)) = take 64 two_regions
        \<and> (\<exists>present t. kmain_boot ready_dev sample_layout two_ticks s = returns (present, t))"
    using boot_chain_frames [OF table_bios_reports [OF es(1,2)] sample_symbols_linked long_mode_cpuid_ok ready_dev_ok,
        of sample_disk id 200 0 power_on reset_control sample_layout two_ticks]
    by (elim exE conjE, intro that) (assumption | meson)+
  define s where "s = zero_kernel\<lparr>memmap_count := get32 m3 (addr_memmap_count sample_symbols),
    memmap_entries := (\<lambda>i. e820_at m3 (addr_memmap_entries sample_symbols + of_nat (24 * i)))\<rparr>"
  have "c_statics sample_symbols m3 s" by (simp add: c_statics_def s_def)
  with c(1-3) c(4) [OF this] es(3) show ?thesis by metis
qed

section \<open>Interrupts of the booted kernel\<close>

lemma kmain_boot_gates:
  assumes "pic_readback ma sl dev" "uart_drains dev" "s_initialized s = 0" "irq_handlers s = (\<lambda>_. None)"
    and "stub_tables lnk lay"
  shows "\<exists>present t. kmain_boot dev lay irqs s = returns (present, t) \<and> stub_gates lnk (idt t) \<and> if_flag t
    \<and> irq_handlers t = wired \<and> ring_inv t"
proof -
  define c where "c = \<lparr>c_master = ma, c_slave = sl, c_pit = undefined, c_uart = undefined\<rparr>"
  have rb: "pic_readback (c_master c) (c_slave c) dev" using assms(1) by (simp add: c_def)
  obtain present t s1 q h where b: "kmain_boot dev lay irqs s = returns (present, t)"
    "view c s1 = booted lay (if present then device_lines else []) q h (view c s)"
    "after_irqs c (boot_irqs irqs) (if present then live_line else []) s1 t"
    using kmain_boot_state [OF rb assms(2,3)] by metis
  note f = booted_after_irqs [OF b(2) assms(4) b(3)]
  have "stub_gates lnk (idt t)"
    by (rule stub_tables_gates [OF assms(5)]) (use f in \<open>simp add: boot_gates_def\<close>)
  with b(1) f show ?thesis by (intro exI [of _ present] exI [of _ t]) simp
qed

text \<open>Interrupts one after the other, each from the state in which the one before left CPU and kernel.\<close>

primrec run_interrupts :: "(label \<Rightarrow> u64) \<Rightarrow> c_env \<Rightarrow> u8 list \<Rightarrow> cpu \<times> kernel \<Rightarrow> (cpu \<times> kernel) outcome" where
  "run_interrupts lnk env [] m = returns m"
| "run_interrupts lnk env (v # vs) m = andthen (interrupt lnk env v None m)
     (\<lambda>(x, m). if x = Resumed then run_interrupts lnk env vs m else None)"

text \<open>The condition under which an interrupt finds a stack it can use.\<close>

definition interruptible :: "nat \<Rightarrow> cpu \<Rightarrow> bool" where
  "interruptible room c \<longleftrightarrow> unat (cpu_rsp c) \<le> unat STACK64_TOP \<and> 184 + room \<le> unat (aligned_rsp c)
     \<and> \<not> bit (cpu_rflags c) 10"

lemma run_interrupts_dispatch:
  assumes "inj_on lnk (fst ` set isr_text)" "sysv_callee room (unat STACK64_TOP) (callee env)"
  shows "stub_gates lnk (idt s) \<Longrightarrow> \<forall>v\<in>set vs. 32 \<le> unat v \<and> unat v < 48 \<Longrightarrow> interruptible room c
    \<Longrightarrow> \<exists>m. run_interrupts lnk env vs (c, s)
        = returns (c\<lparr>cpu_mem := m\<rparr>, fold (irq_dispatch (devices env)) (map (\<lambda>v. entry_frame c v 0) vs) s)
      \<and> (\<forall>x. unat (aligned_rsp c) \<le> unat x \<and> unat x < unat STACK64_TOP \<longrightarrow> m x = cpu_mem c x)"
proof (induction vs arbitrary: s c)
  case Nil
  then show ?case by (intro exI [of _ "cpu_mem c"]) simp
next
  case (Cons v vs)
  have b: "unat STACK64_TOP \<le> 512 * 0x200000" by (simp add: STACK64_TOP_def)
  have v: "32 \<le> unat v" "unat v < 48" using Cons.prems(2) by simp_all
  have c: "unat (cpu_rsp c) \<le> unat STACK64_TOP" "184 + room \<le> unat (aligned_rsp c)" "\<not> bit (cpu_rflags c) 10"
    using Cons.prems(3) by (simp_all add: interruptible_def)
  let ?s = "irq_dispatch (devices env) (entry_frame c v 0) s"
  from irq_through_stub [OF assms(1) Cons.prems(1) v c(1) b c(2,3) assms(2)]
  obtain m where m: "interrupt lnk env v None (c, s) = returns (Resumed, c\<lparr>cpu_mem := m\<rparr>, ?s)"
      "\<forall>x. unat (aligned_rsp c) \<le> unat x \<and> unat x < unat STACK64_TOP \<longrightarrow> m x = cpu_mem c x" by blast
  let ?c = "c\<lparr>cpu_mem := m\<rparr>"
  have same: "entry_frame ?c w 0 = entry_frame c w 0" "aligned_rsp ?c = aligned_rsp c" for w
    by (simp_all add: entry_frame_def aligned_rsp_def)
  have "interruptible room ?c" using Cons.prems(3) same(2) by (simp add: interruptible_def)
  moreover have "stub_gates lnk (idt ?s)" using Cons.prems(1) by (simp add: irq_dispatch_frame)
  ultimately obtain m' where "run_interrupts lnk env vs (?c, ?s)
        = returns (c\<lparr>cpu_mem := m'\<rparr>, fold (irq_dispatch (devices env)) (map (\<lambda>v. entry_frame c v 0) vs) ?s)"
      "\<forall>x. unat (aligned_rsp c) \<le> unat x \<and> unat x < unat STACK64_TOP \<longrightarrow> m' x = m x"
    using Cons.IH [of ?s ?c] Cons.prems(2) unfolding same by auto
  with m show ?case by (intro exI [of _ m']) simp
qed

text \<open>
  C9: after the boot any sequence of hardware interrupts is transparent and accounted for.  Whatever
  the CPU is doing on the kernel stack, the interrupts of vectors 32 to 47 go through the gates the
  boot installed, the stubs of their vectors and \<open>irq_dispatch\<close>, and resume the interrupted code with
  all its registers and the stack above unchanged.  The kernel's state is then the fold of
  \<open>irq_dispatch\<close> over the frames, which is how theory \<open>Kmain\<close> models interrupts; the tick counter has
  advanced by the number of timer interrupts, and the handlers are still wired.
\<close>

theorem booted_irqs_resume:
  assumes "pic_readback ma sl dev" "uart_drains dev" "s_initialized s = 0" "irq_handlers s = (\<lambda>_. None)"
    and "stub_tables lnk lay" "inj_on lnk (fst ` set isr_text)" "sysv_callee room (unat STACK64_TOP) (callee env)"
  shows "\<exists>present t. kmain_boot dev lay irqs s = returns (present, t)
    \<and> (\<forall>vs c. list_all (\<lambda>v. 32 \<le> unat v \<and> unat v < 48) vs \<and> interruptible room c
        \<longrightarrow> (\<exists>m u. run_interrupts lnk env vs (c, t) = returns (c\<lparr>cpu_mem := m\<rparr>, u)
              \<and> (\<forall>x. unat (aligned_rsp c) \<le> unat x \<and> unat x < unat STACK64_TOP \<longrightarrow> m x = cpu_mem c x)
              \<and> u = fold (irq_dispatch (devices env)) (map (\<lambda>v. entry_frame c v 0) vs) t
              \<and> s_ticks u = s_ticks t + of_nat (length (filter (\<lambda>v. v = 32) vs))
              \<and> irq_handlers u = wired \<and> ring_inv u))"
proof -
  obtain present t where t: "kmain_boot dev lay irqs s = returns (present, t)" "stub_gates lnk (idt t)"
      "irq_handlers t = wired" "ring_inv t"
    using kmain_boot_gates [OF assms(1-5)] by blast
  have "\<exists>m u. run_interrupts lnk env vs (c, t) = returns (c\<lparr>cpu_mem := m\<rparr>, u)
      \<and> (\<forall>x. unat (aligned_rsp c) \<le> unat x \<and> unat x < unat STACK64_TOP \<longrightarrow> m x = cpu_mem c x)
      \<and> u = fold (irq_dispatch (devices env)) (map (\<lambda>v. entry_frame c v 0) vs) t
      \<and> s_ticks u = s_ticks t + of_nat (length (filter (\<lambda>v. v = 32) vs)) \<and> irq_handlers u = wired \<and> ring_inv u"
    if vs: "list_all (\<lambda>v. 32 \<le> unat v \<and> unat v < 48) vs" and c: "interruptible room c" for vs c
  proof -
    let ?fs = "map (\<lambda>v. entry_frame c v 0) vs"
    have "\<forall>v\<in>set vs. 32 \<le> unat v \<and> unat v < 48" using vs by (simp add: list_all_iff)
    note run = run_interrupts_dispatch [OF assms(6,7) t(2) this c]
    have "unat (f_vector (entry_frame c v 0)) = 32 \<longleftrightarrow> v = 32" for v
      by (simp add: entry_frame_def unat_ucast_up word_unat_eq_iff)
    then have "length (filter (\<lambda>f. unat (f_vector f) = 32) ?fs) = length (filter (\<lambda>v. v = 32) vs)"
      by (simp add: filter_map comp_def)
    with irq_fold [OF t(3,4) refl, of "devices env" ?fs ma] run show ?thesis by auto
  qed
  with t(1) show ?thesis by blast
qed

lemma sample_stub_tables: "stub_tables sample_lnk sample_layout"
proof -
  have "\<forall>i\<in>set [0..<32]. isr_stub_table sample_layout i = sample_lnk (isr_stub_dq ! i)"
    "\<forall>i\<in>set [0..<16]. irq_stub_table sample_layout i = sample_lnk (irq_stub_dq ! i)"
    by (simp_all add: sample_layout_def sample_lnk_def isr_stub_dq_def irq_stub_dq_def upt_conv_Cons)
  then show ?thesis by (simp add: stub_tables_def)
qed

theorem booted_irqs_resume_witness:
  "\<exists>present t m u. kmain_boot ready_dev sample_layout (\<lambda>_. []) zero_kernel = returns (present, t)
    \<and> run_interrupts sample_lnk sample_env [32, 33, 32] (sample_cpu, t) = returns (sample_cpu\<lparr>cpu_mem := m\<rparr>, u)
    \<and> s_ticks u = s_ticks t + 2 \<and> m 0x8FFF8 = 0"
proof -
  have top: "unat STACK64_TOP = 0x90000" by (simp add: STACK64_TOP_def)
  have env: "sysv_callee 8 (unat STACK64_TOP) (callee sample_env)" unfolding top by (rule sample_env_sysv)
  have c: "list_all (\<lambda>v :: u8. 32 \<le> unat v \<and> unat v < 48) [32, 33, 32] \<and> interruptible 8 sample_cpu"
    by (simp add: interruptible_def sample_cpu_stack top)
  obtain present t m u where u: "kmain_boot ready_dev sample_layout (\<lambda>_. []) zero_kernel = returns (present, t)"
    "run_interrupts sample_lnk sample_env [32, 33, 32] (sample_cpu, t) = returns (sample_cpu\<lparr>cpu_mem := m\<rparr>, u)"
    "\<forall>x. unat (aligned_rsp sample_cpu) \<le> unat x \<and> unat x < unat STACK64_TOP \<longrightarrow> m x = cpu_mem sample_cpu x"
    "s_ticks u = s_ticks t + of_nat (length (filter (\<lambda>v :: u8. v = 32) [32, 33, 32]))"
    using booted_irqs_resume [OF ready_dev_ok zero_kernel_fields(1,2) sample_stub_tables sample_lnk_inj env, of "\<lambda>_. []"] c by blast
  have "m 0x8FFF8 = cpu_mem sample_cpu 0x8FFF8" using u(3) by (simp add: sample_cpu_stack top)
  then have "m 0x8FFF8 = 0" by (simp add: sample_cpu_def)
  with u(1,2,4) show ?thesis
    by (intro exI [of _ present] exI [of _ t] exI [of _ m] exI [of _ u]) simp
qed

end
