(* ===== verification/Spec2Isabelle.thy ===== *)
theory Spec2Isabelle
  imports Heap_Properties Keyboard_Properties Kmain_Properties Image Segments Boot_Chain
begin

text \<open>
  \<^bold>\<open>Nadir kernel: a verification library.\<close>

  The program is a small x86-64 kernel.  \<^verbatim>\<open>kernel/arch/x86_64/entry.asm\<close> enters long mode, zeroes the
  BSS and calls \<open>kmain\<close> (\<^verbatim>\<open>kernel/core/kmain.c\<close>).  \<open>kmain\<close> clears the screen, installs the interrupt
  descriptor table, initializes both 8259 controllers, COM1, the 8254 timer and the keyboard, builds
  the frame allocator from the E820 map and the heap on top of it, runs a heap self-test, enables
  interrupts, and loops: sleep until an interrupt, print the uptime once per second, echo the keys
  that have arrived.  Interrupts reach the drivers through \<open>irq_dispatch\<close>.

  \<^bold>\<open>Theories, in the order of the code.\<close>

  \<^item> \<open>Nadir_Prelude\<close>: word types \<open>u8\<close> to \<open>u64\<close>, C arrays (\<open>carray\<close>), C strings (\<open>cstr\<close>), counting loops at machine width (\<open>for_range\<close>) with their invariant rule, and
    the shared lemmas on words and lists.
  \<^item> \<open>Pmm\<close>: \<^verbatim>\<open>kernel/mm/pmm.c\<close>, \<^verbatim>\<open>include/pmm.h\<close>, \<^verbatim>\<open>include/e820.h\<close>.  The record \<open>pmm\<close> is the bitmap and the
    two counters; the bitmap is read as the set \<open>free_frames\<close>.  \<open>pmm_init\<close> is computed as a set, the
    allocator refines "take the least element" (locale \<open>frame_allocator\<close>, interpretation \<open>frames\<close>), and ownership is tracked over any client run.
  \<^item> \<open>Phys_Memory\<close>: byte memory under the identity map of \<^verbatim>\<open>entry.asm\<close>; an access outside it is a \<open>fault\<close>,
    and \<open>bindE\<close> sequences steps that may fault.  What this asks of the page walk is the locale
    \<open>identity_paging\<close>, interpreted in \<open>Entry\<close> (\<open>boot_paging\<close>).
  \<^item> \<open>Heap_Client\<close>: the locale \<open>heap_allocator\<close>, what a client may rely on (disjoint live blocks inside
    the pool, contents stable, counters add up), proved once from the laws of the operations.
  \<^item> \<open>Kmalloc\<close>: \<^verbatim>\<open>kernel/mm/kmalloc.c\<close>.  Free-list nodes and headers are bytes in memory, \<open>link\<close> is the
    C double pointer, \<open>kmalloc_walk\<close> the loop over the list (\<open>None\<close> if it never ends).  The invariant
    \<open>heap_inv\<close> relates the bytes to lists of runs; every operation keeps it.  Interpretation \<open>kheap\<close>.
  \<^item> \<open>Heap_Properties\<close>: the properties of the heap, first fit, client safety, error paths.
  \<^item> \<open>Port_IO\<close>: \<^verbatim>\<open>include/io.h\<close>.  The outside world is the history of port accesses, and what a read
    returns is the parameter \<open>dev\<close>, a function of history and port.
  \<^item> \<open>Console\<close>: \<^verbatim>\<open>console.c\<close>, refining a 25 by 80 terminal \<open>tty\<close>; the CRT cursor registers by replay.
  \<^item> \<open>Pic\<close>, \<open>Pit\<close>, \<open>Serial\<close>: \<^verbatim>\<open>pic.c\<close>, \<^verbatim>\<open>pit.c\<close>, \<^verbatim>\<open>serial.c\<close>, each with a model of its chip that replays
    the port history, so that "what was programmed" is a function of the writes.
  \<^item> \<open>Idt\<close>: \<^verbatim>\<open>idt.c\<close>, gates with split offsets, installation loops, the exception printer.
  \<^item> \<open>Bounded_Queue\<close>: the locale of a bounded queue that drops the newest element when full.
  \<^item> \<open>Keyboard\<close>, \<open>Keyboard_Properties\<close>: \<^verbatim>\<open>keyboard.c\<close>, scancode translation and the ring buffer
    (interpretation \<open>keys\<close>), and the consumer split at its memory accesses with interrupts in between.
  \<^item> \<open>Interrupts\<close>: \<open>irq_dispatch\<close> of \<^verbatim>\<open>idt.c\<close> and any sequence of interrupts.
  \<^item> \<open>Klog\<close>: \<^verbatim>\<open>kernel/core/klog.c\<close>; every log operation is one \<open>console_puts\<close> of a text in closed form.
  \<^item> \<open>Kmain\<close>: \<^verbatim>\<open>kernel/core/kmain.c\<close>, stage by stage (\<open>kmain_devices\<close>, \<open>kmain_memory\<close>, \<open>kmain_heap\<close>,
    \<open>kmain_live\<close>), the self-test, one pass of the main loop, and the loop itself, on the record
    \<open>kernel\<close> that extends the state of all drivers.
  \<^item> \<open>Kmain_Selftest\<close>: the outcome of the self-test on every heap.
  \<^item> \<open>Kmain_Boot\<close>: the boot through a view (variables and chips, screen forgotten), in which every stage is
    one update.
  \<^item> \<open>Kmain_Loop\<close>: interrupts, echo, uptime and the loop under the invariant \<open>loop_inv\<close>; \<open>drain_trace\<close> is a
    run of the echo loop with the keys that arrive in it.
  \<^item> \<open>Kmain_Booted\<close>: the stages put together.  The last one runs with interrupts enabled, so it is followed
    by a relation (\<open>after_irqs\<close>) that composes over interrupts and log lines.
  \<^item> \<open>Kmain_Screen\<close>: the text each stage prints, and the screen after the boot.
  \<^item> \<open>Kmain_Properties\<close>: the properties of the kernel entry, with a concrete machine for the witnesses.
  \<^item> \<open>Isr\<close>: \<^verbatim>\<open>isr.asm\<close>, the 48 stubs and the two common tails as instruction lists over the registers and
    the byte memory (\<open>cpu\<close>, \<open>step\<close>, \<open>exec\<close>), with interrupt delivery and \<open>iretq\<close>.  The lemmas follow the
    words on the stack (\<open>stk\<close>) through runs of pushes and pops.
  \<^item> \<open>Entry\<close>: \<^verbatim>\<open>entry.asm\<close>, page tables and the CPU's walk over them (\<open>translate\<close>), descriptors, and the
    64-bit entry (\<open>long_entry\<close>), whose every access is translated by the walk in the memory of the moment;
    memory after each string instruction is given in closed form, as long as the tables are intact.
  \<^item> \<open>Boot\<close>: \<^verbatim>\<open>boot.asm\<close>, the loader and the memory-map query over BIOS services that are arguments.
  \<^item> \<open>Image\<close>: \<^verbatim>\<open>kernel/arch/x86_64/link.ld\<close> and the image rules of the \<^verbatim>\<open>Makefile\<close>.  Input sections are
    placed by \<open>link_ld\<close>; \<open>kernel_bin\<close> and \<open>nadir_img\<close> are the files, \<open>sector_of\<close> the disk the loader reads.
    Placements are kept in ascending order (\<open>in_order\<close>), from which disjointness, alignment and bounds follow.
  \<^item> \<open>Segments\<close>: the instructions of \<^verbatim>\<open>boot.asm\<close> and \<^verbatim>\<open>entry.asm\<close> that load \<open>gdtr\<close>, segment registers and
    stack pointers, as instruction lists over the CPU's registers with the checks of each load.
  \<^item> \<open>Boot_Chain\<close>: the properties that span boot sector, entry, kernel and stubs.

  \<^bold>\<open>Correspondence of state.\<close>  Static variables are record fields with the names of the source; the
  records extend one another in the order in which the components call each other (\<open>ports\<close>, \<open>console\<close>,
  \<open>interrupts\<close>, \<open>pit\<close>, \<open>keyboard\<close>, \<open>kernel\<close>), so an operation of a lower component applies to the state
  of a higher one as it is.  Machine integers are words of their width.  A NULL pointer is the
  address 0 where the code computes with it (frames, heap) and \<open>None\<close> where it only tests it.
  \<open>char\<close> is signed, as the compiler for this target has it.

  \<^bold>\<open>Errors, loops and time.\<close>  A page fault or general protection fault is a value of the sum type \<open>fault + 'a\<close>.  A loop that may not
  end (the serial spin, the walk of a free list, the echo loop) is a \<open>partial_function\<close> in the option
  type, and theorems about it prove that it returns.  The sleep loop and the main loop consume a
  schedule of interrupts instead: the interrupts that arrive are arguments.  After \<open>sti\<close> they are taken
  before every call of the boot (\<open>kmain_live\<close>), in the main loop at \<open>hlt\<close>, before the uptime line and its
  notice (\<open>pass_irqs\<close>) and at each test of the echo loop, and in the sleep loop before each test, between
  test and \<open>hlt\<close>, and at \<open>hlt\<close> (\<open>pit_sleep_loop\<close>).  Between these points an interrupt touches nothing that
  the code reads: a call that prints or sends reads at most the tick counter, once, at its beginning.  The
  finer interleaving that matters, of the
  keyboard interrupt with the consumer's loads and stores, is in \<open>Keyboard_Properties\<close>.  The memory-map query has
  fuel 65, one call more than the staging buffer has entries (\<open>query_e820_ends\<close>: it is always enough), and a stub has
  two blocks to run (its own and a common tail), so \<open>follow\<close> has fuel 2.

  \<^bold>\<open>Hypotheses on the hardware.\<close>  \<open>pic_readback\<close>: the data port of an initialized 8259 reads back the
  mask.  \<open>uart_drains\<close>: from every history on, the transmitter is empty after some number of polls (an
  absent port, which reads as all ones, satisfies it).  Both hold of the devices of the witnesses.
  \<open>sysv_callee\<close>: compiled C keeps the stack from its stack pointer up, entered with an aligned stack and
  the direction flag clear.  \<open>floppy_reads\<close>, \<open>e820_writes_buffer\<close>, \<open>e820_reports\<close>: what the BIOS documents of its
  disk and map services (the disk for its 80 cylinders and buffers in conventional memory), \<open>e820_keeps_image\<close>: that the latter keeps away from the loaded kernel.  \<open>entry_linked\<close>,
  \<open>stub_tables\<close>: what the linker has to provide.  The first holds of every layout of \<open>link_ld\<close> that ends
  below the page tables (\<open>linked_symbols_entry\<close>), which nothing in the linker script checks.  \<open>linkable\<close>: the
  objects have positive alignments and an entry section that may start at 64KB.

  \<^bold>\<open>What the theorems show.\<close>  Memory: the free frames after \<open>pmm_init\<close> are exactly those the map
  allows; frames and heap blocks are never handed out twice or lost, with the exceptions that are
  stated and proved as theorems of their own (a wrapped size, a frame lost by \<open>kmalloc_init\<close>, the last
  partial frame of a reserved range, frame 0).  Interrupts: every interrupt is counted, acknowledged
  and delivered; no key is lost, duplicated or reordered.  Output: screen, cursor, numbers and log
  lines are what the text says.  The kernel as a whole: it boots on every memory map, with the stated
  chips, tables, memory division, screen and serial transcript, and then runs forever.  The assembly: the
  identity map and its faults, on which the memory model rests, are what the built tables mean; every
  segment register is loaded with a segment of the kind its use requires; an interrupt is invisible to the interrupted code; the map the BIOS reports is the map the frame
  allocator sees; and the loader ignores disk errors, against its own comments.  The build: every byte the
  kernel was linked from is at its link address when \<open>kmain\<close> is called, and what happens to a kernel that
  is linked over the page tables.

  \<^bold>\<open>Not modelled.\<close>  The contents of the object files are the compiler's and the assembler's: the C
  components are modelled from their source, and the image from its sections as bytes.  The boot check script
  of the continuous integration is not part of the program.  The layout has no discarded and no merged
  sections (a linker merges equal strings; here every input section is placed whole), and the bytes that
  fill gaps are an argument.  The walk is made afresh for each access: cached translations, and the
  accessed and dirty bits that the CPU writes into tables and descriptors, are left out.  Instruction timing, caches, non-maskable
  interrupts and a fault inside a stub (which stops the model as \<open>Inl\<close>) are outside it too.
\<close>

end
